(* ===== verification/Prelude.thy ===== *)
theory Prelude
  imports Main "HOL-Library.Word" "HOL-Library.Multiset"
begin

text \<open>
  Shared vocabulary of the development: the machine integers of the C++ code, byte
  strings, addresses and pointers, the faults a C++ execution can end in, and the
  result type every operation that may fault returns.  The generic lemmas on lists and
  stores that several components use are here too.
\<close>

unbundle bit_operations_syntax

section \<open>Types\<close>

type_synonym u8 = "8 word"
type_synonym u32 = "32 word"
type_synonym u64 = "64 word"

text \<open>A \<open>std::string\<close>, or a buffer of \<open>uint8_t\<close>, is the list of its bytes.\<close>

type_synonym bytes = "u8 list"

text \<open>
  An object on the C++ heap has an address; \<open>NULL\<close> is \<open>None\<close>.  A store holds the objects
  of one struct type, so that two structs embedded in one object (an \<open>HNode\<close> in an
  \<open>Entry\<close>) share its address and \<open>container_of\<close> is the identity on addresses.
\<close>

type_synonym addr = nat
type_synonym ptr = "addr option"
type_synonym 'a store = "addr \<rightharpoonup> 'a"

text \<open>The ways an execution can leave the defined behaviour of the program.\<close>

datatype fault =
    NullDeref      \<comment> \<open>a \<open>NULL\<close> pointer is dereferenced\<close>
  | BadAddress     \<comment> \<open>a freed object, or an object of another type, is accessed\<close>
  | OutOfBounds    \<comment> \<open>an array is accessed outside its length\<close>
  | AssertFailed   \<comment> \<open>an \<open>assert\<close> of the code fails and the process aborts\<close>
  | Uncaught       \<comment> \<open>a C++ exception leaves \<open>main\<close>\<close>
  | Hang           \<comment> \<open>a loop of the code never ends\<close>

type_synonym 'a res = "fault + 'a"

section \<open>Sequencing of operations that may fault\<close>

definition bindr :: "'a res \<Rightarrow> ('a \<Rightarrow> 'b res) \<Rightarrow> 'b res" where
  "bindr r f = (case r of Inl e \<Rightarrow> Inl e | Inr x \<Rightarrow> f x)"

definition checkr :: "fault \<Rightarrow> bool \<Rightarrow> unit res" where
  "checkr e b = (if b then Inr () else Inl e)"

lemma bindr_Inr [simp]: "bindr (Inr x) f = f x"
  by (simp add: bindr_def)

lemma bindr_Inl [simp]: "bindr (Inl e) f = Inl e"
  by (simp add: bindr_def)

lemma bindr_cong [fundef_cong]:
  "r = r' \<Longrightarrow> (\<And>x. r' = Inr x \<Longrightarrow> f x = g x) \<Longrightarrow> bindr r f = bindr r' g"
  by (cases r') (auto simp: bindr_def)

lemma bindr_eq_Inr: "bindr r f = Inr y \<longleftrightarrow> (\<exists>x. r = Inr x \<and> f x = Inr y)"
  by (cases r) auto

lemma bindr_eq_Inl: "bindr r f = Inl e \<longleftrightarrow> r = Inl e \<or> (\<exists>x. r = Inr x \<and> f x = Inl e)"
  by (cases r) auto

lemma bindr_assoc: "bindr (bindr r f) g = bindr r (\<lambda>x. bindr (f x) g)"
  by (cases r) auto

lemma checkr_True [simp]: "checkr e True = Inr ()"
  by (simp add: checkr_def)

lemma checkr_False [simp]: "checkr e False = Inl e"
  by (simp add: checkr_def)

lemma checkr_eq_Inr [simp]: "checkr e b = Inr u \<longleftrightarrow> b"
  by (cases b) auto

section \<open>Stores\<close>

text \<open>Reading and overwriting the object a pointer points to.\<close>

definition load :: "'a store \<Rightarrow> ptr \<Rightarrow> 'a res" where
  "load m p = (case p of None \<Rightarrow> Inl NullDeref
     | Some a \<Rightarrow> (case m a of None \<Rightarrow> Inl BadAddress | Some v \<Rightarrow> Inr v))"

definition update :: "'a store \<Rightarrow> ptr \<Rightarrow> ('a \<Rightarrow> 'a) \<Rightarrow> 'a store res" where
  "update m p f = bindr (load m p) (\<lambda>v. Inr (m(the p \<mapsto> f v)))"

lemma load_None [simp]: "load m None = Inl NullDeref"
  by (simp add: load_def)

lemma load_Some: "m a = Some v \<Longrightarrow> load m (Some a) = Inr v"
  by (simp add: load_def)

lemma load_eq_Inr: "load m p = Inr v \<longleftrightarrow> (\<exists>a. p = Some a \<and> m a = Some v)"
  by (auto simp: load_def split: option.splits)

lemma update_Some: "m a = Some v \<Longrightarrow> update m (Some a) f = Inr (m(a \<mapsto> f v))"
  by (simp add: update_def load_def)

lemma update_eq_Inr:
  "update m p f = Inr m' \<longleftrightarrow> (\<exists>a v. p = Some a \<and> m a = Some v \<and> m' = m(a \<mapsto> f v))"
  by (auto simp: update_def bindr_eq_Inr load_eq_Inr)

section \<open>Words\<close>

lemma u32_less: "unat (w :: u32) < 2 ^ 32"
  using unsigned_less [of w, where 'a = nat] by simp

lemma u64_less: "unat (w :: u64) < 2 ^ 64"
  using unsigned_less [of w, where 'a = nat] by simp

lemma u64_of_nat_eq_0: "n < 2 ^ 64 \<Longrightarrow> (of_nat n :: u64) = 0 \<longleftrightarrow> n = 0"
  using unat_of_nat [of n, where 'a = 64] by (auto simp: take_bit_nat_eq_self_iff)

lemma u64_exp: "k < 64 \<Longrightarrow> unat ((2 :: u64) ^ k) = 2 ^ k"
  using unat_of_nat [of "2 ^ k", where 'a = 64] power_strict_increasing [of k 64 "2 :: nat"]
  by (simp add: take_bit_nat_eq_self_iff)

section \<open>Lists\<close>

lemma concat_update:
  "i < length xss \<Longrightarrow>
   concat (xss[i := ys]) = concat (take i xss) @ ys @ concat (drop (Suc i) xss)"
  by (simp add: upd_conv_take_nth_drop)

lemma concat_nth_split:
  "i < length xss \<Longrightarrow>
   concat xss = concat (take i xss) @ xss ! i @ concat (drop (Suc i) xss)"
  by (metis concat_append concat.simps(2) id_take_nth_drop)

lemma mset_concat_update:
  assumes "i < length xss"
  shows "mset (concat (xss[i := ys])) + mset (xss ! i) = mset (concat xss) + mset ys"
proof -
  have "mset (concat xss)
      = mset (concat (take i xss)) + mset (xss ! i) + mset (concat (drop (Suc i) xss))"
    by (subst concat_nth_split [OF assms]) simp
  then show ?thesis
    using assms by (simp add: concat_update)
qed

lemma in_concat_nth: "x \<in> set (concat xss) \<longleftrightarrow> (\<exists>i < length xss. x \<in> set (xss ! i))"
  by (auto simp: in_set_conv_nth) (metis nth_mem in_set_conv_nth)+

lemma nth_in_concat: "i < length xss \<Longrightarrow> x \<in> set (xss ! i) \<Longrightarrow> x \<in> set (concat xss)"
  by (auto intro: nth_mem)

lemma length_concat_member: "x \<in> set xs \<Longrightarrow> length (f x) \<le> length (concat (map f xs))"
  by (induction xs) auto

lemma distinct_bounded_length: "distinct xs \<Longrightarrow> \<forall>x \<in> set xs. x < n \<Longrightarrow> length xs \<le> n"
  using card_mono [of "{..<n}" "set xs"] by (auto simp: distinct_card)

lemma find_append:
  "find P (xs @ ys) = (case find P xs of None \<Rightarrow> find P ys | Some x \<Rightarrow> Some x)"
  by (induction xs) auto

lemma find_concat_at:
  assumes "i < length xss"
    and "\<And>j x. j < length xss \<Longrightarrow> x \<in> set (xss ! j) \<Longrightarrow> P x \<Longrightarrow> j = i"
  shows "find P (concat xss) = find P (xss ! i)"
proof -
  have none: "find P (concat (map (\<lambda>j. xss ! j) js)) = None"
    if "\<forall>j \<in> set js. j < length xss \<and> j \<noteq> i" for js
    using assms(2) that by (fastforce simp: find_None_iff)
  have "take i xss = map (\<lambda>j. xss ! j) [0..<i]"
    using assms(1) by (intro nth_equalityI) auto
  then have "find P (concat (take i xss)) = None"
    using assms(1) by (simp only:) (rule none, auto)
  moreover have "drop (Suc i) xss = map (\<lambda>j. xss ! j) [Suc i..<length xss]"
    using assms(1) by (intro nth_equalityI) auto
  then have "find P (concat (drop (Suc i) xss)) = None"
    by (simp only:) (rule none, auto)
  ultimately show ?thesis
    by (subst concat_nth_split [OF assms(1)]) (simp add: find_append split: option.splits)
qed

lemma takeWhile_split:
  "\<exists>x \<in> set xs. P x \<Longrightarrow>
   \<exists>x ys. xs = takeWhile (\<lambda>x. \<not> P x) xs @ x # ys \<and> P x \<and> find P xs = Some x"
  by (induction xs) auto

end
