(* ===== verification/Bytes.thy ===== *)
theory Bytes
  imports Prelude
begin

text \<open>
  The byte layouts of the integers the code copies in and out of buffers with \<open>memcpy\<close>
  and \<open>append((char *)&x, n)\<close>.  The host is little-endian (the code's x86-64 and arm64
  targets); \<open>htobe64\<close> and \<open>be64toh\<close> turn 64-bit values into network order.
\<close>

unbundle bit_operations_syntax

section \<open>Little-endian layout of a word\<close>

fun le_enc :: "nat \<Rightarrow> 'a::len word \<Rightarrow> bytes" where
  "le_enc 0 w = []"
| "le_enc (Suc n) w = ucast w # le_enc n (drop_bit 8 w)"

fun le_dec :: "bytes \<Rightarrow> 'a::len word" where
  "le_dec [] = 0"
| "le_dec (b # bs) = ucast b OR push_bit 8 (le_dec bs)"

lemma length_le_enc [simp]: "length (le_enc n w) = n"
  by (induction n arbitrary: w) auto

lemma le_dec_enc_take: "le_dec (le_enc n w) = take_bit (8 * n) w"
proof (induction n arbitrary: w)
  case 0
  then show ?case by simp
next
  case (Suc n)
  show ?case
    by (rule bit_word_eqI) (auto simp: Suc bit_simps)
qed

lemma le_dec_enc: "LENGTH('a) \<le> 8 * n \<Longrightarrow> le_dec (le_enc n w) = (w :: 'a::len word)"
  by (simp add: le_dec_enc_take take_bit_word_eq_self)

lemma le_enc_dec:
  "8 * length bs \<le> LENGTH('a) \<Longrightarrow> le_enc (length bs) (le_dec bs :: 'a::len word) = bs"
proof (induction bs)
  case Nil
  then show ?case by simp
next
  case (Cons b bs)
  have hd: "ucast (ucast b OR push_bit 8 (le_dec bs) :: 'a word) = b"
    using Cons.prems by (intro bit_word_eqI) (auto simp: bit_simps)
  have tl: "drop_bit 8 (ucast b OR push_bit 8 (le_dec bs) :: 'a word) = take_bit (LENGTH('a) - 8) (le_dec bs)"
    by (intro bit_word_eqI) (auto simp: bit_simps dest: bit_imp_le_length)
  have "bit (le_dec xs :: 'a word) k \<Longrightarrow> k < 8 * length xs" for xs k
    by (induction xs arbitrary: k) (fastforce simp: bit_simps dest: bit_imp_le_length)+
  then have "take_bit (LENGTH('a) - 8) (le_dec bs) = (le_dec bs :: 'a word)"
    using Cons.prems by (intro bit_word_eqI) (fastforce simp: bit_simps)
  with hd tl Cons show ?case by simp
qed

section \<open>The layouts the code uses\<close>

text \<open>A \<open>uint32_t\<close> in host order, a \<open>uint64_t\<close> in network order.\<close>

definition le32 :: "u32 \<Rightarrow> bytes" where
  "le32 w = le_enc 4 w"

definition rd_le32 :: "bytes \<Rightarrow> u32" where
  "rd_le32 bs = le_dec bs"

definition be64 :: "u64 \<Rightarrow> bytes" where
  "be64 w = rev (le_enc 8 w)"

definition rd_be64 :: "bytes \<Rightarrow> u64" where
  "rd_be64 bs = le_dec (rev bs)"

text \<open>
  What a fixed-width layout promises to the code that appends it to a buffer and to the
  code that copies it back out.
\<close>

locale fixed_codec =
  fixes width :: nat
    and enc :: "'w \<Rightarrow> bytes"
    and dec :: "bytes \<Rightarrow> 'w"
  assumes enc_length: "length (enc w) = width"
    and dec_enc: "dec (enc w) = w"
    and enc_dec: "length bs = width \<Longrightarrow> enc (dec bs) = bs"
begin

lemma take_enc: "take width (enc w @ rest) = enc w"
  by (simp add: enc_length)

lemma drop_enc: "drop width (enc w @ rest) = rest"
  by (simp add: enc_length)

lemma dec_take_enc: "dec (take width (enc w @ rest)) = w"
  by (simp add: enc_length dec_enc)

lemma enc_inject: "enc v = enc w \<longleftrightarrow> v = w"
  by (metis dec_enc)

lemma enc_take_dec: "width \<le> length bs \<Longrightarrow> enc (dec (take width bs)) @ drop width bs = bs"
  by (simp add: enc_dec)

end

interpretation host32: fixed_codec 4 le32 rd_le32
proof
  show "le32 (rd_le32 bs) = bs" if "length bs = 4" for bs
    using le_enc_dec [of bs, where 'a = 32] that by (simp add: le32_def rd_le32_def)
qed (simp_all add: le32_def rd_le32_def le_dec_enc)

interpretation net64: fixed_codec 8 be64 rd_be64
proof
  show "be64 (rd_be64 bs) = bs" if "length bs = 8" for bs
    using le_enc_dec [of "rev bs", where 'a = 64] that by (simp add: be64_def rd_be64_def)
qed (simp_all add: be64_def rd_be64_def le_dec_enc)

lemmas codec_simps [simp] =
  host32.enc_length host32.dec_enc net64.enc_length net64.dec_enc

end
