(* ===== verification/Serialisation.thy ===== *)
theory Serialisation
  imports Bytes
begin

text \<open>
  The reply format: \<open>serialisation.cpp\<close> appends tagged values to the reply of a request,
  and \<open>on_response\<close> of \<open>client.cpp\<close> reads them back.  A \<open>double\<close> is its 64-bit pattern.
\<close>

unbundle bit_operations_syntax

section \<open>The server side: appending tagged values\<close>

datatype ser_tag = SER_NIL | SER_ERR | SER_STR | SER_INT | SER_ARR | SER_DOUBLE

fun ser_code :: "ser_tag \<Rightarrow> u8" where
  "ser_code SER_NIL = 0"
| "ser_code SER_ERR = 1"
| "ser_code SER_STR = 2"
| "ser_code SER_INT = 3"
| "ser_code SER_ARR = 4"
| "ser_code SER_DOUBLE = 5"

definition out_nil :: "bytes \<Rightarrow> bytes" where
  "out_nil out = out @ [ser_code SER_NIL]"

definition out_str :: "bytes \<Rightarrow> bytes \<Rightarrow> bytes" where
  "out_str out val = out @ [ser_code SER_STR] @ le32 (of_nat (length val)) @ val"

definition out_int :: "bytes \<Rightarrow> u64 \<Rightarrow> bytes" where
  "out_int out val = out @ [ser_code SER_INT] @ be64 val"

definition out_dbl :: "bytes \<Rightarrow> u64 \<Rightarrow> bytes" where
  "out_dbl out val = out @ [ser_code SER_DOUBLE] @ be64 val"

definition out_err :: "bytes \<Rightarrow> u32 \<Rightarrow> bytes \<Rightarrow> bytes" where
  "out_err out code msg =
     out @ [ser_code SER_ERR] @ le32 code @ le32 (of_nat (length msg)) @ msg"

definition out_arr :: "bytes \<Rightarrow> u32 \<Rightarrow> bytes" where
  "out_arr out n = out @ [ser_code SER_ARR] @ le32 n"

section \<open>The client side: reading a reply\<close>

text \<open>What \<open>on_response\<close> prints, in order.\<close>

datatype item =
    INil
  | IErr u32 bytes
  | IStr bytes
  | IInt u64
  | IArrBegin u32
  | IArrEnd
  | IUnknown

text \<open>
  \<open>on_response(data, size)\<close> is given the \<open>size\<close> bytes at \<open>data\<close> and returns an
  \<open>int32_t\<close>.  \<open>9 + len\<close> and \<open>5 + len\<close> are computed in 32 bits, as in the code; where
  they wrap, the check passes and the string access that follows leaves the buffer.  The
  first argument bounds the nesting of arrays; \<open>on_response\<close> supplies enough of it.
\<close>

fun on_resp :: "nat \<Rightarrow> bytes \<Rightarrow> (u32 \<times> item list) res"
  and on_elems :: "nat \<Rightarrow> nat \<Rightarrow> bytes \<Rightarrow> nat \<Rightarrow> item list \<Rightarrow> (u32 \<times> item list) res"
where
  "on_resp 0 data = Inl Hang"
| "on_resp (Suc fuel) data =
    (if length data < 1 then Inr (-1, [])
     else if data ! 0 = ser_code SER_NIL then Inr (1, [INil])
     else if data ! 0 = ser_code SER_ERR then
       (if length data < 9 then Inr (-1, [])
        else let code = rd_le32 (take 4 (drop 1 data)); len = rd_le32 (take 4 (drop 5 data)) in
          if length data < unat (9 + len) then Inr (-1, [])
          else if length data < 9 + unat len then Inl OutOfBounds
          else Inr (9 + len, [IErr code (take (unat len) (drop 9 data))]))
     else if data ! 0 = ser_code SER_ARR then
       (if length data < 5 then Inr (-1, [])
        else let len = rd_le32 (take 4 (drop 1 data)) in
          on_elems fuel (unat len) data 5 [IArrBegin len])
     else if data ! 0 = ser_code SER_INT then
       (if length data < 9 then Inr (-1, [])
        else Inr (9, [IInt (rd_be64 (take 8 (drop 1 data)))]))
     else if data ! 0 = ser_code SER_STR then
       (if length data < 5 then Inr (-1, [])
        else let len = rd_le32 (take 4 (drop 1 data)) in
          if length data < unat (5 + len) then Inr (-1, [])
          else if length data < 5 + unat len then Inl OutOfBounds
          else Inr (5 + len, [IStr (take (unat len) (drop 5 data))]))
     else Inr (-1, [IUnknown]))"
| "on_elems fuel 0 data arr_bytes items = Inr (of_nat arr_bytes, items @ [IArrEnd])"
| "on_elems fuel (Suc n) data arr_bytes items =
     bindr (on_resp fuel (drop arr_bytes data)) (\<lambda>(rv, printed).
       if sint rv < 0 then Inr (rv, items @ printed)
       else on_elems fuel n data (arr_bytes + unat rv) (items @ printed))"

definition on_response :: "bytes \<Rightarrow> (u32 \<times> item list) res" where
  "on_response data = on_resp (Suc (length data)) data"

lemmas out_defs = out_nil_def out_str_def out_int_def out_dbl_def out_err_def out_arr_def

section \<open>Replies as values\<close>

text \<open>
  The values the format can carry to a client, how the \<open>out_\<close> functions write one, and
  what \<open>on_response\<close> must print for it.
\<close>

datatype reply =
    RNil
  | RErr u32 bytes
  | RStr bytes
  | RInt u64
  | RArr "reply list"

fun put_reply :: "bytes \<Rightarrow> reply \<Rightarrow> bytes" where
  "put_reply out RNil = out_nil out"
| "put_reply out (RErr code msg) = out_err out code msg"
| "put_reply out (RStr val) = out_str out val"
| "put_reply out (RInt val) = out_int out val"
| "put_reply out (RArr rs) =
     foldl (\<lambda>o' r. put_reply o' r) (out_arr out (of_nat (length rs))) rs"

fun reply_items :: "reply \<Rightarrow> item list" where
  "reply_items RNil = [INil]"
| "reply_items (RErr code msg) = [IErr code msg]"
| "reply_items (RStr val) = [IStr val]"
| "reply_items (RInt val) = [IInt val]"
| "reply_items (RArr rs) =
     IArrBegin (of_nat (length rs)) # concat (map reply_items rs) @ [IArrEnd]"

fun reply_depth :: "reply \<Rightarrow> nat" where
  "reply_depth (RArr rs) = Suc (Max (insert 0 (set (map reply_depth rs))))"
| "reply_depth _ = 0"

abbreviation enc_reply :: "reply \<Rightarrow> bytes" where
  "enc_reply \<equiv> put_reply []"

lemma put_reply_append: "put_reply out r = out @ enc_reply r"
proof (induction r arbitrary: out)
  case (RArr rs)
  have "foldl (\<lambda>o' r. put_reply o' r) (out @ o1) xs = out @ foldl (\<lambda>o' r. put_reply o' r) o1 xs"
    if "set xs \<subseteq> set rs" for o1 xs
    using that
  proof (induction xs arbitrary: o1)
    case (Cons x xs)
    then have "put_reply (out @ o1) x = out @ put_reply o1 x"
      using RArr.IH [of x "out @ o1"] RArr.IH [of x o1] by simp
    then show ?case using Cons by simp
  qed simp
  from this [of rs "out_arr [] (of_nat (length rs))"] show ?case
    by (simp add: out_arr_def)
qed (simp_all add: out_defs)

lemma enc_reply_RArr:
  "enc_reply (RArr rs) = out_arr [] (of_nat (length rs)) @ concat (map enc_reply rs)"
proof -
  have "foldl put_reply out xs = out @ concat (map enc_reply xs)" for out xs
  proof (induction xs arbitrary: out)
    case (Cons x xs)
    show ?case by (simp add: Cons) (rule put_reply_append)
  qed simp
  then show ?thesis by simp
qed

lemma length_enc_reply_pos: "0 < length (enc_reply r)"
  by (cases r) (simp_all add: enc_reply_RArr out_defs del: put_reply.simps(5))

text \<open>Nesting is bounded by the length, so the fuel \<open>on_response\<close> passes is enough.\<close>

lemma reply_depth_less: "reply_depth r < length (enc_reply r)"
proof (induction r)
  case (RArr rs)
  have "reply_depth x < length (concat (map enc_reply rs))" if "x \<in> set rs" for x
    using RArr.IH [OF that] length_concat_member [OF that, of enc_reply] by simp
  then have "Max (insert 0 (set (map reply_depth rs))) \<le> length (concat (map enc_reply rs))"
    by (force intro: Max.boundedI)
  then show ?case
    by (auto simp: enc_reply_RArr out_arr_def simp del: put_reply.simps(5)
        dest!: bspec intro: le_less_trans)
qed (simp_all add: out_defs)

section \<open>Reading back what was written\<close>

lemma unat_add_len:
  "k + n < 2 ^ 32 \<Longrightarrow> unat (of_nat k + of_nat n :: u32) = k + n"
  by (simp add: unat_of_nat flip: of_nat_add)

lemma sint_of_small: "n < 2 ^ 31 \<Longrightarrow> sint (of_nat n :: u32) = int n"
  by (simp add: signed_of_nat signed_take_bit_int_eq_self)


lemma take4_le32 [simp]: "take 4 (le32 w @ rest) = le32 w"
  using host32.take_enc [of w rest] by simp

lemma take8_be64 [simp]: "take 8 (be64 w @ rest) = be64 w"
  using net64.take_enc [of w rest] by simp

lemma drop_le32 [simp]: "drop (4 + k) (le32 w @ rest) = drop k rest"
  by simp

lemma on_resp_RErr:
  "length msg < 2 ^ 32 - 9 \<Longrightarrow>
   on_resp (Suc fuel) (enc_reply (RErr code msg) @ rest)
     = Inr (of_nat (length (enc_reply (RErr code msg))), [IErr code msg])"
  using unat_add_len [of 9 "length msg"]
  by (simp add: out_err_def Let_def unat_of_nat)

lemma on_resp_RStr:
  "length msg < 2 ^ 32 - 5 \<Longrightarrow>
   on_resp (Suc fuel) (enc_reply (RStr msg) @ rest)
     = Inr (of_nat (length (enc_reply (RStr msg))), [IStr msg])"
  using unat_add_len [of 5 "length msg"]
  by (simp add: out_str_def Let_def unat_of_nat)


text \<open>
  The loop over the elements of an array: \<open>pre\<close> is what has been read, and every element
  still to come is read by the recursive call as the induction hypothesis says.
\<close>

lemma on_elems_enc:
  assumes "\<And>r rest. r \<in> set rs \<Longrightarrow>
      on_resp fuel (enc_reply r @ rest) = Inr (of_nat (length (enc_reply r)), reply_items r)"
    and "length (pre @ concat (map enc_reply rs)) < 2 ^ 31"
  shows "on_elems fuel (length rs) (pre @ concat (map enc_reply rs) @ rest) (length pre) items
    = Inr (of_nat (length (pre @ concat (map enc_reply rs))),
           items @ concat (map reply_items rs) @ [IArrEnd])"
  using assms
proof (induction rs arbitrary: pre items)
  case Nil
  then show ?case by simp
next
  case (Cons r rs)
  let ?n = "length (enc_reply r)"
  have n: "?n < 2 ^ 31" using Cons.prems(2) by simp
  have here: "on_resp fuel (enc_reply r @ concat (map enc_reply rs) @ rest)
      = Inr (of_nat ?n, reply_items r)"
    by (rule Cons.prems) simp
  have "on_elems fuel (length rs) ((pre @ enc_reply r) @ concat (map enc_reply rs) @ rest)
      (length (pre @ enc_reply r)) (items @ reply_items r)
    = Inr (of_nat (length ((pre @ enc_reply r) @ concat (map enc_reply rs))),
           (items @ reply_items r) @ concat (map reply_items rs) @ [IArrEnd])"
    by (rule Cons.IH) (use Cons.prems in auto)
  then show ?case
    using n by (simp add: here sint_of_small unat_of_nat)
qed

lemma on_resp_enc_reply:
  assumes "reply_depth r < fuel" and "length (enc_reply r) < 2 ^ 31"
  shows "on_resp fuel (enc_reply r @ rest) = Inr (of_nat (length (enc_reply r)), reply_items r)"
  using assms
proof (induction r arbitrary: fuel rest)
  case RNil
  then show ?case by (cases fuel) (simp_all add: out_nil_def)
next
  case (RErr code msg)
  then obtain f where "fuel = Suc f" by (cases fuel) auto
  moreover have "length msg < 2 ^ 32 - 9" using RErr.prems by (simp add: out_err_def)
  ultimately show ?case by (simp only: on_resp_RErr reply_items.simps)
next
  case (RStr msg)
  then obtain f where "fuel = Suc f" by (cases fuel) auto
  moreover have "length msg < 2 ^ 32 - 5" using RStr.prems by (simp add: out_str_def)
  ultimately show ?case by (simp only: on_resp_RStr reply_items.simps)
next
  case (RInt val)
  then show ?case by (cases fuel) (simp_all add: out_int_def)
next
  case (RArr rs)
  then obtain f where fuel: "fuel = Suc f" by (cases fuel) auto
  let ?hd = "out_arr [] (of_nat (length rs))"
  have len: "length (?hd @ concat (map enc_reply rs)) < 2 ^ 31"
    using RArr.prems(2) by (simp only: enc_reply_RArr)
  have small: "length (enc_reply r) < 2 ^ 31" if "r \<in> set rs" for r
    using len length_concat_member [OF that, of enc_reply] by simp
  have deep: "reply_depth r < f" if "r \<in> set rs" for r
    using RArr.prems(1) that by (auto simp: fuel Suc_less_eq dest: Max_ge [rotated])
  have "length rs \<le> length (concat (map enc_reply rs))"
  proof (induction rs)
    case (Cons r rs)
    then show ?case
      using length_enc_reply_pos [of r] by (simp add: Suc_le_eq del: length_greater_0_conv)
  qed simp
  then have n: "length rs < 2 ^ 32" using len by simp
  have "on_elems f (length rs) (?hd @ concat (map enc_reply rs) @ rest) (length ?hd)
      [IArrBegin (of_nat (length rs))]
    = Inr (of_nat (length (?hd @ concat (map enc_reply rs))),
           [IArrBegin (of_nat (length rs))] @ concat (map reply_items rs) @ [IArrEnd])"
    by (rule on_elems_enc) (use RArr.IH deep small len in auto)
  then show ?case
    using n by (simp add: fuel enc_reply_RArr out_arr_def unat_of_nat Let_def del: put_reply.simps(5))
qed


lemma on_response_enc_reply:
  "length (enc_reply r) < 2 ^ 31 \<Longrightarrow>
   on_response (enc_reply r @ rest) = Inr (of_nat (length (enc_reply r)), reply_items r)"
  using reply_depth_less [of r] by (simp only: on_response_def) (rule on_resp_enc_reply, auto)

section \<open>\<open>on_response\<close> ends and stays inside its input\<close>

text \<open>
  A result is good for \<open>size\<close> input bytes when the loop has ended, and a return value
  that is not an error counts at least one and at most \<open>size\<close> bytes.
\<close>

definition good_result :: "nat \<Rightarrow> (u32 \<times> item list) res \<Rightarrow> bool" where
  "good_result n r \<longleftrightarrow> (case r of Inl e \<Rightarrow> e = OutOfBounds
     | Inr (rv, items) \<Rightarrow> sint rv < 0 \<or> 1 \<le> unat rv \<and> unat rv \<le> n)"

lemma unat_add_no_wrap:
  "k < 2 ^ 31 \<Longrightarrow> k + unat len \<le> n \<Longrightarrow> n < 2 ^ 31 \<Longrightarrow>
   unat (of_nat k + len :: u32) = k + unat len"
  by (simp add: unat_word_ariths unat_of_nat)

lemma good_resp:
  "length data < fuel \<Longrightarrow> length data < 2 ^ 31 \<Longrightarrow> good_result (length data) (on_resp fuel data)"
  "length data < fuel + arr_bytes \<Longrightarrow> 1 \<le> arr_bytes \<Longrightarrow> arr_bytes \<le> length data \<Longrightarrow>
   length data < 2 ^ 31 \<Longrightarrow>
   good_result (length data) (on_elems fuel n data arr_bytes items)"
proof (induction fuel data and fuel n data arr_bytes items rule: on_resp_on_elems.induct)
  case (2 fuel data)
  then show ?case
    using unat_add_no_wrap [of 9 _ "length data"] unat_add_no_wrap [of 5 _ "length data"]
    by (simp add: good_result_def Let_def not_less Suc_le_eq)
next
  case (3 fuel data arr_bytes items)
  then show ?case by (simp add: good_result_def unat_of_nat)
next
  case (4 fuel n data arr_bytes items)
  have here: "good_result (length (drop arr_bytes data)) (on_resp fuel (drop arr_bytes data))"
    using 4 by auto
  show ?case
  proof (cases "on_resp fuel (drop arr_bytes data)")
    case (Inl e)
    with here show ?thesis by (simp add: good_result_def)
  next
    case (Inr p)
    obtain rv printed where p: "p = (rv, printed)" by (cases p)
    show ?thesis
    proof (cases "sint rv < 0")
      case True
      with Inr p show ?thesis by (simp add: good_result_def)
    next
      case False
      with here Inr p have "1 \<le> unat rv" "unat rv \<le> length data - arr_bytes"
        by (simp_all add: good_result_def)
      then show ?thesis
        using 4 False Inr p by simp
    qed
  qed
qed simp

lemma good_on_response: "length data < 2 ^ 31 \<Longrightarrow> good_result (length data) (on_response data)"
  unfolding on_response_def by (rule good_resp(1)) simp_all


section \<open>Properties\<close>

text \<open>
  C14.  Whatever value the server writes with \<open>out_nil\<close>, \<open>out_err\<close>, \<open>out_str\<close>, \<open>out_int\<close> and
  \<open>out_arr\<close>, the client's \<open>on_response\<close> reads back: it prints exactly that value's items
  and returns exactly the number of bytes written, whatever follows them in the buffer.
\<close>

theorem reply_roundtrip:
  assumes "length (put_reply [] r) < 2 ^ 31"
  shows "on_response (put_reply [] r @ rest)
    = Inr (of_nat (length (put_reply [] r)), reply_items r)"
  using assms by (rule on_response_enc_reply)

theorem reply_roundtrip_witness:
  "on_response (put_reply [] (RArr [RStr [102, 111], RInt 2, RErr 1 [63]]) @ [9, 9])
     = Inr (31, [IArrBegin 3, IStr [102, 111], IInt 2, IErr 1 [63], IArrEnd])"
  using reply_roundtrip [of "RArr [RStr [102, 111], RInt 2, RErr 1 [63]]" "[9, 9]"]
  by (simp add: out_defs)



text \<open>
  The client cannot read a \<open>double\<close>: \<open>on_response\<close> has no case for the tag \<open>out_dbl\<close>
  writes, so it reports every score the server sends as an unknown type.
\<close>

theorem client_rejects_double:
  "on_response (out_dbl [] d @ rest) = Inr (-1, [IUnknown])"
  unfolding on_response_def on_resp.simps(2) by (simp add: out_dbl_def)

text \<open>
  A string header whose 32-bit length is within 5 of wrapping passes the client's
  bounds check, because \<open>5 + len\<close> is computed in 32 bits, and the string constructor then
  reads past the buffer.
\<close>

theorem client_length_wraps:
  assumes "2 ^ 32 - 5 \<le> unat len" and "length rest < 2 ^ 31"
  shows "on_response (ser_code SER_STR # le32 len @ rest) = Inl OutOfBounds"
proof -
  have "unat (5 + len) < 5"
    using assms(1) u32_less [of len] by (simp add: unat_word_ariths le_mod_geq)
  then show ?thesis
    using assms unfolding on_response_def on_resp.simps(2) by (simp add: Let_def)
qed

theorem client_length_wraps_witness:
  "on_response [2, 255, 255, 255, 255, 97] = Inl OutOfBounds"
proof -
  have "ser_code SER_STR # le32 4294967295 @ [97] = [2, 255, 255, 255, 255, 97]"
    by code_simp
  then show ?thesis
    using client_length_wraps [of 4294967295 "[97]"] by simp
qed

end
