(* ===== verification/Protocol.thy ===== *)
theory Protocol
  imports Bytes
begin

text \<open>
  The request format: \<open>send_req\<close> of \<open>client.cpp\<close> lays the arguments of a command out in
  its buffer, \<open>parse_req\<close> of \<open>common.cpp\<close> reads them back from the body of a message.
  \<open>size_t\<close> positions are naturals here: they are bounded by the buffers, far below
  \<open>2 ^ 64\<close>.
\<close>

unbundle bit_operations_syntax

definition k_max_args :: u32 where
  "k_max_args = 4"

definition k_max_msg :: nat where
  "k_max_msg = 4096"

section \<open>Reading a request\<close>

text \<open>\<open>memcpy(&x, &data[pos], 4)\<close> and the \<open>arg_len\<close> bytes a \<open>std::string\<close> is made of.\<close>

definition read_u32 :: "bytes \<Rightarrow> nat \<Rightarrow> u32 res" where
  "read_u32 data pos =
     (if pos + 4 \<le> length data then Inr (rd_le32 (take 4 (drop pos data))) else Inl OutOfBounds)"

definition read_bytes :: "bytes \<Rightarrow> nat \<Rightarrow> nat \<Rightarrow> bytes res" where
  "read_bytes data pos n =
     (if pos + n \<le> length data then Inr (take n (drop pos data)) else Inl OutOfBounds)"

text \<open>
  The loop \<open>while (cmd_len--)\<close>: the first argument counts the turns left.  \<open>None\<close> is the
  code's \<open>-1\<close>; \<open>len\<close> is the length given beside the data pointer.
\<close>

fun parse_args :: "nat \<Rightarrow> bytes \<Rightarrow> nat \<Rightarrow> nat \<Rightarrow> bytes list \<Rightarrow> bytes list option res" where
  "parse_args 0 data len pos cmd = (if pos \<noteq> len then Inr None else Inr (Some cmd))"
| "parse_args (Suc n) data len pos cmd =
     (if pos + 4 > len then Inr None
      else bindr (read_u32 data pos) (\<lambda>arg_len.
        if pos + 4 + unat arg_len > len then Inr None
        else bindr (read_bytes data (pos + 4) (unat arg_len)) (\<lambda>arg.
          parse_args n data len (pos + (4 + unat arg_len)) (cmd @ [arg]))))"

definition parse_req :: "bytes \<Rightarrow> nat \<Rightarrow> bytes list option res" where
  "parse_req data len =
     (if len < 4 then Inr None
      else bindr (read_u32 data 0) (\<lambda>cmd_len.
        if cmd_len > k_max_args then Inr None
        else parse_args (unat cmd_len) data len 4 []))"

section \<open>Writing a request\<close>

text \<open>
  \<open>len\<close> and \<open>arglen\<close> are \<open>uint32_t\<close>.  The first loop adds up the message length and gives
  up when it passes \<open>k_max_msg\<close>; the second fills \<open>wbuf\<close>, of which the bytes written so far
  are kept, so that \<open>cur\<close> is their number.
\<close>

fun req_len :: "u32 \<Rightarrow> bytes list \<Rightarrow> u32 option" where
  "req_len len [] = Some len"
| "req_len len (arg # cmd) =
     (let len' = len + (4 + of_nat (length arg))
      in if unat len' > k_max_msg then None else req_len len' cmd)"

fun put_args :: "bytes \<Rightarrow> bytes list \<Rightarrow> bytes option" where
  "put_args wbuf [] = Some wbuf"
| "put_args wbuf (arg # cmd) =
     (let arglen = of_nat (length arg) :: u32; cur = length wbuf
      in if cur + 4 + unat arglen > 4 + k_max_msg then None
         else put_args (wbuf @ le32 arglen @ take (unat arglen) arg) cmd)"

text \<open>\<open>send_req\<close> up to its \<open>write_all\<close>: the bytes of \<open>wbuf\<close> it hands over, or \<open>None\<close> for \<open>-1\<close>.\<close>

definition send_req :: "bytes list \<Rightarrow> bytes option" where
  "send_req cmd =
     (case req_len 4 cmd of None \<Rightarrow> None
      | Some len \<Rightarrow>
          if unat len > k_max_msg then None
          else (case put_args (le32 len @ le32 (of_nat (length cmd))) cmd of None \<Rightarrow> None
                | Some wbuf \<Rightarrow> Some (take (4 + unat len) wbuf)))"

section \<open>The layout both sides share\<close>

definition enc_arg :: "bytes \<Rightarrow> bytes" where
  "enc_arg arg = le32 (of_nat (length arg)) @ arg"

definition enc_args :: "bytes list \<Rightarrow> bytes" where
  "enc_args cmd = concat (map enc_arg cmd)"

definition enc_cmd :: "bytes list \<Rightarrow> bytes" where
  "enc_cmd cmd = le32 (of_nat (length cmd)) @ enc_args cmd"

lemma enc_args_simps [simp]:
  "enc_args [] = []"
  "enc_args (arg # cmd) = enc_arg arg @ enc_args cmd"
  by (simp_all add: enc_args_def)

lemma length_enc_arg [simp]: "length (enc_arg arg) = 4 + length arg"
  by (simp add: enc_arg_def)

lemma length_enc_cmd [simp]: "length (enc_cmd cmd) = 4 + length (enc_args cmd)"
  by (simp add: enc_cmd_def)

lemma length_enc_args_ge: "4 * length cmd \<le> length (enc_args cmd)"
  by (induction cmd) auto

lemma length_enc_args_arg: "arg \<in> set cmd \<Longrightarrow> length arg < length (enc_args cmd)"
  by (induction cmd) auto

section \<open>\<open>send_req\<close> writes that layout\<close>

lemma put_args_eq:
  assumes "\<forall>arg \<in> set cmd. length arg < 2 ^ 32" and "length wbuf \<le> 4 + k_max_msg"
  shows "put_args wbuf cmd =
    (if length wbuf + length (enc_args cmd) \<le> 4 + k_max_msg then Some (wbuf @ enc_args cmd) else None)"
  using assms
proof (induction cmd arbitrary: wbuf)
  case (Cons arg cmd)
  then show ?case
    by (auto simp: unat_of_nat Let_def enc_arg_def)
qed simp

lemma req_len_SomeD: "req_len len cmd = Some len' \<Longrightarrow> len' = len + of_nat (length (enc_args cmd))"
proof (induction cmd arbitrary: len)
  case (Cons arg cmd)
  then have "req_len (len + (4 + of_nat (length arg))) cmd = Some len'"
    by (simp add: Let_def split: if_splits)
  from Cons.IH [OF this] show ?case by (simp add: ac_simps)
qed simp

lemma req_len_Some:
  "unat len + length (enc_args cmd) \<le> k_max_msg \<Longrightarrow>
   req_len len cmd = Some (len + of_nat (length (enc_args cmd)))"
proof (induction cmd arbitrary: len)
  case (Cons arg cmd)
  have "unat (len + (4 + of_nat (length arg))) = unat len + (4 + length arg)"
    using Cons.prems by (simp add: k_max_msg_def unat_word_ariths unat_of_nat)
  then show ?case
    using Cons by (simp add: Let_def ac_simps)
qed simp

lemma send_req_eq:
  assumes "\<forall>arg \<in> set cmd. length arg < 2 ^ 32"
  shows "send_req cmd =
    (if length (enc_cmd cmd) \<le> k_max_msg
     then Some (le32 (of_nat (length (enc_cmd cmd))) @ enc_cmd cmd) else None)"
proof (cases "length (enc_cmd cmd) \<le> k_max_msg")
  case True
  then have "req_len 4 cmd = Some (4 + of_nat (length (enc_args cmd)))"
    by (intro req_len_Some) simp
  moreover have "unat (4 + of_nat (length (enc_args cmd)) :: u32) = 4 + length (enc_args cmd)"
    using True by (simp add: k_max_msg_def unat_word_ariths unat_of_nat)
  ultimately show ?thesis
    using True assms by (simp add: send_req_def put_args_eq enc_cmd_def)
next
  case False
  show ?thesis
  proof (cases "length (enc_args cmd) + 8 \<le> 4 + k_max_msg")
    case True
    with False show ?thesis by simp
  next
    case nofit: False
    have "put_args (le32 len @ le32 (of_nat (length cmd))) cmd = None" for len
      using nofit assms by (subst put_args_eq) (simp_all add: k_max_msg_def)
    with False show ?thesis
      by (simp add: send_req_def split: option.splits)
  qed
qed

section \<open>\<open>parse_req\<close> accepts exactly that layout\<close>

lemma read_u32_Inr:
  "pos + 4 \<le> length data \<Longrightarrow> read_u32 data pos = Inr (rd_le32 (take 4 (drop pos data)))"
  by (simp add: read_u32_def)

lemma read_bytes_Inr:
  "pos + n \<le> length data \<Longrightarrow> read_bytes data pos n = Inr (take n (drop pos data))"
  by (simp add: read_bytes_def)

lemma parse_args_enc:
  assumes "\<forall>arg \<in> set cmd. length arg < 2 ^ 32"
  shows "parse_args (length cmd) (pre @ enc_args cmd @ rest) (length (pre @ enc_args cmd))
      (length pre) acc = Inr (Some (acc @ cmd))"
  using assms
proof (induction cmd arbitrary: pre acc)
  case (Cons arg cmd)
  have "parse_args (length cmd) ((pre @ enc_arg arg) @ enc_args cmd @ rest)
      (length ((pre @ enc_arg arg) @ enc_args cmd)) (length (pre @ enc_arg arg)) (acc @ [arg])
    = Inr (Some ((acc @ [arg]) @ cmd))"
    using Cons by (intro Cons.IH) simp
  then show ?case
    using Cons.prems by (simp add: read_u32_Inr read_bytes_Inr enc_arg_def unat_of_nat)
qed simp

lemma parse_args_SomeD:
  assumes "parse_args n data len pos acc = Inr (Some cmd)"
    and "len \<le> length data" and "pos \<le> len"
  shows "\<exists>args. cmd = acc @ args \<and> length args = n \<and> drop pos (take len data) = enc_args args"
  using assms
proof (induction n arbitrary: pos acc)
  case 0
  then show ?case by (auto split: if_splits)
next
  case (Suc n)
  define k where "k = rd_le32 (take 4 (drop pos data))"
  define arg where "arg = take (unat k) (drop (pos + 4) data)"
  have room: "pos + 4 + unat k \<le> len"
    using Suc.prems by (auto simp: read_u32_Inr k_def split: if_splits)
  have "parse_args n data len (pos + (4 + unat k)) (acc @ [arg]) = Inr (Some cmd)"
    using Suc.prems room by (simp add: read_u32_Inr read_bytes_Inr k_def arg_def)
  from Suc.IH [OF this] obtain args where args: "cmd = acc @ arg # args" "length args = n"
      "drop (pos + (4 + unat k)) (take len data) = enc_args args"
    using Suc.prems room by auto
  have len_arg: "length arg = unat k"
    using room Suc.prems by (simp add: arg_def)
  have "take 4 (drop pos data) = le32 k"
    using room Suc.prems(2) by (simp add: k_def host32.enc_dec)
  moreover have "4 \<le> len - pos" using room by arith
  ultimately have "take 4 (drop pos (take len data)) = le32 k"
    by (simp add: drop_take min.absorb1)
  moreover have "take (unat k) (drop (pos + 4) (take len data)) = arg"
    using room by (simp add: arg_def drop_take min.absorb1)
  ultimately have "enc_arg arg = take (4 + unat k) (drop pos (take len data))"
    by (simp add: enc_arg_def len_arg take_add add.commute [of 4 pos])
  then have "drop pos (take len data) = enc_arg arg @ enc_args args"
    using args(3) by (metis append_take_drop_id drop_drop add.commute)
  then show ?case
    using args by (intro exI [of _ "arg # args"]) simp
qed

lemma parse_args_no_fault:
  "len \<le> length data \<Longrightarrow> pos \<le> len \<Longrightarrow> \<exists>r. parse_args n data len pos acc = Inr r"
  by (induction n arbitrary: pos acc) (auto simp: read_u32_Inr read_bytes_Inr)

lemma parse_req_no_fault: "len \<le> length data \<Longrightarrow> \<exists>r. parse_req data len = Inr r"
  by (simp add: parse_req_def read_u32_Inr parse_args_no_fault)

text \<open>What follows the given length is not looked at.\<close>

lemma parse_args_append:
  "len \<le> length data \<Longrightarrow> pos \<le> len \<Longrightarrow> parse_args n (data @ more) len pos acc = parse_args n data len pos acc"
  by (induction n arbitrary: pos acc) (auto simp: read_u32_def read_bytes_def)

lemma parse_req_append: "len \<le> length data \<Longrightarrow> parse_req (data @ more) len = parse_req data len"
  by (auto simp: parse_req_def read_u32_def parse_args_append)

lemma parse_req_iff:
  assumes "len \<le> length data" and "len \<le> k_max_msg"
  shows "parse_req data len = Inr (Some cmd) \<longleftrightarrow>
    length cmd \<le> unat k_max_args \<and> take len data = enc_cmd cmd"
proof
  assume ok: "parse_req data len = Inr (Some cmd)"
  define n where "n = rd_le32 (take 4 data)"
  from ok assms have hdr: "4 \<le> len" "n \<le> k_max_args"
      "parse_args (unat n) data len 4 [] = Inr (Some cmd)"
    by (auto simp: parse_req_def read_u32_Inr n_def split: if_splits)
  then obtain args where args: "length cmd = unat n" "drop 4 (take len data) = enc_args cmd"
    using parse_args_SomeD [of "unat n" data len 4 "[]" cmd] assms by auto
  have "take 4 (take len data) = le32 n"
    using hdr assms by (simp add: n_def min_def host32.enc_dec)
  moreover have "n = of_nat (length cmd)" using args(1) by simp
  ultimately have "take len data = enc_cmd cmd"
    using args(2) by (metis append_take_drop_id enc_cmd_def)
  then show "length cmd \<le> unat k_max_args \<and> take len data = enc_cmd cmd"
    using hdr(2) args(1) by (simp add: word_le_nat_alt)
next
  assume ok: "length cmd \<le> unat k_max_args \<and> take len data = enc_cmd cmd"
  then have len: "len = length (enc_cmd cmd)"
    using assms(1) by (metis length_take min.absorb2)
  have few: "length cmd \<le> 4" using ok by (simp add: k_max_args_def)
  have small: "\<forall>arg \<in> set cmd. length arg < 2 ^ 32"
    using len assms(2) length_enc_args_arg [of _ cmd] by (force simp: k_max_msg_def)
  obtain rest where data: "data = enc_cmd cmd @ rest"
    using ok by (metis append_take_drop_id)
  have "parse_args (length cmd) (le32 (of_nat (length cmd)) @ enc_args cmd @ rest)
      (length (le32 (of_nat (length cmd)) @ enc_args cmd)) (length (le32 (of_nat (length cmd)))) []
    = Inr (Some ([] @ cmd))"
    by (rule parse_args_enc [OF small])
  then show "parse_req data len = Inr (Some cmd)"
    using few by (simp add: parse_req_def len data enc_cmd_def read_u32_Inr unat_of_nat
        k_max_args_def word_le_nat_alt not_less)
qed


section \<open>From the client to the server\<close>

lemma send_req_parse:
  assumes "\<forall>arg \<in> set cmd. length arg < 2 ^ 32" and "length cmd \<le> unat k_max_args"
    and "send_req cmd = Some frame"
  shows "\<exists>body. frame = le32 (of_nat (length body)) @ body \<and> length body \<le> k_max_msg \<and>
    parse_req (body @ rest) (length body) = Inr (Some cmd)"
proof -
  have "frame = le32 (of_nat (length (enc_cmd cmd))) @ enc_cmd cmd \<and>
      length (enc_cmd cmd) \<le> k_max_msg"
    using assms(1,3) by (simp add: send_req_eq split: if_splits)
  moreover from this have "parse_req (enc_cmd cmd @ rest) (length (enc_cmd cmd)) = Inr (Some cmd)"
    using assms(2) by (subst parse_req_iff) simp_all
  ultimately show ?thesis by blast
qed

section \<open>Properties\<close>

text \<open>
  C13.  A command of at most \<open>k_max_args\<close> arguments that the client can send is parsed back
  by the server to exactly that command: \<open>send_req\<close> writes a length word and a body of
  that length, and \<open>parse_req\<close> on the body returns the command, whatever bytes follow it
  in the receive buffer.
\<close>

theorem request_roundtrip:
  assumes "\<forall>arg \<in> set cmd. length arg < 2 ^ 32" and "length cmd \<le> unat k_max_args"
    and "send_req cmd = Some frame"
  shows "\<exists>body. frame = le32 (of_nat (length body)) @ body \<and> length body \<le> k_max_msg \<and>
    parse_req (body @ rest) (length body) = Inr (Some cmd)"
  using assms by (rule send_req_parse)

theorem request_roundtrip_witness:
  "\<exists>body. send_req [[103, 101, 116], [107]] = Some (le32 (of_nat (length body)) @ body) \<and>
    length body \<le> k_max_msg \<and>
    parse_req (body @ [1]) (length body) = Inr (Some [[103, 101, 116], [107]])"
proof -
  have sent: "send_req [[103, 101, 116], [107]]
      = Some [16, 0, 0, 0, 2, 0, 0, 0, 3, 0, 0, 0, 103, 101, 116, 1, 0, 0, 0, 107]"
    by code_simp
  show ?thesis
    using request_roundtrip [OF _ _ sent, of "[1]"] sent by (auto simp: k_max_args_def)
qed

text \<open>
  C25.  \<open>parse_req\<close> accepts a message exactly when it is the layout of a command with at most
  \<open>k_max_args\<close> arguments, so a message has at most one reading; every other message, with
  short, overlong or trailing data or too many arguments, is rejected.
\<close>

theorem parse_req_exact:
  assumes "len \<le> length data" and "len \<le> k_max_msg"
  shows "parse_req data len = Inr (Some cmd) \<longleftrightarrow>
    length cmd \<le> unat k_max_args \<and> take len data = enc_cmd cmd"
  using assms by (rule parse_req_iff)

theorem parse_req_exact_witness:
  "parse_req [1, 0, 0, 0, 1, 0, 0, 0, 7, 99] 9 = Inr (Some [[7]]) \<and>
   parse_req [1, 0, 0, 0, 1, 0, 0, 0, 7, 99] 10 \<noteq> Inr (Some [[7]])"
proof -
  have "enc_cmd [[7]] = [1, 0, 0, 0, 1, 0, 0, 0, 7]" by code_simp
  then show ?thesis
    using parse_req_exact [of 9 "[1, 0, 0, 0, 1, 0, 0, 0, 7, 99]" "[[7]]"]
      parse_req_exact [of 10 "[1, 0, 0, 0, 1, 0, 0, 0, 7, 99]" "[[7]]"]
    by (simp add: k_max_msg_def k_max_args_def)
qed

text \<open>
  C26.  \<open>parse_req\<close> reads nothing outside its input: given at least \<open>len\<close> bytes it returns,
  a command or the code's \<open>-1\<close>, without a fault.
\<close>

theorem parse_req_memory_safe:
  assumes "len \<le> length data"
  shows "\<exists>r. parse_req data len = Inr r"
  using assms by (rule parse_req_no_fault)

theorem parse_req_memory_safe_witness:
  "\<exists>r. parse_req [4, 0, 0, 0, 255, 255, 255, 255, 1] 9 = Inr r"
  by (rule parse_req_memory_safe) simp

text \<open>
  The \<open>zquery\<close> request has six arguments, and the server rejects every request with
  more than \<open>k_max_args\<close> of them, so no request the client can send reaches \<open>do_query\<close>'s
  work.
\<close>

theorem long_command_rejected:
  assumes "unat k_max_args < length cmd" and "length (enc_cmd cmd) \<le> k_max_msg"
  shows "parse_req (enc_cmd cmd @ rest) (length (enc_cmd cmd)) = Inr None"
proof -
  have "length cmd < 2 ^ 32"
    using assms(2) length_enc_args_ge [of cmd] by (simp add: k_max_msg_def)
  then show ?thesis
    using assms(1) by (simp add: parse_req_def enc_cmd_def read_u32_Inr k_max_args_def
        word_less_nat_alt unat_of_nat)
qed

theorem long_command_rejected_witness:
  "parse_req (enc_cmd [[], [], [], [], [], []]) (length (enc_cmd [[], [], [], [], [], []])) = Inr None"
  using long_command_rejected [of "[[], [], [], [], [], []]" "[]"]
  by (simp add: k_max_args_def k_max_msg_def)

end
