(* ===== verification/Hashtable.thy ===== *)
theory Hashtable
  imports Prelude
begin

text \<open>
  \<open>hashtable.cpp\<close>: an intrusive chained hash map that is resized progressively, a bounded
  number of nodes per operation.  The nodes and the bucket arrays live in a store, so that
  a \<open>HNode **\<close> (where a chain pointer is kept) is a location in it; \<open>str_hash\<close> of
  \<open>utils.cpp\<close> is here too.
\<close>

unbundle bit_operations_syntax

section \<open>The string hash\<close>

fun str_hash_loop :: "u64 \<Rightarrow> bytes \<Rightarrow> u64" where
  "str_hash_loop hash [] = hash"
| "str_hash_loop hash (b # data) = str_hash_loop ((hash XOR ucast b) * 1099511628211) data"

definition str_hash :: "bytes \<Rightarrow> u64" where
  "str_hash data = str_hash_loop 14695981039346656037 data"

section \<open>Data and store\<close>

text \<open>\<open>resizing_pos\<close> is a natural: it never passes the length of a bucket array.\<close>

record HNode =
  h_next :: ptr
  h_code :: u64

record HTab =
  tab :: ptr
  ht_size :: u64
  ht_mask :: u64

record HMap =
  ht1 :: HTab
  ht2 :: HTab
  resizing_pos :: nat

definition empty_tab :: HTab where
  "empty_tab = \<lparr>tab = None, ht_size = 0, ht_mask = 0\<rparr>"

definition empty_map :: HMap where
  "empty_map = \<lparr>ht1 = empty_tab, ht2 = empty_tab, resizing_pos = 0\<rparr>"

definition k_max_load_factor :: u64 where
  "k_max_load_factor = 8"

definition k_resizing_work :: nat where
  "k_resizing_work = 128"

text \<open>
  The store of bucket arrays and of nodes.  Addresses are handed out in increasing order;
  \<open>h_brk\<close> is the next one.
\<close>

record hmem =
  h_arrs :: "(ptr list) store"
  h_nodes :: "HNode store"
  h_brk :: addr

text \<open>A \<open>HNode **\<close>: a slot of a bucket array or the \<open>next\<close> field of a node.\<close>

datatype hloc = Slot addr nat | NextOf addr

definition get_loc :: "hmem \<Rightarrow> hloc \<Rightarrow> ptr res" where
  "get_loc m l = (case l of
       Slot a i \<Rightarrow> bindr (load (h_arrs m) (Some a)) (\<lambda>ps.
         if i < length ps then Inr (ps ! i) else Inl OutOfBounds)
     | NextOf a \<Rightarrow> bindr (load (h_nodes m) (Some a)) (\<lambda>n. Inr (h_next n)))"

definition set_loc :: "hmem \<Rightarrow> hloc \<Rightarrow> ptr \<Rightarrow> hmem res" where
  "set_loc m l p = (case l of
       Slot a i \<Rightarrow> bindr (load (h_arrs m) (Some a)) (\<lambda>ps.
         if i < length ps then Inr (m\<lparr>h_arrs := (h_arrs m)(a \<mapsto> ps[i := p])\<rparr>)
         else Inl OutOfBounds)
     | NextOf a \<Rightarrow> bindr (update (h_nodes m) (Some a) (\<lambda>n. n\<lparr>h_next := p\<rparr>)) (\<lambda>ns.
         Inr (m\<lparr>h_nodes := ns\<rparr>)))"

text \<open>\<open>&ht->tab[i]\<close>.\<close>

definition slot_of :: "HTab \<Rightarrow> nat \<Rightarrow> hloc res" where
  "slot_of ht i = (case tab ht of None \<Rightarrow> Inl NullDeref | Some a \<Rightarrow> Inr (Slot a i))"

section \<open>Operations on one table\<close>

definition hinit :: "hmem \<Rightarrow> u64 \<Rightarrow> (hmem \<times> HTab) res" where
  "hinit m sz =
     bindr (checkr AssertFailed (sz > 0 \<and> sz AND (sz - 1) = 0)) (\<lambda>_.
       let a = h_brk m in
       Inr (m\<lparr>h_arrs := (h_arrs m)(a \<mapsto> replicate (unat sz) None), h_brk := a + 1\<rparr>,
            \<lparr>tab = Some a, ht_size = 0, ht_mask = sz - 1\<rparr>))"

definition hinsert :: "hmem \<Rightarrow> HTab \<Rightarrow> ptr \<Rightarrow> (hmem \<times> HTab) res" where
  "hinsert m ht node =
     bindr (checkr AssertFailed (node \<noteq> None)) (\<lambda>_.
     bindr (load (h_nodes m) node) (\<lambda>n.
     let index = unat (h_code n AND ht_mask ht) in
     bindr (slot_of ht index) (\<lambda>slot.
     bindr (get_loc m slot) (\<lambda>next'.
     bindr (update (h_nodes m) node (\<lambda>n. n\<lparr>h_next := next'\<rparr>)) (\<lambda>ns.
     bindr (set_loc (m\<lparr>h_nodes := ns\<rparr>) slot node) (\<lambda>m'.
     Inr (m', ht\<lparr>ht_size := ht_size ht + 1\<rparr>)))))))"

text \<open>
  The walk along a chain.  \<open>eq\<close> is the caller's comparison with the key it looks for; it may
  fault, because it reads objects the table knows nothing about.  A chain has fewer nodes
  than addresses have been handed out, so a walk longer than that is in a cycle and never
  ends.
\<close>

fun hwalk :: "nat \<Rightarrow> hmem \<Rightarrow> u64 \<Rightarrow> (addr \<Rightarrow> bool res) \<Rightarrow> hloc \<Rightarrow> hloc option res" where
  "hwalk 0 m code eq loc = Inl Hang"
| "hwalk (Suc fuel) m code eq loc =
     bindr (get_loc m loc) (\<lambda>cur. case cur of
         None \<Rightarrow> Inr None
       | Some c \<Rightarrow>
           bindr (load (h_nodes m) cur) (\<lambda>n.
           bindr (if h_code n = code then eq c else Inr False) (\<lambda>found.
             if found then Inr (Some loc) else hwalk fuel m code eq (NextOf c))))"

definition hlookup :: "hmem \<Rightarrow> HTab \<Rightarrow> u64 \<Rightarrow> (addr \<Rightarrow> bool res) \<Rightarrow> hloc option res" where
  "hlookup m ht code eq = (case tab ht of
       None \<Rightarrow> Inr None
     | Some a \<Rightarrow> hwalk (Suc (h_brk m)) m code eq (Slot a (unat (code AND ht_mask ht))))"

definition h_detach :: "hmem \<Rightarrow> HTab \<Rightarrow> hloc \<Rightarrow> (hmem \<times> HTab \<times> ptr) res" where
  "h_detach m ht loc =
     bindr (get_loc m loc) (\<lambda>node.
     bindr (load (h_nodes m) node) (\<lambda>n.
     bindr (set_loc m loc (h_next n)) (\<lambda>m'.
     Inr (m', ht\<lparr>ht_size := ht_size ht - 1\<rparr>, node))))"

section \<open>Operations on the map\<close>

definition hm_start_resizing :: "hmem \<Rightarrow> HMap \<Rightarrow> (hmem \<times> HMap) res" where
  "hm_start_resizing m hm =
     bindr (checkr AssertFailed (tab (ht2 hm) = None)) (\<lambda>_.
     bindr (hinit m ((ht_mask (ht1 hm) + 1) * 2)) (\<lambda>(m', t).
     Inr (m', hm\<lparr>ht2 := ht1 hm, ht1 := t, resizing_pos := 0\<rparr>)))"

text \<open>The \<open>while\<close> loop of \<open>hm_help_resizing\<close>; \<open>nwork\<close> counts the nodes moved.\<close>

function help_loop :: "nat \<Rightarrow> hmem \<Rightarrow> HMap \<Rightarrow> (hmem \<times> HMap) res" where
  "help_loop nwork m hm =
     (if nwork < k_resizing_work \<and> ht_size (ht2 hm) > 0 then
        bindr (slot_of (ht2 hm) (resizing_pos hm)) (\<lambda>slot.
        bindr (get_loc m slot) (\<lambda>p. case p of
            None \<Rightarrow> help_loop nwork m (hm\<lparr>resizing_pos := resizing_pos hm + 1\<rparr>)
          | Some _ \<Rightarrow>
              bindr (h_detach m (ht2 hm) slot) (\<lambda>(m1, t2, node).
              bindr (hinsert m1 (ht1 hm) node) (\<lambda>(m2, t1).
                help_loop (nwork + 1) m2 (hm\<lparr>ht1 := t1, ht2 := t2\<rparr>)))))
      else Inr (m, hm))"
  by pat_completeness auto
termination
  by (relation "measures [\<lambda>(nwork, m, hm). k_resizing_work - nwork,
        \<lambda>(nwork, m, hm). (case tab (ht2 hm) of None \<Rightarrow> 0
           | Some a \<Rightarrow> (case h_arrs m a of None \<Rightarrow> 0 | Some ps \<Rightarrow> length ps)) - resizing_pos hm]")
    (auto simp: slot_of_def get_loc_def load_def split: option.splits if_splits)

declare help_loop.simps [simp del]

definition hm_help_resizing :: "hmem \<Rightarrow> HMap \<Rightarrow> (hmem \<times> HMap) res" where
  "hm_help_resizing m hm =
     bindr (help_loop 0 m hm) (\<lambda>(m1, hm1).
       case tab (ht2 hm1) of
         Some a \<Rightarrow>
           if ht_size (ht2 hm1) = 0
           then Inr (m1\<lparr>h_arrs := (h_arrs m1)(a := None)\<rparr>, hm1\<lparr>ht2 := empty_tab\<rparr>)
           else Inr (m1, hm1)
       | None \<Rightarrow> Inr (m1, hm1))"

definition hm_insert :: "hmem \<Rightarrow> HMap \<Rightarrow> ptr \<Rightarrow> (hmem \<times> HMap) res" where
  "hm_insert m hm node =
     bindr (if tab (ht1 hm) = None then hinit m 4 else Inr (m, ht1 hm)) (\<lambda>(m1, t1).
     bindr (hinsert m1 t1 node) (\<lambda>(m2, t2).
     let hm2 = hm\<lparr>ht1 := t2\<rparr> in
     bindr (if tab (ht2 hm2) = None \<and> ht_size t2 div (ht_mask t2 + 1) > k_max_load_factor
            then hm_start_resizing m2 hm2 else Inr (m2, hm2)) (\<lambda>(m3, hm3).
     hm_help_resizing m3 hm3)))"

text \<open>\<open>hm_lookup\<close> finds a node by its key; the node found, not its location, is returned.\<close>

definition hm_lookup ::
  "hmem \<Rightarrow> HMap \<Rightarrow> u64 \<Rightarrow> (addr \<Rightarrow> bool res) \<Rightarrow> (hmem \<times> HMap \<times> ptr) res" where
  "hm_lookup m hm code eq =
     bindr (hm_help_resizing m hm) (\<lambda>(m1, hm1).
     bindr (hlookup m1 (ht1 hm1) code eq) (\<lambda>from1.
     bindr (case from1 of Some _ \<Rightarrow> Inr from1 | None \<Rightarrow> hlookup m1 (ht2 hm1) code eq) (\<lambda>from.
     case from of
       None \<Rightarrow> Inr (m1, hm1, None)
     | Some loc \<Rightarrow> bindr (get_loc m1 loc) (\<lambda>p. Inr (m1, hm1, p)))))"

text \<open>
  \<open>hm_delete\<close> compares with \<open>entry_eq\<close> whatever the map holds, and detaches with the size
  of the newer table wherever the node was found.
\<close>

definition hm_delete ::
  "hmem \<Rightarrow> HMap \<Rightarrow> u64 \<Rightarrow> (addr \<Rightarrow> bool res) \<Rightarrow> (hmem \<times> HMap \<times> ptr) res" where
  "hm_delete m hm code entry_eq =
     bindr (hm_help_resizing m hm) (\<lambda>(m1, hm1).
     bindr (hlookup m1 (ht1 hm1) code entry_eq) (\<lambda>from1.
     bindr (case from1 of Some _ \<Rightarrow> Inr from1 | None \<Rightarrow> hlookup m1 (ht2 hm1) code entry_eq) (\<lambda>from.
     case from of
       None \<Rightarrow> Inr (m1, hm1, None)
     | Some loc \<Rightarrow> bindr (h_detach m1 (ht1 hm1) loc) (\<lambda>(m2, t1, node).
         Inr (m2, hm1\<lparr>ht1 := t1\<rparr>, node)))))"

definition hm_size :: "HMap \<Rightarrow> u64" where
  "hm_size hm = ht_size (ht1 hm) + ht_size (ht2 hm)"

section \<open>Visiting every node\<close>

text \<open>\<open>f(node, arg)\<close> is the callback, which updates what \<open>arg\<close> points to.\<close>

fun h_scan_chain :: "nat \<Rightarrow> hmem \<Rightarrow> (addr \<Rightarrow> 's \<Rightarrow> 's res) \<Rightarrow> ptr \<Rightarrow> 's \<Rightarrow> 's res" where
  "h_scan_chain 0 m f node s = Inl Hang"
| "h_scan_chain (Suc fuel) m f node s = (case node of
       None \<Rightarrow> Inr s
     | Some a \<Rightarrow> bindr (f a s) (\<lambda>s'.
         bindr (load (h_nodes m) node) (\<lambda>n. h_scan_chain fuel m f (h_next n) s')))"

fun h_scan_from :: "nat \<Rightarrow> nat \<Rightarrow> hmem \<Rightarrow> HTab \<Rightarrow> (addr \<Rightarrow> 's \<Rightarrow> 's res) \<Rightarrow> 's \<Rightarrow> 's res" where
  "h_scan_from 0 i m ht f s = Inr s"
| "h_scan_from (Suc left) i m ht f s =
     bindr (slot_of ht i) (\<lambda>slot.
     bindr (get_loc m slot) (\<lambda>node.
     bindr (h_scan_chain (Suc (h_brk m)) m f node s) (\<lambda>s'.
     h_scan_from left (i + 1) m ht f s')))"

definition h_scan :: "hmem \<Rightarrow> HTab \<Rightarrow> (addr \<Rightarrow> 's \<Rightarrow> 's res) \<Rightarrow> 's \<Rightarrow> 's res" where
  "h_scan m ht f s =
     (if ht_size ht = 0 then Inr s else h_scan_from (unat (ht_mask ht + 1)) 0 m ht f s)"

section \<open>Chains in the store\<close>

text \<open>\<open>seg m p as q\<close>: following \<open>next\<close> from \<open>p\<close> one passes the nodes \<open>as\<close> and arrives at \<open>q\<close>.\<close>

primrec seg :: "hmem \<Rightarrow> ptr \<Rightarrow> addr list \<Rightarrow> ptr \<Rightarrow> bool" where
  "seg m p [] q \<longleftrightarrow> p = q"
| "seg m p (a # as) q \<longleftrightarrow> p = Some a \<and> (\<exists>n. h_nodes m a = Some n \<and> seg m (h_next n) as q)"

abbreviation chain :: "hmem \<Rightarrow> ptr \<Rightarrow> addr list \<Rightarrow> bool" where
  "chain m p as \<equiv> seg m p as None"

text \<open>The hash a node carries.\<close>

definition code_at :: "hmem \<Rightarrow> addr \<Rightarrow> u64" where
  "code_at m a = (case h_nodes m a of None \<Rightarrow> 0 | Some n \<Rightarrow> h_code n)"

lemma code_at_Some [simp]: "h_nodes m a = Some n \<Longrightarrow> code_at m a = h_code n"
  by (simp add: code_at_def)

lemma seg_append: "seg m p (xs @ ys) q \<longleftrightarrow> (\<exists>r. seg m p xs r \<and> seg m r ys q)"
  by (induction xs arbitrary: p) auto

lemma seg_cong:
  "\<forall>a \<in> set as. h_nodes m' a = h_nodes m a \<Longrightarrow> seg m' p as q = seg m p as q"
  by (induction as arbitrary: p) auto

lemma seg_nodes: "seg m p as q \<Longrightarrow> a \<in> set as \<Longrightarrow> \<exists>n. h_nodes m a = Some n"
  by (induction as arbitrary: p) auto

text \<open>Redirecting the last \<open>next\<close> of a segment.\<close>

lemma seg_redirect:
  assumes "seg m p (xs @ [b]) q" and "distinct (xs @ [b])" and "h_nodes m b = Some n"
    and "\<forall>a. a \<noteq> b \<longrightarrow> h_nodes m' a = h_nodes m a" and "h_nodes m' b = Some (n\<lparr>h_next := r\<rparr>)"
  shows "seg m' p (xs @ [b]) r"
proof -
  have "seg m p xs (Some b)" using assms(1) by (auto simp: seg_append)
  then have "seg m' p xs (Some b)"
    using assms(2,4) by (subst seg_cong) auto
  then show ?thesis using assms(5) by (auto simp: seg_append)
qed

section \<open>What an operation may change\<close>

text \<open>
  \<open>frame X A m m'\<close>: from \<open>m\<close> to \<open>m'\<close> only nodes of \<open>X\<close> and arrays of \<open>A\<close> have changed, no
  node has lost or gained its hash, and no address has been handed back.
\<close>

definition frame :: "addr set \<Rightarrow> addr set \<Rightarrow> hmem \<Rightarrow> hmem \<Rightarrow> bool" where
  "frame X A m m' \<longleftrightarrow>
     (\<forall>a. a \<notin> X \<longrightarrow> h_nodes m' a = h_nodes m a) \<and>
     (\<forall>a. code_at m' a = code_at m a \<and> (h_nodes m' a = None) = (h_nodes m a = None)) \<and>
     (\<forall>b. b \<notin> A \<longrightarrow> h_arrs m' b = h_arrs m b) \<and>
     h_brk m \<le> h_brk m'"

lemma frame_refl [simp]: "frame X A m m"
  by (simp add: frame_def)

lemma frame_trans: "frame X A m m' \<Longrightarrow> frame X A m' m'' \<Longrightarrow> frame X A m m''"
  by (auto simp: frame_def)

lemma frame_mono: "frame X A m m' \<Longrightarrow> X \<subseteq> X' \<Longrightarrow> A \<subseteq> A' \<Longrightarrow> frame X' A' m m'"
  by (auto simp: frame_def)

lemma frame_code: "frame X A m m' \<Longrightarrow> code_at m' a = code_at m a"
  by (simp add: frame_def)

lemma frame_nodes: "frame X A m m' \<Longrightarrow> a \<notin> X \<Longrightarrow> h_nodes m' a = h_nodes m a"
  by (simp add: frame_def)

lemma frame_arrs: "frame X A m m' \<Longrightarrow> b \<notin> A \<Longrightarrow> h_arrs m' b = h_arrs m b"
  by (simp add: frame_def)

lemma frame_brk: "frame X A m m' \<Longrightarrow> h_brk m \<le> h_brk m'"
  by (simp add: frame_def)

lemma frame_alive: "frame X A m m' \<Longrightarrow> (h_nodes m' a = None) = (h_nodes m a = None)"
  by (simp add: frame_def)

section \<open>Tables\<close>

text \<open>
  \<open>tab_shape m ht bs\<close>: the table's array has one chain per bucket of \<open>bs\<close>, their number is
  a power of two whose mask the table holds, and every node is in the bucket its hash
  selects.  A table with no array has no buckets.
\<close>

definition tab_shape :: "hmem \<Rightarrow> HTab \<Rightarrow> addr list list \<Rightarrow> bool" where
  "tab_shape m ht bs \<longleftrightarrow> (case tab ht of
       None \<Rightarrow> bs = []
     | Some a \<Rightarrow> a < h_brk m \<and>
         (\<exists>ps. h_arrs m a = Some ps \<and> list_all2 (chain m) ps bs) \<and>
         (\<exists>k < 64. length bs = 2 ^ k \<and> ht_mask ht = mask k) \<and>
         (\<forall>i < length bs. \<forall>x \<in> set (bs ! i). unat (code_at m x AND ht_mask ht) = i) \<and>
         distinct (concat bs) \<and> (\<forall>x \<in> set (concat bs). x < h_brk m))"

text \<open>The bucket a hash selects.\<close>

abbreviation bucket :: "HTab \<Rightarrow> u64 \<Rightarrow> nat" where
  "bucket ht code \<equiv> unat (code AND ht_mask ht)"

lemma bucket_mask: "k < 64 \<Longrightarrow> unat ((code :: u64) AND mask k) = unat code mod 2 ^ k"
  by (simp add: take_bit_eq_mask [symmetric] unsigned_take_bit_eq flip: take_bit_eq_mod)

lemma tab_shape_None: "tab ht = None \<Longrightarrow> tab_shape m ht bs \<longleftrightarrow> bs = []"
  by (simp add: tab_shape_def)

lemma tab_shape_Some:
  "tab ht = Some a \<Longrightarrow> tab_shape m ht bs \<longleftrightarrow>
     a < h_brk m \<and>
     (\<exists>ps. h_arrs m a = Some ps \<and> list_all2 (chain m) ps bs) \<and>
     (\<exists>k < 64. length bs = 2 ^ k \<and> ht_mask ht = mask k) \<and>
     (\<forall>i < length bs. \<forall>x \<in> set (bs ! i). bucket ht (code_at m x) = i) \<and>
     distinct (concat bs) \<and> (\<forall>x \<in> set (concat bs). x < h_brk m)"
  by (simp add: tab_shape_def)

lemma bucket_less: "tab_shape m ht bs \<Longrightarrow> tab ht \<noteq> None \<Longrightarrow> bucket ht code < length bs"
  by (auto simp: tab_shape_Some bucket_mask)

lemma tab_shape_slot:
  assumes "tab_shape m ht bs" and "i < length bs"
  obtains a ps where "tab ht = Some a" and "slot_of ht i = Inr (Slot a i)"
    and "h_arrs m a = Some ps" and "length ps = length bs"
    and "get_loc m (Slot a i) = Inr (ps ! i)" and "chain m (ps ! i) (bs ! i)"
proof (cases "tab ht")
  case None
  with assms show ?thesis by (simp add: tab_shape_None)
next
  case (Some a)
  with assms(1) obtain ps where ps: "h_arrs m a = Some ps" "list_all2 (chain m) ps bs"
    by (auto simp: tab_shape_Some)
  then have "length ps = length bs" by (simp add: list_all2_lengthD)
  with ps assms(2) Some show ?thesis
    by (intro that [of a ps]) (auto simp: slot_of_def get_loc_def load_Some list_all2_conv_all_nth)
qed

lemma tab_shape_nodes:
  assumes "tab_shape m ht bs" and "x \<in> set (concat bs)"
  shows "\<exists>n. h_nodes m x = Some n"
proof -
  from assms(2) obtain i where "i < length bs" "x \<in> set (bs ! i)"
    by (auto simp only: in_concat_nth)
  with assms(1) show ?thesis by (metis tab_shape_slot seg_nodes)
qed

lemma tab_shape_bucket:
  assumes "tab_shape m ht bs" and "i < length bs" and "x \<in> set (bs ! i)"
  shows "bucket ht (code_at m x) = i"
  using assms by (cases "tab ht") (simp_all add: tab_shape_None tab_shape_Some)

lemma tab_shape_in_bucket:
  "tab_shape m ht bs \<Longrightarrow> x \<in> set (concat bs) \<Longrightarrow> x \<in> set (bs ! bucket ht (code_at m x))"
  by (auto simp only: in_concat_nth tab_shape_bucket)

lemma tab_shape_frame:
  assumes "tab_shape m ht bs" and "frame X A m m'"
    and "X \<inter> set (concat bs) = {}" and "\<forall>a. tab ht = Some a \<longrightarrow> a \<notin> A"
  shows "tab_shape m' ht bs"
proof (cases "tab ht")
  case None
  with assms(1) show ?thesis by (simp add: tab_shape_def)
next
  case (Some a)
  have "list_all2 (chain m') ps bs" if ps: "list_all2 (chain m) ps bs" for ps
  proof (rule list_all2_all_nthI)
    show "length ps = length bs" using ps by (rule list_all2_lengthD)
    fix i assume i: "i < length ps"
    then have "\<forall>x \<in> set (bs ! i). h_nodes m' x = h_nodes m x"
      using frame_nodes [OF assms(2)] assms(3) nth_in_concat [of i bs] list_all2_lengthD [OF ps]
      by fastforce
    then show "chain m' (ps ! i) (bs ! i)"
      using list_all2_nthD [OF ps i] seg_cong [of "bs ! i" m' m] by simp
  qed
  moreover have "h_arrs m' a = h_arrs m a"
    using assms(4) Some by (intro frame_arrs [OF assms(2)]) simp
  moreover have "code_at m' x = code_at m x" for x by (rule frame_code [OF assms(2)])
  moreover have "x < h_brk m'" if "x < h_brk m" for x
    using that frame_brk [OF assms(2)] by (rule less_le_trans)
  ultimately show ?thesis
    using assms(1) Some by (auto simp: tab_shape_Some)
qed


lemma tab_shape_size [simp]: "tab_shape m (ht\<lparr>ht_size := s\<rparr>) bs = tab_shape m ht bs"
  by (cases "tab ht") (simp_all add: tab_shape_None tab_shape_Some)

text \<open>
  Writing one slot of the array: the chains of the other buckets must survive the change,
  and the slot's new content must be the chain of the new bucket.
\<close>

lemma tab_shape_upd:
  assumes "tab_shape m ht bs" and "tab ht = Some a" and "i < length bs"
    and "frame X {a} m m'"
    and "h_arrs m' a = Some ps'" and "\<exists>ps. h_arrs m a = Some ps \<and> ps' = ps[i := q]"
    and "X \<inter> set (concat (take i bs @ drop (Suc i) bs)) = {}"
    and "chain m' q b" and "\<forall>x \<in> set b. bucket ht (code_at m x) = i \<and> x < h_brk m"
    and "distinct (concat (bs[i := b]))"
  shows "tab_shape m' ht (bs[i := b])"
proof -
  from assms(1,2,6) obtain ps where ps: "h_arrs m a = Some ps" "ps' = ps[i := q]"
      "list_all2 (chain m) ps bs"
    by (auto simp: tab_shape_Some)
  have "list_all2 (chain m') ps' (bs[i := b])"
  proof (rule list_all2_all_nthI)
    show len: "length ps' = length (bs[i := b])" using ps list_all2_lengthD by auto
    fix j assume j: "j < length ps'"
    show "chain m' (ps' ! j) (bs[i := b] ! j)"
    proof (cases "j = i")
      case True
      then show ?thesis using assms(3,8) ps len by simp
    next
      case False
      have "bs ! j \<in> set (take i bs @ drop (Suc i) bs)"
      proof (cases "j < i")
        case True
        then have "bs ! j = take i bs ! j" "j < length (take i bs)" using len j by auto
        then show ?thesis by (metis UnI1 nth_mem set_append)
      next
        case no: False
        then have "bs ! j = drop (Suc i) bs ! (j - Suc i)" "j - Suc i < length (drop (Suc i) bs)"
          using False len j by auto
        then show ?thesis by (metis UnI2 nth_mem set_append)
      qed
      then have "\<forall>x \<in> set (bs ! j). h_nodes m' x = h_nodes m x"
        using frame_nodes [OF assms(4)] assms(7) by fastforce
      then show ?thesis
        using False j ps len list_all2_nthD [OF ps(3), of j] seg_cong [of "bs ! j" m' m] by simp
    qed
  qed
  moreover have "set (concat (bs[i := b])) \<subseteq> set (concat bs) \<union> set b"
    by (auto dest!: set_update_subset_insert [THEN subsetD])
  moreover have "\<forall>j < length bs. \<forall>x \<in> set (bs[i := b] ! j). bucket ht (code_at m x) = j"
    using assms(1,3,9) by (auto simp: nth_list_update tab_shape_bucket)
  moreover have brk: "x < h_brk m'" if "x < h_brk m" for x
    using that frame_brk [OF assms(4)] by (rule less_le_trans)
  moreover have "\<forall>x \<in> set (concat bs) \<union> set b. x < h_brk m"
    using assms(1,2,9) by (auto simp: tab_shape_Some)
  ultimately show ?thesis
    using assms(1,2,5,10) frame_code [OF assms(4)]
    by (simp only: tab_shape_Some length_list_update) blast
qed

lemma hinsert_spec:
  assumes "tab_shape m ht bs" and "tab ht = Some a"
    and "h_nodes m x = Some n" and "x \<notin> set (concat bs)" and "x < h_brk m"
  obtains m' where "hinsert m ht (Some x) = Inr (m', ht\<lparr>ht_size := ht_size ht + 1\<rparr>)"
    and "tab_shape m' ht (bs[bucket ht (h_code n) := x # bs ! bucket ht (h_code n)])"
    and "frame {x} {a} m m'"
proof -
  define i where "i = bucket ht (h_code n)"
  have i: "i < length bs" unfolding i_def using assms(1,2) by (intro bucket_less) auto
  obtain ps where slot: "slot_of ht i = Inr (Slot a i)" "h_arrs m a = Some ps"
      "length ps = length bs" "get_loc m (Slot a i) = Inr (ps ! i)" "chain m (ps ! i) (bs ! i)"
    using tab_shape_slot [OF assms(1) i] assms(2) by auto
  define m' where "m' = m\<lparr>h_nodes := (h_nodes m)(x \<mapsto> n\<lparr>h_next := ps ! i\<rparr>),
      h_arrs := (h_arrs m)(a \<mapsto> ps[i := Some x])\<rparr>"
  have run: "hinsert m ht (Some x) = Inr (m', ht\<lparr>ht_size := ht_size ht + 1\<rparr>)"
    using slot i assms(3)
    by (simp add: hinsert_def load_Some update_Some set_loc_def m'_def Let_def flip: i_def)
  have fr: "frame {x} {a} m m'"
    using assms(3) by (auto simp: frame_def m'_def code_at_def)
  have fresh: "x \<notin> set (concat (take i bs))" "x \<notin> set (bs ! i)" "x \<notin> set (concat (drop (Suc i) bs))"
    using assms(4) by (auto simp: concat_nth_split [OF i])
  have "chain m' (Some x) (x # bs ! i)"
    using slot(5) fresh(2) seg_cong [of "bs ! i" m' m "ps ! i" None] by (auto simp: m'_def)
  moreover have "distinct (concat (bs[i := x # bs ! i]))"
    using assms(1,2) fresh
    by (simp add: tab_shape_Some concat_update [OF i]) (simp add: concat_nth_split [OF i])
  ultimately have "tab_shape m' ht (bs[i := x # bs ! i])"
    using assms slot i fresh tab_shape_bucket [OF assms(1) i] nth_in_concat [OF i]
    by (intro tab_shape_upd [OF assms(1,2) i fr]) (auto simp: m'_def i_def tab_shape_Some)
  then show ?thesis using that run fr by (simp add: i_def)
qed

lemma tab_shape_brk:
  "tab_shape m ht bs \<Longrightarrow> i < length bs \<Longrightarrow> x \<in> set (bs ! i) \<Longrightarrow> x < h_brk m"
  using nth_in_concat [of i bs x] by (cases "tab ht") (simp_all only: tab_shape_None tab_shape_Some, auto)

section \<open>Locations inside a bucket\<close>

text \<open>Where the pointer to the node after \<open>xs\<close> is kept in bucket \<open>i\<close> of array \<open>a\<close>.\<close>

definition loc_in :: "addr \<Rightarrow> nat \<Rightarrow> addr list \<Rightarrow> hloc" where
  "loc_in a i xs = (if xs = [] then Slot a i else NextOf (last xs))"

lemma get_loc_in:
  assumes "h_arrs m a = Some ps" and "i < length ps" and "chain m (ps ! i) (xs @ ys)"
  obtains p where "get_loc m (loc_in a i xs) = Inr p" and "chain m p ys"
proof (cases xs rule: rev_cases)
  case Nil
  with assms show ?thesis
    by (intro that [of "ps ! i"]) (auto simp: loc_in_def get_loc_def load_Some)
next
  case (snoc zs b)
  with assms(3) obtain n where "h_nodes m b = Some n" "chain m (h_next n) ys"
    by (auto simp: seg_append)
  with snoc show ?thesis
    by (intro that [of "h_next n"]) (auto simp: loc_in_def get_loc_def load_Some)
qed

lemma h_detach_spec:
  assumes "tab_shape m ht bs" and "tab ht = Some a" and "i < length bs"
    and "bs ! i = xs @ x # ys"
  obtains m' where
      "\<And>t. h_detach m t (loc_in a i xs) = Inr (m', t\<lparr>ht_size := ht_size t - 1\<rparr>, Some x)"
    and "tab_shape m' ht (bs[i := xs @ ys])" and "frame (set xs) {a} m m'"
proof -
  obtain ps where slot: "h_arrs m a = Some ps" "length ps = length bs" "chain m (ps ! i) (bs ! i)"
    using tab_shape_slot [OF assms(1,3)] assms(2) by auto
  with assms(3,4) obtain p where p: "get_loc m (loc_in a i xs) = Inr p" "chain m p (x # ys)"
    by (metis get_loc_in)
  then obtain n where n: "p = Some x" "h_nodes m x = Some n" "chain m (h_next n) ys" by auto
  have dist: "distinct (concat (take i bs) @ (xs @ x # ys) @ concat (drop (Suc i) bs))"
    using assms(1,2) unfolding tab_shape_Some [OF assms(2)] concat_nth_split [OF assms(3)] assms(4)
    by blast
  have rest: "\<forall>y \<in> set (xs @ ys). bucket ht (code_at m y) = i \<and> y < h_brk m"
    using tab_shape_bucket [OF assms(1,3)] tab_shape_brk [OF assms(1,3)] assms(4) by auto
  define m' where "m' = (if xs = [] then m\<lparr>h_arrs := (h_arrs m)(a \<mapsto> ps[i := h_next n])\<rparr>
     else m\<lparr>h_nodes := (h_nodes m)(last xs \<mapsto> (the (h_nodes m (last xs)))\<lparr>h_next := h_next n\<rparr>)\<rparr>)"
  have prev: "\<exists>k. h_nodes m (last xs) = Some k" if "xs \<noteq> []"
    using seg_nodes [OF slot(3), of "last xs"] assms(4) that by auto
  have set: "set_loc m (loc_in a i xs) (h_next n) = Inr m'"
    using slot assms(3) prev
    by (auto simp: set_loc_def loc_in_def m'_def load_Some update_Some)
  have fr: "frame (set xs) {a} m m'"
    using prev by (auto simp: frame_def m'_def code_at_def)
  have "chain m' (if xs = [] then h_next n else ps ! i) (xs @ ys)"
  proof (cases xs rule: rev_cases)
    case Nil
    then show ?thesis
      using n(3) seg_cong [of ys m' m "h_next n" None] by (simp add: m'_def)
  next
    case (snoc zs b)
    with slot(3) assms(4) obtain k where k: "seg m (ps ! i) (zs @ [b]) (Some x)"
        "h_nodes m b = Some k"
      by (auto simp: seg_append)
    have "seg m' (ps ! i) (zs @ [b]) (h_next n)"
      using k dist snoc by (intro seg_redirect [OF k(1) _ k(2)]) (auto simp: m'_def)
    moreover have "chain m' (h_next n) ys"
      using n(3) dist snoc seg_cong [of ys m' m "h_next n" None] by (auto simp: m'_def)
    ultimately show ?thesis using snoc by (auto simp: seg_append)
  qed
  then have "tab_shape m' ht (bs[i := xs @ ys])"
    using slot assms(3) dist rest
    by (intro tab_shape_upd [OF assms(1-3) fr, of "if xs = [] then ps[i := h_next n] else ps"])
      (auto simp: m'_def concat_update [OF assms(3)])
  moreover have "h_detach m t (loc_in a i xs) = Inr (m', t\<lparr>ht_size := ht_size t - 1\<rparr>, Some x)" for t
    using p n set by (simp add: h_detach_def load_Some)
  ultimately show ?thesis using that fr by blast
qed

section \<open>Looking a key up\<close>

text \<open>The nodes a lookup is after: those with the key's hash on which \<open>eq\<close> holds.\<close>

definition matches :: "hmem \<Rightarrow> u64 \<Rightarrow> (addr \<Rightarrow> bool) \<Rightarrow> addr \<Rightarrow> bool" where
  "matches m code E x \<longleftrightarrow> code_at m x = code \<and> E x"

lemma hwalk_spec:
  assumes "get_loc m loc = Inr p" and "chain m p ys" and "length ys < fuel"
    and "\<forall>y \<in> set ys. code_at m y = code \<longrightarrow> eq y = Inr (E y)"
  shows "hwalk fuel m code eq loc =
    Inr (if \<exists>y \<in> set ys. matches m code E y
         then Some (let zs = takeWhile (\<lambda>y. \<not> matches m code E y) ys
                    in if zs = [] then loc else NextOf (last zs))
         else None)"
  using assms
proof (induction ys arbitrary: fuel loc p)
  case Nil
  then show ?case by (cases fuel) auto
next
  case (Cons y ys)
  then obtain f n where f: "fuel = Suc f" "length ys < f" and n: "p = Some y" "h_nodes m y = Some n"
      "chain m (h_next n) ys"
    by (cases fuel) auto
  have "get_loc m (NextOf y) = Inr (h_next n)" using n by (simp add: get_loc_def load_Some)
  from Cons.IH [OF this n(3) f(2)] show ?case
    using Cons.prems f n by (auto simp: load_Some matches_def Let_def)
qed

lemma hlookup_None [simp]: "tab ht = None \<Longrightarrow> hlookup m ht code eq = Inr None"
  by (simp add: hlookup_def)

lemma hlookup_spec:
  assumes "tab_shape m ht bs" and "tab ht = Some a"
    and "\<forall>y \<in> set (concat bs). code_at m y = code \<longrightarrow> eq y = Inr (E y)"
  shows "hlookup m ht code eq =
    Inr (if \<exists>y \<in> set (bs ! bucket ht code). matches m code E y
         then Some (loc_in a (bucket ht code)
                (takeWhile (\<lambda>y. \<not> matches m code E y) (bs ! bucket ht code)))
         else None)"
proof -
  let ?i = "bucket ht code"
  have i: "?i < length bs" using assms(1,2) by (intro bucket_less) auto
  obtain ps where slot: "get_loc m (Slot a ?i) = Inr (ps ! ?i)" "chain m (ps ! ?i) (bs ! ?i)"
    using tab_shape_slot [OF assms(1) i] assms(2) by auto
  have "distinct (concat bs)" using assms(1,2) by (simp add: tab_shape_Some)
  then have len: "length (bs ! ?i) < Suc (h_brk m)"
    using distinct_bounded_length [of "bs ! ?i" "h_brk m"] tab_shape_brk [OF assms(1) i]
    by (simp add: concat_nth_split [OF i] less_Suc_eq_le)
  have eq: "\<forall>y \<in> set (bs ! ?i). code_at m y = code \<longrightarrow> eq y = Inr (E y)"
    using assms(3) nth_in_concat [OF i] by blast
  show ?thesis
    unfolding hlookup_def assms(2) option.case hwalk_spec [OF slot len eq]
    by (simp add: loc_in_def Let_def)
qed

section \<open>Maps\<close>

text \<open>
  \<open>hm_shape m hm bs1 bs2\<close>: the newer table holds the buckets \<open>bs1\<close>, the older one \<open>bs2\<close>; no
  node is in both, and the buckets of the older table that resizing has passed are empty.
  \<open>hm_rep\<close> adds that both size fields count the nodes.
\<close>

definition hm_shape :: "hmem \<Rightarrow> HMap \<Rightarrow> addr list list \<Rightarrow> addr list list \<Rightarrow> bool" where
  "hm_shape m hm bs1 bs2 \<longleftrightarrow> tab_shape m (ht1 hm) bs1 \<and> tab_shape m (ht2 hm) bs2 \<and>
     set (concat bs1) \<inter> set (concat bs2) = {} \<and>
     (\<forall>a. tab (ht2 hm) = Some a \<longrightarrow> tab (ht1 hm) \<noteq> None \<and> tab (ht1 hm) \<noteq> Some a) \<and>
     (\<forall>i < resizing_pos hm. i < length bs2 \<longrightarrow> bs2 ! i = [])"

definition hm_rep :: "hmem \<Rightarrow> HMap \<Rightarrow> addr list list \<Rightarrow> addr list list \<Rightarrow> bool" where
  "hm_rep m hm bs1 bs2 \<longleftrightarrow> hm_shape m hm bs1 bs2 \<and>
     ht_size (ht1 hm) = of_nat (length (concat bs1)) \<and>
     ht_size (ht2 hm) = of_nat (length (concat bs2)) \<and>
     length (concat bs1) + length (concat bs2) < 2 ^ 64"

text \<open>The arrays a map owns.\<close>

definition tabs :: "HMap \<Rightarrow> addr set" where
  "tabs hm = set_option (tab (ht1 hm)) \<union> set_option (tab (ht2 hm))"

text \<open>Putting a node into the bucket of its hash, at the front.\<close>

definition put_node :: "(addr \<Rightarrow> u64) \<Rightarrow> u64 \<Rightarrow> addr \<Rightarrow> addr list list \<Rightarrow> addr list list" where
  "put_node code msk x bs = bs[unat (code x AND msk) := x # bs ! unat (code x AND msk)]"

lemma length_put_node [simp]: "length (put_node code msk x bs) = length bs"
  by (simp add: put_node_def)

lemma frame_code_fun: "frame X A m m' \<Longrightarrow> code_at m' = code_at m"
  by (simp add: frame_code fun_eq_iff)

lemma put_node_facts:
  assumes "tab_shape m ht bs" and "tab ht \<noteq> None"
  shows "mset (concat (put_node (code_at m) (ht_mask ht) x bs)) = add_mset x (mset (concat bs))"
    and "length (concat (put_node (code_at m) (ht_mask ht) x bs)) = Suc (length (concat bs))"
    and "set (concat (put_node (code_at m) (ht_mask ht) x bs)) = insert x (set (concat bs))"
proof -
  have "bucket ht (code_at m x) < length bs"
    using assms by (rule bucket_less)
  then show *: "mset (concat (put_node (code_at m) (ht_mask ht) x bs)) = add_mset x (mset (concat bs))"
    using mset_concat_update [of "bucket ht (code_at m x)" bs "x # bs ! bucket ht (code_at m x)"]
    by (simp add: put_node_def)
  show "length (concat (put_node (code_at m) (ht_mask ht) x bs)) = Suc (length (concat bs))"
    using arg_cong [OF *, of size] by simp
  show "set (concat (put_node (code_at m) (ht_mask ht) x bs)) = insert x (set (concat bs))"
    using arg_cong [OF *, of set_mset] by (simp only: set_mset_mset set_mset_add_mset_insert)
qed

lemma hm_shapeD:
  assumes "hm_shape m hm bs1 bs2"
  shows "tab_shape m (ht1 hm) bs1" and "tab_shape m (ht2 hm) bs2"
    and "set (concat bs1) \<inter> set (concat bs2) = {}"
    and "tab (ht2 hm) = Some a \<Longrightarrow> tab (ht1 hm) \<noteq> None \<and> tab (ht1 hm) \<noteq> Some a"
    and "i < resizing_pos hm \<Longrightarrow> i < length bs2 \<Longrightarrow> bs2 ! i = []"
  using assms by (auto simp: hm_shape_def)

lemma hm_repD:
  assumes "hm_rep m hm bs1 bs2"
  shows "hm_shape m hm bs1 bs2"
    and "ht_size (ht1 hm) = of_nat (length (concat bs1))"
    and "ht_size (ht2 hm) = of_nat (length (concat bs2))"
    and "length (concat bs1) + length (concat bs2) < 2 ^ 64"
  using assms by (auto simp only: hm_rep_def)

lemma tab_shape_distinct: "tab_shape m ht bs \<Longrightarrow> distinct (concat bs)"
  by (cases "tab ht") (simp_all add: tab_shape_None tab_shape_Some)

lemma hm_shape_node:
  assumes "hm_shape m hm bs1 bs2" and "x \<in> set (concat bs1) \<union> set (concat bs2)"
  shows "\<exists>n. h_nodes m x = Some n" and "x < h_brk m"
proof -
  note T = hm_shapeD(1,2) [OF assms(1)]
  show "\<exists>n. h_nodes m x = Some n"
    using tab_shape_nodes [OF T(1)] tab_shape_nodes [OF T(2)] assms(2) by blast
  show "x < h_brk m"
    using tab_shape_brk [OF T(1)] tab_shape_brk [OF T(2)] assms(2) by (metis in_concat_nth UnE)
qed

section \<open>Moving nodes from the older table to the newer\<close>

lemma help_move:
  assumes rep: "hm_shape m hm bs1 bs2" and tab2: "tab (ht2 hm) = Some a2"
    and i: "i = resizing_pos hm" "i < length bs2" "bs2 ! i = x # xs"
  obtains m1 t2 m2 t1 where
      "h_detach m (ht2 hm) (Slot a2 i) = Inr (m1, t2, Some x)"
    and "hinsert m1 (ht1 hm) (Some x) = Inr (m2, t1)"
    and "hm_shape m2 (hm\<lparr>ht1 := t1, ht2 := t2\<rparr>)
           (put_node (code_at m) (ht_mask (ht1 hm)) x bs1) (bs2[i := xs])"
    and "frame {x} (tabs hm) m m2"
    and "t1 = (ht1 hm)\<lparr>ht_size := ht_size (ht1 hm) + 1\<rparr>"
    and "t2 = (ht2 hm)\<lparr>ht_size := ht_size (ht2 hm) - 1\<rparr>"
proof -
  note R = hm_shapeD [OF rep]
  obtain a1 where tab1: "tab (ht1 hm) = Some a1" "a1 \<noteq> a2" using R(4) [OF tab2] by auto
  define t1 where "t1 = (ht1 hm)\<lparr>ht_size := ht_size (ht1 hm) + 1\<rparr>"
  define t2 where "t2 = (ht2 hm)\<lparr>ht_size := ht_size (ht2 hm) - 1\<rparr>"
  obtain m1 where m1: "h_detach m (ht2 hm) (Slot a2 i) = Inr (m1, t2, Some x)"
      "tab_shape m1 (ht2 hm) (bs2[i := xs])" "frame {} {a2} m m1"
    using h_detach_spec [OF R(2) tab2 i(2), of "[]" x xs] i(3) by (auto simp: loc_in_def t2_def)
  have split2: "concat bs2 = concat (take i bs2) @ (x # xs) @ concat (drop (Suc i) bs2)"
    using concat_nth_split [OF i(2)] i(3) by simp
  have upd2: "concat (bs2[i := xs]) = concat (take i bs2) @ xs @ concat (drop (Suc i) bs2)"
    by (rule concat_update [OF i(2)])
  have x2: "x \<in> set (concat bs2)" "x \<notin> set (concat (bs2[i := xs]))" "x \<notin> set (concat bs1)"
    using tab_shape_distinct [OF R(2)] R(3) by (auto simp: split2 upd2)
  have rep1: "tab_shape m1 (ht1 hm) bs1"
    using tab_shape_frame [OF R(1) m1(3)] tab1 by simp
  obtain n where n: "h_nodes m1 x = Some n"
    using tab_shape_nodes [OF R(2) x2(1)] frame_nodes [OF m1(3)] by auto
  have brk: "x < h_brk m1"
    using hm_shape_node(2) [OF rep] x2(1) frame_brk [OF m1(3)] by fastforce
  have code: "h_code n = code_at m x" using frame_code [OF m1(3), of x] n by simp
  obtain m2 where m2: "hinsert m1 (ht1 hm) (Some x) = Inr (m2, t1)"
      "tab_shape m2 (ht1 hm) (put_node (code_at m) (ht_mask (ht1 hm)) x bs1)" "frame {x} {a1} m1 m2"
    using hinsert_spec [OF rep1 tab1(1) n x2(3) brk] unfolding code t1_def put_node_def by metis
  have rep2: "tab_shape m2 (ht2 hm) (bs2[i := xs])"
    using tab_shape_frame [OF m1(2) m2(3)] x2(2) tab1(2) tab2 by simp
  have "set (concat (put_node (code_at m) (ht_mask (ht1 hm)) x bs1)) = insert x (set (concat bs1))"
    using put_node_facts(3) [OF R(1)] tab1 by simp
  moreover have "insert x (set (concat bs1)) \<inter> set (concat (bs2[i := xs])) = {}"
    using R(3) x2(2) by (auto simp only: split2 upd2 set_append list.set)
  moreover have "bs2[i := xs] ! j = []" if "j < i" "j < length bs2" for j
    using R(5) [of j] that i by simp
  ultimately have "hm_shape m2 (hm\<lparr>ht1 := t1, ht2 := t2\<rparr>)
      (put_node (code_at m) (ht_mask (ht1 hm)) x bs1) (bs2[i := xs])"
    using m2(2) rep2 tab1 tab2 i(1) unfolding hm_shape_def
    by (simp add: t1_def t2_def del: set_concat)
  moreover have "frame {x} (tabs hm) m m2"
    using frame_trans [OF frame_mono [OF m1(3)] frame_mono [OF m2(3)], of "{x}" "tabs hm"] tab1 tab2
    by (simp add: tabs_def)
  ultimately show ?thesis
    using that m1(1) m2(1) t1_def t2_def by blast
qed

text \<open>The nodes \<open>xs\<close> moved one by one, in this order, to the fronts of their buckets.\<close>

definition put_all :: "hmem \<Rightarrow> HMap \<Rightarrow> addr list \<Rightarrow> addr list list \<Rightarrow> addr list list" where
  "put_all m hm xs bs = fold (put_node (code_at m) (ht_mask (ht1 hm))) xs bs"

lemma concat_drop_empties:
  "(\<And>j. j < i \<Longrightarrow> j < length bs \<Longrightarrow> bs ! j = []) \<Longrightarrow> concat (take i bs) = []"
  by (auto simp: in_set_conv_nth)

lemma pos_in_range:
  assumes "hm_shape m hm bs1 bs2" and "concat bs2 \<noteq> []"
  shows "resizing_pos hm < length bs2"
proof (rule ccontr)
  assume "\<not> ?thesis"
  then have "concat (take (resizing_pos hm) bs2) = concat bs2" by simp
  with concat_drop_empties [of "resizing_pos hm" bs2] hm_shapeD(5) [OF assms(1)] assms(2)
  show False by simp
qed

text \<open>
  One turn of the loop while it has work: an empty bucket is passed, or the first node of
  the first non-empty bucket moves.
\<close>

lemma help_loop_skip:
  assumes "hm_shape m hm bs1 bs2" and "nwork < k_resizing_work" and "ht_size (ht2 hm) > 0"
    and "resizing_pos hm < length bs2" and "bs2 ! resizing_pos hm = []"
  shows "help_loop nwork m hm = help_loop nwork m (hm\<lparr>resizing_pos := resizing_pos hm + 1\<rparr>)"
    and "hm_shape m (hm\<lparr>resizing_pos := resizing_pos hm + 1\<rparr>) bs1 bs2"
proof -
  obtain a ps where "slot_of (ht2 hm) (resizing_pos hm) = Inr (Slot a (resizing_pos hm))"
      "get_loc m (Slot a (resizing_pos hm)) = Inr None"
    using tab_shape_slot [OF hm_shapeD(2) [OF assms(1)] assms(4)] assms(5) by (metis seg.simps(1))
  then show "help_loop nwork m hm = help_loop nwork m (hm\<lparr>resizing_pos := resizing_pos hm + 1\<rparr>)"
    using assms(2,3) by (simp add: help_loop.simps [of nwork m hm])
  show "hm_shape m (hm\<lparr>resizing_pos := resizing_pos hm + 1\<rparr>) bs1 bs2"
    using assms(1,5) by (auto simp: hm_shape_def less_Suc_eq)
qed

lemma help_loop_move:
  assumes "hm_shape m hm bs1 bs2" and "nwork < k_resizing_work" and "ht_size (ht2 hm) > 0"
    and i: "i = resizing_pos hm" "i < length bs2" "bs2 ! i = x # xs"
  defines "hm' \<equiv> hm\<lparr>ht1 := (ht1 hm)\<lparr>ht_size := ht_size (ht1 hm) + 1\<rparr>,
                   ht2 := (ht2 hm)\<lparr>ht_size := ht_size (ht2 hm) - 1\<rparr>\<rparr>"
  obtains m' where "help_loop nwork m hm = help_loop (nwork + 1) m' hm'"
    and "hm_shape m' hm' (put_node (code_at m) (ht_mask (ht1 hm)) x bs1) (bs2[i := xs])"
    and "frame {x} (tabs hm) m m'"
    and "concat bs2 = x # concat (bs2[i := xs])"
proof -
  obtain a ps where slot: "tab (ht2 hm) = Some a" "slot_of (ht2 hm) i = Inr (Slot a i)"
      "get_loc m (Slot a i) = Inr (Some x)"
    using tab_shape_slot [OF hm_shapeD(2) [OF assms(1)] i(2)] i(3) by (metis seg.simps(2))
  obtain m1 t2 m2 t1 where mv:
      "h_detach m (ht2 hm) (Slot a i) = Inr (m1, t2, Some x)"
      "hinsert m1 (ht1 hm) (Some x) = Inr (m2, t1)"
      "hm_shape m2 hm' (put_node (code_at m) (ht_mask (ht1 hm)) x bs1) (bs2[i := xs])"
      "frame {x} (tabs hm) m m2" "hm' = hm\<lparr>ht1 := t1, ht2 := t2\<rparr>"
    using help_move [OF assms(1) slot(1) i] unfolding hm'_def by metis
  have "help_loop nwork m hm = help_loop (nwork + 1) m2 hm'"
    using assms(2,3) slot(2,3) mv(1,2,5) by (simp add: help_loop.simps [of nwork m hm] flip: i(1))
  moreover have e: "concat (take i bs2) = []"
    using hm_shapeD(5) [OF assms(1)] by (intro concat_drop_empties) (auto simp: i(1))
  have "concat bs2 = x # concat (bs2[i := xs])"
    by (subst concat_nth_split [OF i(2)]) (simp add: concat_update [OF i(2)] e i(3))
  ultimately show ?thesis using that mv(3,4) by blast
qed

lemma help_loop_stop:
  "\<not> (nwork < k_resizing_work \<and> ht_size (ht2 hm) > 0) \<Longrightarrow> help_loop nwork m hm = Inr (m, hm)"
  by (subst help_loop.simps) (rule if_not_P)

text \<open>Passing empty buckets up to the next node.\<close>

lemma help_loop_skips:
  assumes "hm_shape m hm bs1 bs2" and "nwork < k_resizing_work" and "ht_size (ht2 hm) > 0"
    and "concat bs2 \<noteq> []"
  shows "\<exists>i. help_loop nwork m hm = help_loop nwork m (hm\<lparr>resizing_pos := i\<rparr>) \<and>
    hm_shape m (hm\<lparr>resizing_pos := i\<rparr>) bs1 bs2 \<and> i < length bs2 \<and> bs2 ! i \<noteq> []"
  using assms
proof (induction "length bs2 - resizing_pos hm" arbitrary: hm rule: less_induct)
  case less
  let ?i = "resizing_pos hm"
  have i: "?i < length bs2" by (rule pos_in_range [OF less.prems(1,4)])
  show ?case
  proof (cases "bs2 ! ?i = []")
    case False
    then show ?thesis using i less.prems(1) by (intro exI [of _ ?i]) simp
  next
    case True
    note skip = help_loop_skip [OF less.prems(1-3) i True]
    show ?thesis
      using less.hyps [of "hm\<lparr>resizing_pos := ?i + 1\<rparr>"] skip less.prems i by simp
  qed
qed

text \<open>
  \<open>k\<close> nodes move.  The size field of the older table may exceed the nodes left by \<open>d\<close>.
\<close>

lemma help_loop_moves:
  assumes "hm_shape m hm bs1 bs2" and "ht_size (ht2 hm) = of_nat (length (concat bs2) + d)"
    and "length (concat bs2) + d < 2 ^ 64"
    and "k \<le> length (concat bs2)" and "nwork + k \<le> k_resizing_work"
  shows "\<exists>m' hm' bs2'. help_loop nwork m hm = help_loop (nwork + k) m' hm' \<and>
    hm_shape m' hm' (put_all m hm (take k (concat bs2)) bs1) bs2' \<and>
    concat bs2' = drop k (concat bs2) \<and> length bs2' = length bs2 \<and>
    ht_size (ht1 hm') = ht_size (ht1 hm) + of_nat k \<and>
    ht_size (ht2 hm') = of_nat (length (concat bs2') + d) \<and>
    frame (set (concat bs2)) (tabs hm) m m' \<and>
    tab (ht1 hm') = tab (ht1 hm) \<and> ht_mask (ht1 hm') = ht_mask (ht1 hm) \<and>
    tab (ht2 hm') = tab (ht2 hm)"
  using assms
proof (induction k arbitrary: nwork m hm bs1 bs2)
  case 0
  then show ?case by (intro exI [of _ m] exI [of _ hm] exI [of _ bs2]) (simp add: put_all_def)
next
  case (Suc k)
  from Suc.prems(4) have ne: "concat bs2 \<noteq> []" by (metis list.size(3) not_less_eq_eq zero_le)
  from Suc.prems(5) have work: "nwork < k_resizing_work" by simp
  from ne have "0 < length (concat bs2) + d" by (metis add_gr_0 length_greater_0_conv)
  then have size: "ht_size (ht2 hm) > 0"
    using u64_of_nat_eq_0 [OF Suc.prems(3)] by (simp only: Suc.prems(2) word_greater_zero_iff)
  obtain i where i: "help_loop nwork m hm = help_loop nwork m (hm\<lparr>resizing_pos := i\<rparr>)"
      "hm_shape m (hm\<lparr>resizing_pos := i\<rparr>) bs1 bs2" "i < length bs2" "bs2 ! i \<noteq> []"
    using help_loop_skips [OF Suc.prems(1) work size ne] by auto
  then obtain x xs where xs: "bs2 ! i = x # xs" by (cases "bs2 ! i") auto
  define hm1 where "hm1 = hm\<lparr>resizing_pos := i,
      ht1 := (ht1 hm)\<lparr>ht_size := ht_size (ht1 hm) + 1\<rparr>,
      ht2 := (ht2 hm)\<lparr>ht_size := ht_size (ht2 hm) - 1\<rparr>\<rparr>"
  let ?hi = "hm\<lparr>resizing_pos := i\<rparr>"
  have at: "ht_size (ht2 ?hi) > 0" "i = resizing_pos ?hi" using size by simp_all
  have hm1: "hm1 = ?hi\<lparr>ht1 := (ht1 ?hi)\<lparr>ht_size := ht_size (ht1 ?hi) + 1\<rparr>,
      ht2 := (ht2 ?hi)\<lparr>ht_size := ht_size (ht2 ?hi) - 1\<rparr>\<rparr>"
    by (simp add: hm1_def)
  obtain m1 where mv: "help_loop nwork m hm = help_loop (nwork + 1) m1 hm1"
      "hm_shape m1 hm1 (put_node (code_at m) (ht_mask (ht1 hm)) x bs1) (bs2[i := xs])"
      "frame {x} (tabs hm) m m1" "concat bs2 = x # concat (bs2[i := xs])"
    using help_loop_move [OF i(2) work at i(3) xs] i(1) unfolding hm1 [symmetric] tabs_def
    by simp metis
  have tabs1: "tabs hm1 = tabs hm" by (simp add: hm1_def tabs_def)
  have size1: "ht_size (ht2 hm1) = of_nat (length (concat (bs2[i := xs])) + d)"
    using Suc.prems(2) by (simp add: hm1_def mv(4))
  obtain m' hm' bs2' where IH: "help_loop (nwork + 1) m1 hm1 = help_loop (nwork + 1 + k) m' hm'"
      "hm_shape m' hm' (put_all m1 hm1 (take k (concat (bs2[i := xs])))
         (put_node (code_at m) (ht_mask (ht1 hm)) x bs1)) bs2'"
      "concat bs2' = drop k (concat (bs2[i := xs]))" "length bs2' = length (bs2[i := xs])"
      "ht_size (ht1 hm') = ht_size (ht1 hm1) + of_nat k"
      "ht_size (ht2 hm') = of_nat (length (concat bs2') + d)"
      "frame (set (concat (bs2[i := xs]))) (tabs hm1) m1 m'"
      "tab (ht1 hm') = tab (ht1 hm1)" "ht_mask (ht1 hm') = ht_mask (ht1 hm1)"
      "tab (ht2 hm') = tab (ht2 hm1)"
    using Suc.IH [OF mv(2) size1, of "nwork + 1"] Suc.prems(3-5) mv(4) by auto
  have "frame (set (concat bs2)) (tabs hm) m m1"
    by (rule frame_mono [OF mv(3)]) (simp_all add: mv(4) del: set_concat)
  moreover have "frame (set (concat bs2)) (tabs hm) m1 m'"
    by (rule frame_mono [OF IH(7)]) (auto simp: mv(4) tabs1 simp del: set_concat)
  ultimately have "frame (set (concat bs2)) (tabs hm) m m'"
    by (rule frame_trans)
  moreover have "put_all m1 hm1 ys (put_node (code_at m) (ht_mask (ht1 hm)) x bs1)
      = put_all m hm (x # ys) bs1" for ys
    using frame_code_fun [OF mv(3)] by (simp add: put_all_def hm1_def)
  ultimately show ?case
    using IH mv(1) by (intro exI [of _ m'] exI [of _ hm'] exI [of _ bs2'])
      (simp add: mv(4) hm1_def)
qed

text \<open>A size field that promises nodes there are not drives the loop off the array.\<close>

lemma help_loop_runs_off:
  assumes "hm_shape m hm bs1 bs2" and "tab (ht2 hm) \<noteq> None" and "concat bs2 = []"
    and "nwork < k_resizing_work" and "ht_size (ht2 hm) > 0"
  shows "help_loop nwork m hm = Inl OutOfBounds"
  using assms
proof (induction "length bs2 - resizing_pos hm" arbitrary: hm rule: less_induct)
  case less
  let ?i = "resizing_pos hm"
  show ?case
  proof (cases "?i < length bs2")
    case True
    then have "bs2 ! ?i = []" using less.prems(3) by simp
    from help_loop_skip [OF less.prems(1,4,5) True this] show ?thesis
      using less.hyps [of "hm\<lparr>resizing_pos := ?i + 1\<rparr>"] less.prems True by simp
  next
    case False
    obtain a where a: "tab (ht2 hm) = Some a" using less.prems(2) by auto
    with hm_shapeD(2) [OF less.prems(1)]
    obtain ps where ps: "h_arrs m a = Some ps" "list_all2 (chain m) ps bs2"
      by (simp only: tab_shape_Some) blast
    from ps(2) have "length ps = length bs2" by (rule list_all2_lengthD)
    then show ?thesis
      using a ps(1) False less.prems(4,5)
      by (simp add: help_loop.simps [of nwork m hm] slot_of_def get_loc_def load_Some)
  qed
qed

lemma tab_shape_empty [simp]: "tab_shape m empty_tab bs \<longleftrightarrow> bs = []"
  by (simp add: tab_shape_def empty_tab_def)

lemma tab_empty [simp]: "tab empty_tab = None" "ht_size empty_tab = 0" "ht_mask empty_tab = 0"
  by (simp_all add: empty_tab_def)

lemma length_put_all [simp]: "length (put_all m hm xs bs) = length bs"
proof -
  have "length (fold (put_node c k) xs bs) = length bs" for c k
    by (induction xs arbitrary: bs) auto
  then show ?thesis by (simp add: put_all_def)
qed

lemma mset_put_all:
  assumes "tab_shape m (ht1 hm) bs" and "tab (ht1 hm) \<noteq> None"
  shows "mset (concat (put_all m hm xs bs)) = mset xs + mset (concat bs)"
proof -
  have "length cs = length bs \<Longrightarrow>
      mset (concat (fold (put_node (code_at m) (ht_mask (ht1 hm))) xs cs)) = mset xs + mset (concat cs)"
    for cs
  proof (induction xs arbitrary: cs)
    case (Cons x xs)
    have "bucket (ht1 hm) (code_at m x) < length cs"
      using bucket_less [OF assms] Cons.prems by simp
    then show ?case
      using Cons mset_concat_update [of "bucket (ht1 hm) (code_at m x)" cs
          "x # cs ! bucket (ht1 hm) (code_at m x)"]
      by (simp add: put_node_def)
  qed simp
  then show ?thesis by (simp add: put_all_def)
qed

text \<open>
  One round of helping: the first \<open>k_resizing_work\<close> nodes of the older table move, in chain
  order, to the newer one, and a table left empty is freed.
\<close>

definition help_buckets :: "hmem \<Rightarrow> HMap \<Rightarrow> addr list list \<Rightarrow> addr list list \<Rightarrow> addr list list" where
  "help_buckets m hm bs1 bs2 = put_all m hm (take k_resizing_work (concat bs2)) bs1"

lemma length_help_buckets [simp]: "length (help_buckets m hm bs1 bs2) = length bs1"
  by (simp add: help_buckets_def)

lemma mset_help_buckets:
  assumes "hm_rep m hm bs1 bs2"
  shows "mset (concat (help_buckets m hm bs1 bs2))
    = mset (take k_resizing_work (concat bs2)) + mset (concat bs1)"
proof -
  note S = hm_shapeD [OF hm_repD(1) [OF assms]]
  show ?thesis
  proof (cases "tab (ht1 hm)")
    case None
    then have "tab (ht2 hm) = None" using S(4) by (cases "tab (ht2 hm)") auto
    then have "bs2 = []" using S(2) by (simp add: tab_shape_None)
    then show ?thesis by (simp add: help_buckets_def put_all_def)
  next
    case (Some a)
    then show ?thesis
      unfolding help_buckets_def using S(1) by (intro mset_put_all) simp_all
  qed
qed

lemma hm_help_resizing_spec:
  assumes "hm_rep m hm bs1 bs2"
  obtains m' hm' bs2' where "hm_help_resizing m hm = Inr (m', hm')"
    and "hm_rep m' hm' (help_buckets m hm bs1 bs2) bs2'"
    and "concat bs2' = drop k_resizing_work (concat bs2)"
    and "concat bs2' = [] \<Longrightarrow> tab (ht2 hm') = None"
    and "frame (set (concat bs2)) (tabs hm) m m'"
    and "tab (ht1 hm') = tab (ht1 hm)" and "ht_mask (ht1 hm') = ht_mask (ht1 hm)"
    and "tab (ht2 hm') = None \<or> tab (ht2 hm') = tab (ht2 hm) \<and> length bs2' = length bs2"
proof -
  note R = hm_repD [OF assms]
  let ?k = "min k_resizing_work (length (concat bs2))"
  obtain m1 hm1 bs where mv: "help_loop 0 m hm = help_loop ?k m1 hm1"
      "hm_shape m1 hm1 (put_all m hm (take ?k (concat bs2)) bs1) bs"
      "concat bs = drop ?k (concat bs2)"
      "ht_size (ht1 hm1) = ht_size (ht1 hm) + of_nat ?k"
      "ht_size (ht2 hm1) = of_nat (length (concat bs))"
      "frame (set (concat bs2)) (tabs hm) m m1"
      "tab (ht1 hm1) = tab (ht1 hm)" "ht_mask (ht1 hm1) = ht_mask (ht1 hm)"
      "tab (ht2 hm1) = tab (ht2 hm)" "length bs = length bs2"
    using help_loop_moves [OF R(1), of 0 ?k 0] R(3,4) by auto
  have take: "take ?k (concat bs2) = take k_resizing_work (concat bs2)"
    and drop: "drop ?k (concat bs2) = drop k_resizing_work (concat bs2)"
    by (simp_all add: min_def)
  have small: "length (concat bs) < 2 ^ 64" using R(4) by (simp add: mv(3))
  have "\<not> (?k < k_resizing_work \<and> ht_size (ht2 hm1) > 0)"
    unfolding mv(5) mv(3) by (auto simp: min_def)
  then have loop: "help_loop 0 m hm = Inr (m1, hm1)"
    unfolding mv(1) by (rule help_loop_stop)
  note ms = mset_help_buckets [OF assms]
  have "length (concat (help_buckets m hm bs1 bs2)) = ?k + length (concat bs1)"
    using arg_cong [OF ms, of size] by (simp only: size_mset size_union length_take min.commute)
  then have rep1: "hm_rep m1 hm1 (help_buckets m hm bs1 bs2) bs"
    using mv R(2,4) unfolding hm_rep_def help_buckets_def take by (simp add: add.commute)
  note sh1 = hm_repD(1) [OF rep1]
  show ?thesis
  proof (cases "concat bs = [] \<and> tab (ht2 hm1) \<noteq> None")
    case True
    then obtain a where a: "tab (ht2 hm1) = Some a" by auto
    define m2 where "m2 = m1\<lparr>h_arrs := (h_arrs m1)(a := None)\<rparr>"
    have fr: "frame {} {a} m1 m2" by (simp add: frame_def m2_def code_at_def)
    have z: "ht_size (ht2 hm1) = 0"
      unfolding mv(5) True [THEN conjunct1] by simp
    have run: "hm_help_resizing m hm = Inr (m2, hm1\<lparr>ht2 := empty_tab\<rparr>)"
      using a z by (simp add: hm_help_resizing_def loop m2_def)
    have "tab_shape m2 (ht1 hm1) (help_buckets m hm bs1 bs2)"
      using hm_shapeD(4) [OF sh1 a] by (intro tab_shape_frame [OF hm_shapeD(1) [OF sh1] fr]) auto
    then have "hm_rep m2 (hm1\<lparr>ht2 := empty_tab\<rparr>) (help_buckets m hm bs1 bs2) []"
      using hm_repD(2,4) [OF rep1] by (simp add: hm_rep_def hm_shape_def)
    moreover have "frame (set (concat bs2)) (tabs hm) m m2"
      using frame_trans [OF mv(6) frame_mono [OF fr]] a mv(9) by (simp add: tabs_def)
    moreover have "drop k_resizing_work (concat bs2) = []" using True mv(3) drop by simp
    ultimately show ?thesis
      using that [of m2 "hm1\<lparr>ht2 := empty_tab\<rparr>" "[]"] run mv by simp
  next
    case False
    then have "\<not> (tab (ht2 hm1) \<noteq> None \<and> ht_size (ht2 hm1) = 0)"
      using u64_of_nat_eq_0 [OF small] mv(5) by auto
    then have "hm_help_resizing m hm = Inr (m1, hm1)"
      by (auto simp: hm_help_resizing_def loop split: option.splits)
    then show ?thesis
      using that [of m1 hm1 bs] rep1 mv drop False by simp
  qed
qed

end
