(* ===== verification/Hash_Map.thy ===== *)
theory Hash_Map
  imports Hashtable
begin

text \<open>
  The operations of a hash map (\<open>hm_insert\<close>, \<open>hm_lookup\<close>, \<open>hm_delete\<close>, \<open>h_scan\<close> of
  \<open>hashtable.cpp\<close>) meet their contract: what each does to the nodes a map holds, how loaded
  the map can become, and that a small map behaves as a finite map from keys to nodes.  Where
  the contract fails, the failing case is stated too.
\<close>

unbundle bit_operations_syntax

section \<open>Inserting a node\<close>

lemma hinit_spec:
  assumes "k < 64"
  obtains m' t where "hinit m (2 ^ k) = Inr (m', t)"
    and "tab_shape m' t (replicate (2 ^ k) [])" and "tab t = Some (h_brk m)"
    and "ht_size t = 0" and "frame {} {h_brk m} m m'" and "ht_mask t = mask k"
proof -
  have n: "unat ((2 :: u64) ^ k) = 2 ^ k" using assms by (intro u64_exp) simp_all
  have pos: "(2 :: u64) ^ k > 0" using assms by (simp add: word_less_nat_alt n)
  have m1: "(2 :: u64) ^ k - 1 = mask k" by (simp add: mask_eq_decr_exp)
  have "(2 :: u64) ^ k AND mask k = 0"
    by (rule bit_word_eqI) (auto simp: bit_simps)
  then show ?thesis
    using pos assms
    by (intro that [of "m\<lparr>h_arrs := (h_arrs m)(h_brk m \<mapsto> replicate (2 ^ k) None),
            h_brk := h_brk m + 1\<rparr>" "\<lparr>tab = Some (h_brk m), ht_size = 0, ht_mask = mask k\<rparr>"])
      (auto simp: hinit_def n m1 Let_def tab_shape_Some frame_def code_at_def list_all2_conv_all_nth)
qed

text \<open>The test that starts a resizing: nine nodes per bucket.\<close>

lemma load_factor:
  assumes "k < 64" and "n < 2 ^ 64"
  shows "(of_nat n :: u64) div (mask k + 1) > k_max_load_factor \<longleftrightarrow> 9 * 2 ^ k \<le> n"
proof -
  have "(mask k :: u64) + 1 = 2 ^ k" by (simp add: mask_eq_decr_exp)
  moreover have "unat ((2 :: u64) ^ k) = 2 ^ k" using assms by (intro u64_exp) simp_all
  moreover have "unat (of_nat n :: u64) = n"
    using assms by (simp add: unat_of_nat take_bit_nat_eq_self_iff)
  ultimately have "(of_nat n :: u64) div (mask k + 1) > k_max_load_factor \<longleftrightarrow> 8 < n div 2 ^ k"
    by (simp add: word_less_nat_alt unat_div k_max_load_factor_def)
  also have "\<dots> \<longleftrightarrow> 9 * 2 ^ k \<le> n"
    using less_eq_div_iff_mult_less_eq [of "2 ^ k" 9 n] by auto
  finally show ?thesis .
qed

lemma tab_shape_Nil: "tab_shape m ht bs \<Longrightarrow> bs = [] \<longleftrightarrow> tab ht = None"
  by (cases "tab ht") (auto simp: tab_shape_None tab_shape_Some)

text \<open>
  The load of a map.  Outside a resizing there are fewer than nine nodes per bucket.  A
  resizing starts with nine nodes per bucket of the older table and every insertion moves
  128 of them for the one it adds; \<open>load_pre\<close> is what holds just before nodes are moved.
\<close>

definition load_pre :: "addr list list \<Rightarrow> addr list list \<Rightarrow> bool" where
  "load_pre bs1 bs2 \<longleftrightarrow> (let n = length (concat bs1) + length (concat bs2) in
     if bs2 = [] then bs1 = [] \<or> n < 9 * length bs1
     else length bs1 = 2 * length bs2 \<and> length (concat bs2) + 128 * n \<le> 1161 * length bs2)"

definition load_ok :: "addr list list \<Rightarrow> addr list list \<Rightarrow> bool" where
  "load_ok bs1 bs2 \<longleftrightarrow> (let n = length (concat bs1) + length (concat bs2) in
     if bs2 = [] then bs1 = [] \<or> n < 9 * length bs1
     else length bs1 = 2 * length bs2 \<and> length (concat bs2) + 128 * (n + 1) \<le> 1161 * length bs2)"

lemma load_ok_pre: "load_ok bs1 bs2 \<Longrightarrow> load_pre bs1 bs2"
  by (auto simp: load_ok_def load_pre_def Let_def)

lemma load_arith: "r + 128 * n \<le> 1161 * c \<Longrightarrow> 0 < c \<Longrightarrow> n < 18 * (c :: nat)"
  by linarith

text \<open>Whatever the phase, a bucket of the newer table stands for fewer than ten nodes.\<close>

lemma load_ok_bound:
  assumes "load_ok bs1 bs2" and "bs1 \<noteq> []"
  shows "length (concat bs1) + length (concat bs2) < 10 * length bs1"
proof (cases "bs2 = []")
  case True
  then show ?thesis using assms by (simp add: load_ok_def Let_def)
next
  case False
  then have "length bs1 = 2 * length bs2" "0 < length bs2"
      "length (concat bs2) + 128 * (length (concat bs1) + length (concat bs2)) \<le> 1161 * length bs2"
    using assms by (simp_all add: load_ok_def Let_def)
  then show ?thesis using load_arith by fastforce
qed

lemma load_after_help:
  assumes "load_pre bs1 bs2" and "length bs1' = length bs1"
    and "length (concat bs1') + length (concat bs2') = length (concat bs1) + length (concat bs2)"
    and "length (concat bs2') = length (concat bs2) - k_resizing_work"
    and "concat bs2' = [] \<Longrightarrow> bs2' = []" and "bs2' = [] \<or> length bs2' = length bs2"
  shows "load_ok bs1' bs2'"
proof (cases "bs2 = []")
  case True
  then have "bs2' = []" using assms(6) by auto
  then show ?thesis using True assms(1-3) by (auto simp: load_ok_def load_pre_def Let_def)
next
  case False
  then have P: "length bs1 = 2 * length bs2" "0 < length bs2"
      "length (concat bs2) + 128 * (length (concat bs1) + length (concat bs2)) \<le> 1161 * length bs2"
    using assms(1) by (simp_all add: load_pre_def Let_def)
  show ?thesis
  proof (cases "bs2' = []")
    case True
    then have "length (concat bs1') < 9 * length bs1'" using load_arith [OF P(3,2)] P(1) assms(2,3) True by simp
    then show ?thesis using True by (simp add: load_ok_def)
  next
    case ne: False
    then have "0 < length (concat bs2')" using assms(5) by blast
    then show ?thesis
      using P ne assms(2-4,6) unfolding load_ok_def Let_def k_resizing_work_def
      by (simp del: length_concat)
  qed
qed

text \<open>The map invariant: representation, sizes and load.\<close>

definition hm_ok :: "hmem \<Rightarrow> HMap \<Rightarrow> addr list list \<Rightarrow> addr list list \<Rightarrow> bool" where
  "hm_ok m hm bs1 bs2 \<longleftrightarrow> hm_rep m hm bs1 bs2 \<and> load_ok bs1 bs2"

text \<open>The nodes of a map, in the order a lookup meets them.\<close>

abbreviation nodes_of :: "addr list list \<Rightarrow> addr list list \<Rightarrow> addr list" where
  "nodes_of bs1 bs2 \<equiv> concat bs1 @ concat bs2"

lemma help_mset:
  assumes "hm_rep m hm bs1 bs2" and "concat bs2' = drop k_resizing_work (concat bs2)"
  shows "mset (nodes_of (help_buckets m hm bs1 bs2) bs2') = mset (nodes_of bs1 bs2)"
proof -
  have "mset (concat bs2) = mset (take k_resizing_work (concat bs2)) + mset (concat bs2')"
    unfolding assms(2) by (metis append_take_drop_id mset_append)
  then show ?thesis using mset_help_buckets [OF assms(1)] by (simp add: ac_simps)
qed

lemma hm_help_resizing_ok:
  assumes "hm_rep m hm bs1 bs2" and "load_pre bs1 bs2"
  obtains m' hm' bs2' where "hm_help_resizing m hm = Inr (m', hm')"
    and "hm_ok m' hm' (help_buckets m hm bs1 bs2) bs2'"
    and "concat bs2' = drop k_resizing_work (concat bs2)"
    and "mset (nodes_of (help_buckets m hm bs1 bs2) bs2') = mset (nodes_of bs1 bs2)"
    and "frame (set (nodes_of bs1 bs2)) (tabs hm) m m'" and "tabs hm' \<subseteq> tabs hm"
    and "bs2' = [] \<or> length bs2' = length bs2"
proof -
  obtain m' hm' bs2' where H: "hm_help_resizing m hm = Inr (m', hm')"
      "hm_rep m' hm' (help_buckets m hm bs1 bs2) bs2'"
      "concat bs2' = drop k_resizing_work (concat bs2)"
      "concat bs2' = [] \<Longrightarrow> tab (ht2 hm') = None"
      "frame (set (concat bs2)) (tabs hm) m m'" "tab (ht1 hm') = tab (ht1 hm)"
      "tab (ht2 hm') = None \<or> tab (ht2 hm') = tab (ht2 hm) \<and> length bs2' = length bs2"
    using hm_help_resizing_spec [OF assms(1)] by metis
  note ms = help_mset [OF assms(1) H(3)]
  have nil: "bs2' = [] \<longleftrightarrow> tab (ht2 hm') = None"
    by (rule tab_shape_Nil [OF hm_shapeD(2) [OF hm_repD(1) [OF H(2)]]])
  have "load_ok (help_buckets m hm bs1 bs2) bs2'"
  proof (rule load_after_help [OF assms(2)])
    show "length (concat (help_buckets m hm bs1 bs2)) + length (concat bs2')
        = length (concat bs1) + length (concat bs2)"
      using arg_cong [OF ms, of size] by (simp only: size_mset length_append)
    show "length (concat bs2') = length (concat bs2) - k_resizing_work"
      by (simp only: H(3) length_drop)
  qed (use H nil in \<open>auto simp del: concat_eq_Nil_conv\<close>)
  moreover have "frame (set (nodes_of bs1 bs2)) (tabs hm) m m'"
    by (rule frame_mono [OF H(5)]) auto
  moreover have "tabs hm' \<subseteq> tabs hm" using H(6,7) by (auto simp: tabs_def)
  ultimately show ?thesis using that H ms nil unfolding hm_ok_def by blast
qed


text \<open>The four stages of an insertion.\<close>

lemma ensure_tab:
  assumes "hm_ok m hm bs1 bs2"
  obtains m1 t1 bs1' where
      "(if tab (ht1 hm) = None then hinit m 4 else Inr (m, ht1 hm)) = Inr (m1, t1)"
    and "hm_ok m1 (hm\<lparr>ht1 := t1\<rparr>) bs1' bs2" and "concat bs1' = concat bs1"
    and "tab t1 \<noteq> None" and "frame {} {h_brk m..} m m1"
    and "set_option (tab t1) \<subseteq> tabs hm \<union> {h_brk m..}"
proof (cases "tab (ht1 hm)")
  case (Some a)
  then show ?thesis using that [of m "ht1 hm" bs1] assms by (auto simp: tabs_def)
next
  case None
  have ok: "hm_rep m hm bs1 bs2" "load_ok bs1 bs2" using assms by (auto simp: hm_ok_def)
  note S = hm_shapeD [OF hm_repD(1) [OF ok(1)]]
  have none: "tab (ht2 hm) = None" using S(4) None by (cases "tab (ht2 hm)") auto
  then have nil: "bs1 = []" "bs2 = []" using S(1,2) None by (simp_all add: tab_shape_None)
  obtain m1 t where I: "hinit m 4 = Inr (m1, t)" "tab_shape m1 t (replicate 4 [])"
      "tab t = Some (h_brk m)" "ht_size t = 0" "frame {} {h_brk m} m m1"
    using hinit_spec [of 2 m] by simp blast
  have "hm_ok m1 (hm\<lparr>ht1 := t\<rparr>) (replicate 4 []) bs2"
    using I none nil by (simp add: hm_ok_def hm_rep_def hm_shape_def tab_shape_None load_ok_def
        hm_repD(3) [OF ok(1)] concat_replicate_trivial)
  then show ?thesis
    using that [of m1 t "replicate 4 []"] I None nil frame_mono [OF I(5), of "{}" "{h_brk m..}"]
    by (simp add: concat_replicate_trivial)
qed

lemma insert_front:
  assumes "hm_rep m hm bs1 bs2" and "tab (ht1 hm) = Some a"
    and "h_nodes m x = Some n" and "x \<notin> set (nodes_of bs1 bs2)" and "x < h_brk m"
    and "length (nodes_of bs1 bs2) + 1 < 2 ^ 64"
  obtains m' where "hinsert m (ht1 hm) (Some x) = Inr (m', (ht1 hm)\<lparr>ht_size := ht_size (ht1 hm) + 1\<rparr>)"
    and "hm_rep m' (hm\<lparr>ht1 := (ht1 hm)\<lparr>ht_size := ht_size (ht1 hm) + 1\<rparr>\<rparr>)
           (put_node (code_at m) (ht_mask (ht1 hm)) x bs1) bs2"
    and "frame {x} {a} m m'"
proof -
  note R = hm_repD [OF assms(1)] and S = hm_shapeD [OF hm_repD(1) [OF assms(1)]]
  have x: "x \<notin> set (concat bs1)" "x \<notin> set (concat bs2)" using assms(4) by auto
  obtain m' where m': "hinsert m (ht1 hm) (Some x)
        = Inr (m', (ht1 hm)\<lparr>ht_size := ht_size (ht1 hm) + 1\<rparr>)"
      "tab_shape m' (ht1 hm) (put_node (code_at m) (ht_mask (ht1 hm)) x bs1)" "frame {x} {a} m m'"
    using hinsert_spec [OF S(1) assms(2,3) x(1) assms(5)] assms(3) unfolding put_node_def
    by (metis code_at_Some)
  have t2: "tab_shape m' (ht2 hm) bs2"
    using S(4) assms(2) x(2) by (intro tab_shape_frame [OF S(2) m'(3)]) auto
  note P = put_node_facts [OF S(1), of x]
  have "hm_shape m' (hm\<lparr>ht1 := (ht1 hm)\<lparr>ht_size := ht_size (ht1 hm) + 1\<rparr>\<rparr>)
      (put_node (code_at m) (ht_mask (ht1 hm)) x bs1) bs2"
    using m'(2) t2 S(3-5) x P(3) assms(2) unfolding hm_shape_def by (simp del: set_concat)
  then have "hm_rep m' (hm\<lparr>ht1 := (ht1 hm)\<lparr>ht_size := ht_size (ht1 hm) + 1\<rparr>\<rparr>)
      (put_node (code_at m) (ht_mask (ht1 hm)) x bs1) bs2"
    using R(2,3) P(2) assms(2,6) unfolding hm_rep_def by (simp del: length_concat)
  then show ?thesis using that m' by blast
qed

lemma hm_start_resizing_spec:
  assumes "hm_rep m hm bs1 bs2" and "tab (ht1 hm) \<noteq> None" and "tab (ht2 hm) = None"
    and "9 * length bs1 \<le> length (concat bs1)"
  obtains m' hm' where "hm_start_resizing m hm = Inr (m', hm')"
    and "hm_rep m' hm' (replicate (2 * length bs1) []) bs1"
    and "frame {} {h_brk m..} m m'" and "tabs hm' \<subseteq> tabs hm \<union> {h_brk m..}"
proof -
  note R = hm_repD [OF assms(1)] and S = hm_shapeD [OF hm_repD(1) [OF assms(1)]]
  obtain a where a: "tab (ht1 hm) = Some a" using assms(2) by auto
  with S(1) obtain k where k: "k < 64" "length bs1 = 2 ^ k" "ht_mask (ht1 hm) = mask k"
      and brk: "a < h_brk m"
    by (auto simp: tab_shape_Some)
  have "9 * 2 ^ k < (2 :: nat) ^ 64" using assms(4) R(4) k(2) by linarith
  then have "(2 :: nat) ^ k < 2 ^ 61" by simp
  then have k': "k + 1 < 64" using power_less_imp_less_exp [of "2 :: nat" k 61] by simp
  have "(mask k + 1) * 2 = (2 :: u64) ^ (k + 1)" by (simp add: mask_eq_decr_exp)
  moreover obtain m' t where I: "hinit m (2 ^ (k + 1)) = Inr (m', t)"
      "tab_shape m' t (replicate (2 ^ (k + 1)) [])" "tab t = Some (h_brk m)" "ht_size t = 0"
      "frame {} {h_brk m} m m'"
    using hinit_spec [OF k'] by metis
  ultimately have run: "hm_start_resizing m hm
      = Inr (m', hm\<lparr>ht2 := ht1 hm, ht1 := t, resizing_pos := 0\<rparr>)"
    using assms(3) k(3) by (simp add: hm_start_resizing_def)
  have "tab_shape m' (ht1 hm) bs1"
    using brk a by (intro tab_shape_frame [OF S(1) I(5)]) auto
  then have "hm_rep m' (hm\<lparr>ht2 := ht1 hm, ht1 := t, resizing_pos := 0\<rparr>)
      (replicate (2 * length bs1) []) bs1"
    using I R(2,4) k(2) a brk by (simp add: hm_rep_def hm_shape_def concat_replicate_trivial)
  then show ?thesis
    using that run frame_mono [OF I(5), of "{}" "{h_brk m..}"] I(3) by (auto simp: tabs_def)
qed

lemma load_pre_insert:
  assumes "load_ok bs1 bs2" and "bs1 \<noteq> []" and "length bs1' = length bs1"
    and "length (concat bs1') = Suc (length (concat bs1))"
    and "bs2 = [] \<Longrightarrow> length (concat bs1') < 9 * length bs1"
  shows "load_pre bs1' bs2"
  using assms by (auto simp: load_ok_def load_pre_def Let_def simp del: length_concat)

lemma load_pre_start:
  "length (concat bs) \<le> 9 * length bs \<Longrightarrow> bs \<noteq> [] \<Longrightarrow> load_pre (replicate (2 * length bs) []) bs"
  by (simp add: load_pre_def Let_def concat_replicate_trivial del: length_concat)

lemma hm_insert_spec:
  assumes "hm_ok m hm bs1 bs2" and n: "h_nodes m x = Some n"
    and fresh: "x \<notin> set (nodes_of bs1 bs2)" and "x < h_brk m"
    and len: "length (nodes_of bs1 bs2) + 1 < 2 ^ 64"
  obtains m' hm' bs1' bs2' where "hm_insert m hm (Some x) = Inr (m', hm')"
    and "hm_ok m' hm' bs1' bs2'"
    and "mset (nodes_of bs1' bs2') = add_mset x (mset (nodes_of bs1 bs2))"
    and "frame (insert x (set (nodes_of bs1 bs2))) (tabs hm \<union> {h_brk m..}) m m'"
    and "tabs hm' \<subseteq> tabs hm \<union> {h_brk m..}"
proof -
  let ?X = "insert x (set (nodes_of bs1 bs2))" and ?A = "tabs hm \<union> {h_brk m..}"
  obtain m1 t1 bs1a where s1:
      "(if tab (ht1 hm) = None then hinit m 4 else Inr (m, ht1 hm)) = Inr (m1, t1)"
      "hm_ok m1 (hm\<lparr>ht1 := t1\<rparr>) bs1a bs2" "concat bs1a = concat bs1"
      "tab t1 \<noteq> None" "frame {} {h_brk m..} m m1" "set_option (tab t1) \<subseteq> ?A"
    using ensure_tab [OF assms(1)] by blast
  let ?hm1 = "hm\<lparr>ht1 := t1\<rparr>" and ?t2 = "t1\<lparr>ht_size := ht_size t1 + 1\<rparr>"
  let ?bs = "put_node (code_at m1) (ht_mask t1) x bs1a"
  obtain a where a: "tab t1 = Some a" using s1(4) by auto
  have rep1: "hm_rep m1 ?hm1 bs1a bs2" "load_ok bs1a bs2" using s1(2) by (auto simp: hm_ok_def)
  note S1 = hm_shapeD [OF hm_repD(1) [OF rep1(1)]]
  obtain m2 where s2: "hinsert m1 t1 (Some x) = Inr (m2, ?t2)"
      "hm_rep m2 (hm\<lparr>ht1 := ?t2\<rparr>) ?bs bs2" "frame {x} {a} m1 m2"
    using insert_front [OF rep1(1), of a x n] a n fresh len s1(3,5) frame_nodes [OF s1(5)]
      frame_brk [OF s1(5)] \<open>x < h_brk m\<close> by (auto simp del: length_concat set_concat)
  have P: "mset (concat ?bs) = add_mset x (mset (concat bs1))"
      "length (concat ?bs) = Suc (length (concat bs1a))"
    using put_node_facts [OF S1(1), of x] a s1(3) by (simp_all del: length_concat set_concat)
  have fr2: "frame ?X ?A m m2"
    using frame_trans [OF frame_mono [OF s1(5)] frame_mono [OF s2(3)], of ?X ?A] s1(6) a by auto
  have set2: "set (nodes_of ?bs bs2) = ?X"
    using arg_cong [OF P(1), of set_mset] by auto
  have nil2: "bs2 = [] \<longleftrightarrow> tab (ht2 hm) = None" and ne1: "bs1a \<noteq> []"
    using tab_shape_Nil [OF S1(1)] tab_shape_Nil [OF S1(2)] a by simp_all
  from S1(1) a obtain k where k: "k < 64" "length bs1a = 2 ^ k" "ht_mask t1 = mask k"
    by (auto simp: tab_shape_Some)
  have full: "ht_size ?t2 div (ht_mask ?t2 + 1) > k_max_load_factor
      \<longleftrightarrow> 9 * length bs1a \<le> length (concat ?bs)"
    using load_factor [OF k(1), of "length (concat ?bs)"] hm_repD(2,4) [OF s2(2)] k(2,3)
    by (simp del: length_concat)
  obtain m3 hm3 bs1b bs2b where s3:
      "(if tab (ht2 (hm\<lparr>ht1 := ?t2\<rparr>)) = None \<and> ht_size ?t2 div (ht_mask ?t2 + 1) > k_max_load_factor
        then hm_start_resizing m2 (hm\<lparr>ht1 := ?t2\<rparr>) else Inr (m2, hm\<lparr>ht1 := ?t2\<rparr>)) = Inr (m3, hm3)"
      "hm_rep m3 hm3 bs1b bs2b" "load_pre bs1b bs2b"
      "mset (nodes_of bs1b bs2b) = mset (nodes_of ?bs bs2)"
      "frame {} {h_brk m2..} m2 m3" "tabs hm3 \<subseteq> ?A"
  proof (cases "tab (ht2 hm) = None \<and> 9 * length bs1a \<le> length (concat ?bs)")
    case True
    then have b2: "bs2 = []" using nil2 by simp
    obtain m3 hm3 where st: "hm_start_resizing m2 (hm\<lparr>ht1 := ?t2\<rparr>) = Inr (m3, hm3)"
        "hm_rep m3 hm3 (replicate (2 * length ?bs) []) ?bs"
        "frame {} {h_brk m2..} m2 m3" "tabs hm3 \<subseteq> tabs (hm\<lparr>ht1 := ?t2\<rparr>) \<union> {h_brk m2..}"
      using hm_start_resizing_spec [OF s2(2)] True a by (auto simp del: length_concat)
    have "length (concat ?bs) \<le> 9 * length ?bs"
      using rep1(2) ne1 b2 P(2) by (simp add: load_ok_def Let_def del: length_concat)
    moreover have "?bs \<noteq> []" using ne1 by (metis length_0_conv length_put_node)
    ultimately have "load_pre (replicate (2 * length ?bs) []) ?bs" by (rule load_pre_start)
    moreover have "tabs hm3 \<subseteq> ?A"
      using st(4) s1(6) frame_brk [OF fr2] by (auto simp: tabs_def)
    ultimately show ?thesis
      using that [of m3 hm3 "replicate (2 * length ?bs) []" ?bs] st True full b2
      by (simp add: concat_replicate_trivial del: length_concat)
  next
    case False
    have "load_pre ?bs bs2"
      using False nil2 by (intro load_pre_insert [OF rep1(2) ne1 _ P(2)]) (auto simp del: length_concat)
    moreover have "tabs (hm\<lparr>ht1 := ?t2\<rparr>) \<subseteq> ?A"
      using s1(6) by (auto simp: tabs_def)
    ultimately show ?thesis
      using that [of m2 "hm\<lparr>ht1 := ?t2\<rparr>" ?bs bs2] False full s2(2)
      by (auto simp del: length_concat)
  qed
  obtain m' hm' bs2' where s4: "hm_help_resizing m3 hm3 = Inr (m', hm')"
      "hm_ok m' hm' (help_buckets m3 hm3 bs1b bs2b) bs2'"
      "mset (nodes_of (help_buckets m3 hm3 bs1b bs2b) bs2') = mset (nodes_of bs1b bs2b)"
      "frame (set (nodes_of bs1b bs2b)) (tabs hm3) m3 m'" "tabs hm' \<subseteq> tabs hm3"
    using hm_help_resizing_ok [OF s3(2,3)] by metis
  have "set (nodes_of bs1b bs2b) = ?X" using mset_eq_setD [OF s3(4)] set2 by simp
  moreover have "{h_brk m2..} \<subseteq> ?A" using frame_brk [OF fr2] by auto
  ultimately have "frame ?X ?A m m'"
    using frame_trans [OF fr2 frame_trans [OF frame_mono [OF s3(5)] frame_mono [OF s4(4)]]] s3(6)
    by (simp del: set_append)
  moreover have "hm_insert m hm (Some x) = Inr (m', hm')"
    unfolding hm_insert_def s1(1) using s2(1) s3(1) s4(1) by (simp add: Let_def)
  ultimately show ?thesis
    using that s4 s3 P(1) by (simp add: subset_trans [OF s4(5) s3(6)] del: mset_append) simp
qed

section \<open>Lookup and deletion\<close>

text \<open>The first match of a chain is the first match of the whole table.\<close>

lemma find_bucket:
  assumes "tab_shape m ht bs" and "tab ht \<noteq> None"
  shows "find (matches m code E) (concat bs) = find (matches m code E) (bs ! bucket ht code)"
  using assms tab_shape_bucket [OF assms(1)]
  by (intro find_concat_at bucket_less) (auto simp: matches_def)

lemma hlookup_find:
  assumes "tab_shape m ht bs"
    and "\<forall>y \<in> set (concat bs). code_at m y = code \<longrightarrow> eq y = Inr (E y)"
  shows "(find (matches m code E) (concat bs) = None \<and> hlookup m ht code eq = Inr None) \<or>
    (\<exists>a i xs x ys. find (matches m code E) (concat bs) = Some x \<and> tab ht = Some a \<and>
       i < length bs \<and> bs ! i = xs @ x # ys \<and> hlookup m ht code eq = Inr (Some (loc_in a i xs)))"
proof (cases "tab ht")
  case None
  then show ?thesis using assms(1) by (simp add: tab_shape_None)
next
  case (Some a)
  let ?i = "bucket ht code" and ?P = "matches m code E"
  have i: "?i < length bs" using assms(1) Some by (intro bucket_less) auto
  have f: "find ?P (concat bs) = find ?P (bs ! ?i)"
    using find_bucket [OF assms(1)] Some by simp
  show ?thesis
  proof (cases "\<exists>y \<in> set (bs ! ?i). ?P y")
    case False
    then have "find ?P (bs ! ?i) = None" by (auto simp: find_None_iff)
    then show ?thesis using hlookup_spec [OF assms(1) Some assms(2)] False f by auto
  next
    case True
    define xs where "xs = takeWhile (\<lambda>y. \<not> ?P y) (bs ! ?i)"
    from takeWhile_split [OF True] obtain x ys where
        "bs ! ?i = xs @ x # ys" "find ?P (bs ! ?i) = Some x"
      unfolding xs_def by blast
    moreover have "hlookup m ht code eq = Inr (Some (loc_in a ?i xs))"
      using hlookup_spec [OF assms(1) Some assms(2)] True by (simp add: xs_def)
    ultimately show ?thesis using Some i f by auto
  qed
qed

lemma get_loc_found:
  assumes "tab_shape m ht bs" and "tab ht = Some a" and "i < length bs" and "bs ! i = xs @ x # ys"
  shows "get_loc m (loc_in a i xs) = Inr (Some x)"
proof -
  obtain ps where "h_arrs m a = Some ps" "length ps = length bs" "chain m (ps ! i) (bs ! i)"
    using tab_shape_slot [OF assms(1,3)] assms(2) by auto
  then show ?thesis using get_loc_in [of m a ps i xs "x # ys"] assms(3,4) by (metis seg.simps(2))
qed

lemma hm_lookup_spec:
  assumes "hm_ok m hm bs1 bs2"
    and "\<forall>y \<in> set (nodes_of bs1 bs2). code_at m y = code \<longrightarrow> eq y = Inr (E y)"
  obtains m' hm' bs2' where
      "hm_lookup m hm code eq = Inr (m', hm',
         find (matches m code E) (nodes_of (help_buckets m hm bs1 bs2) bs2'))"
    and "hm_ok m' hm' (help_buckets m hm bs1 bs2) bs2'"
    and "concat bs2' = drop k_resizing_work (concat bs2)"
    and "mset (nodes_of (help_buckets m hm bs1 bs2) bs2') = mset (nodes_of bs1 bs2)"
    and "frame (set (nodes_of bs1 bs2)) (tabs hm) m m'" and "tabs hm' \<subseteq> tabs hm"
proof -
  let ?bs1 = "help_buckets m hm bs1 bs2" and ?P = "matches m code E"
  have "hm_rep m hm bs1 bs2" "load_pre bs1 bs2"
    using assms(1) load_ok_pre by (auto simp: hm_ok_def)
  then obtain m' hm' bs2' where H: "hm_help_resizing m hm = Inr (m', hm')"
      "hm_ok m' hm' ?bs1 bs2'" "concat bs2' = drop k_resizing_work (concat bs2)"
      "mset (nodes_of ?bs1 bs2') = mset (nodes_of bs1 bs2)"
      "frame (set (nodes_of bs1 bs2)) (tabs hm) m m'" "tabs hm' \<subseteq> tabs hm"
    using hm_help_resizing_ok by metis
  have "hm_shape m' hm' ?bs1 bs2'" using H(2) by (auto simp: hm_ok_def hm_rep_def)
  note S = hm_shapeD [OF this]
  have E: "\<forall>y \<in> set (nodes_of ?bs1 bs2'). code_at m' y = code \<longrightarrow> eq y = Inr (E y)"
    using assms(2) mset_eq_setD [OF H(4)] frame_code [OF H(5)] by (simp only:)
  have P: "matches m' code E = ?P"
    by (simp add: matches_def frame_code [OF H(5)] fun_eq_iff)
  note f1 = hlookup_find [OF S(1), of code eq E, unfolded P]
    and f2 = hlookup_find [OF S(2), of code eq E, unfolded P]
  have "hm_lookup m hm code eq = Inr (m', hm', find ?P (nodes_of ?bs1 bs2'))"
  proof (cases "find ?P (concat ?bs1)")
    case None
    then have "hlookup m' (ht1 hm') code eq = Inr None" using f1 E by auto
    then show ?thesis
      using f2 E None get_loc_found [OF S(2)] H(1)
      by (auto simp: hm_lookup_def find_append)
  next
    case (Some x)
    then show ?thesis
      using f1 E get_loc_found [OF S(1)] H(1) by (auto simp: hm_lookup_def find_append)
  qed
  then show ?thesis using that H by blast
qed

text \<open>What a client of the lookup needs: a matching node of the map, if there is one.\<close>

lemma hm_lookup_member:
  assumes "hm_ok m hm bs1 bs2"
    and "\<forall>y \<in> set (nodes_of bs1 bs2). code_at m y = code \<longrightarrow> eq y = Inr (E y)"
  obtains m' hm' x bs1' bs2' where "hm_lookup m hm code eq = Inr (m', hm', x)"
    and "hm_ok m' hm' bs1' bs2'" and "mset (nodes_of bs1' bs2') = mset (nodes_of bs1 bs2)"
    and "frame (set (nodes_of bs1 bs2)) (tabs hm) m m'"
    and "case x of None \<Rightarrow> \<forall>y \<in> set (nodes_of bs1 bs2). \<not> matches m code E y
       | Some a \<Rightarrow> a \<in> set (nodes_of bs1 bs2) \<and> matches m code E a"
    and "tabs hm' \<subseteq> tabs hm"
proof -
  obtain m' hm' bs1' bs2' where L:
      "hm_lookup m hm code eq = Inr (m', hm', find (matches m code E) (nodes_of bs1' bs2'))"
      "hm_ok m' hm' bs1' bs2'" "mset (nodes_of bs1' bs2') = mset (nodes_of bs1 bs2)"
      "frame (set (nodes_of bs1 bs2)) (tabs hm) m m'" "tabs hm' \<subseteq> tabs hm"
    using hm_lookup_spec [OF assms] by metis
  let ?x = "find (matches m code E) (nodes_of bs1' bs2')"
  have nodes: "set (nodes_of bs1' bs2') = set (nodes_of bs1 bs2)" by (rule mset_eq_setD [OF L(3)])
  have "case ?x of None \<Rightarrow> \<forall>y \<in> set (nodes_of bs1 bs2). \<not> matches m code E y
       | Some a \<Rightarrow> a \<in> set (nodes_of bs1 bs2) \<and> matches m code E a"
  proof (cases ?x)
    case None
    then have "\<forall>y \<in> set (nodes_of bs1' bs2'). \<not> matches m code E y" by (metis find_None_iff)
    then show ?thesis unfolding None option.case nodes .
  next
    case (Some a)
    then have "matches m code E a \<and> a \<in> set (nodes_of bs1' bs2')" by (metis find_Some_iff nth_mem)
    then show ?thesis unfolding Some option.case nodes by blast
  qed
  then show ?thesis using that L by blast
qed

text \<open>A map does not see what happens outside its nodes and its tables.\<close>

lemma hm_ok_other:
  assumes "hm_ok m hm bs1 bs2" and "\<forall>x \<in> set (nodes_of bs1 bs2). h_nodes m' x = h_nodes m x"
    and "\<forall>b \<in> tabs hm. h_arrs m' b = h_arrs m b" and "h_brk m \<le> h_brk m'"
  shows "hm_ok m' hm bs1 bs2"
proof -
  have tab: "tab_shape m' ht bs" if "tab_shape m ht bs" "set (concat bs) \<subseteq> set (nodes_of bs1 bs2)"
      and arr: "set_option (tab ht) \<subseteq> tabs hm" for ht bs
  proof (cases "tab ht")
    case None
    then show ?thesis using that(1) by (simp add: tab_shape_None)
  next
    case (Some a)
    have same: "h_nodes m' x = h_nodes m x" if "i < length bs" "x \<in> set (bs ! i)" for i x
      using assms(2) \<open>set (concat bs) \<subseteq> _\<close> nth_in_concat [OF that] by blast
    note T = \<open>tab_shape m ht bs\<close> [unfolded tab_shape_Some [OF Some]]
    have chains: "list_all2 (chain m') ps bs" if "list_all2 (chain m) ps bs" for ps
      using that same seg_cong [of _ m' m] by (fastforce simp: list_all2_conv_all_nth)
    have code: "code_at m' x = code_at m x" if "i < length bs" "x \<in> set (bs ! i)" for i x
      using same [OF that] by (simp add: code_at_def)
    show ?thesis
      unfolding tab_shape_Some [OF Some]
    proof (intro conjI)
      show "a < h_brk m'" using T assms(4) by simp
      have "h_arrs m' a = h_arrs m a" using assms(3) arr Some by simp
      then show "\<exists>ps. h_arrs m' a = Some ps \<and> list_all2 (chain m') ps bs" using T chains by auto
      show "\<forall>i < length bs. \<forall>x \<in> set (bs ! i). bucket ht (code_at m' x) = i" using T code by simp
      show "\<forall>x \<in> set (concat bs). x < h_brk m'" using T assms(4) by (meson less_le_trans)
    qed (use T in blast)+
  qed
  have "hm_shape m hm bs1 bs2" using assms(1) by (simp add: hm_ok_def hm_rep_def)
  then have "hm_shape m' hm bs1 bs2" unfolding hm_shape_def using tab by (simp add: tabs_def)
  then show ?thesis using assms(1) by (simp add: hm_ok_def hm_rep_def)
qed

lemma hm_ok_alloc:
  assumes "hm_ok m hm bs1 bs2" and "\<forall>x \<in> set (nodes_of bs1 bs2). h_nodes m' x = h_nodes m x"
    and "h_arrs m' = h_arrs m" and "h_brk m \<le> h_brk m'"
  shows "hm_ok m' hm bs1 bs2"
  using hm_ok_other [OF assms(1,2) _ assms(4)] assms(3) by simp

lemma concat_bucket_remove:
  assumes "i < length bs" and "bs ! i = xs @ x # ys"
  shows "mset (concat bs) = add_mset x (mset (concat (bs[i := xs @ ys])))"
    and "length (concat bs) = Suc (length (concat (bs[i := xs @ ys])))"
    and "set (concat (bs[i := xs @ ys])) \<subseteq> set (concat bs)"
proof -
  show *: "mset (concat bs) = add_mset x (mset (concat (bs[i := xs @ ys])))"
    using mset_concat_update [OF assms(1), of "xs @ ys"] assms(2) by simp
  show "length (concat bs) = Suc (length (concat (bs[i := xs @ ys])))"
    using arg_cong [OF *, of size] by simp
  show "set (concat (bs[i := xs @ ys])) \<subseteq> set (concat bs)"
    using arg_cong [OF *, of set_mset] by (auto simp only: set_mset_mset set_mset_add_mset_insert)
qed

lemma load_ok_remove:
  "load_ok bs1 bs2 \<Longrightarrow> length bs1' = length bs1 \<Longrightarrow> length (concat bs1) = Suc (length (concat bs1')) \<Longrightarrow>
   load_ok bs1' bs2"
  by (cases "bs2 = []") (auto simp: load_ok_def Let_def simp del: length_concat)

lemma detach_newer:
  assumes "hm_ok m hm bs1 bs2" and a: "tab (ht1 hm) = Some a"
    and i: "i < length bs1" "bs1 ! i = xs @ x # ys"
  obtains m' where "h_detach m (ht1 hm) (loc_in a i xs)
       = Inr (m', (ht1 hm)\<lparr>ht_size := ht_size (ht1 hm) - 1\<rparr>, Some x)"
    and "hm_ok m' (hm\<lparr>ht1 := (ht1 hm)\<lparr>ht_size := ht_size (ht1 hm) - 1\<rparr>\<rparr>) (bs1[i := xs @ ys]) bs2"
    and "frame (set (concat bs1)) (tabs hm) m m'"
proof -
  let ?bs = "bs1[i := xs @ ys]"
  have rep: "hm_rep m hm bs1 bs2" "load_ok bs1 bs2" using assms(1) by (auto simp: hm_ok_def)
  note R = hm_repD [OF rep(1)] and S = hm_shapeD [OF hm_repD(1) [OF rep(1)]]
  note C = concat_bucket_remove [OF i]
  obtain m' where m': "\<And>t. h_detach m t (loc_in a i xs) = Inr (m', t\<lparr>ht_size := ht_size t - 1\<rparr>, Some x)"
      "tab_shape m' (ht1 hm) ?bs" "frame (set xs) {a} m m'"
    using h_detach_spec [OF S(1) a i] by blast
  have xs: "set xs \<subseteq> set (concat bs1)" using nth_in_concat [OF i(1)] i(2) by auto
  then have "tab_shape m' (ht2 hm) bs2"
    using S(3,4) a by (intro tab_shape_frame [OF S(2) m'(3)]) blast+
  then have "hm_shape m' (hm\<lparr>ht1 := (ht1 hm)\<lparr>ht_size := ht_size (ht1 hm) - 1\<rparr>\<rparr>) ?bs bs2"
    using m'(2) S(3-5) C(3) unfolding hm_shape_def by (simp del: set_concat) blast
  moreover have "load_ok ?bs bs2" using load_ok_remove [OF rep(2) _ C(2)] by simp
  ultimately have "hm_ok m' (hm\<lparr>ht1 := (ht1 hm)\<lparr>ht_size := ht_size (ht1 hm) - 1\<rparr>\<rparr>) ?bs bs2"
    using R(2-4) C(2) by (simp add: hm_ok_def hm_rep_def del: length_concat)
  moreover have "frame (set (concat bs1)) (tabs hm) m m'"
    using xs a by (intro frame_mono [OF m'(3)]) (auto simp: tabs_def)
  ultimately show ?thesis using that m'(1) by blast
qed

text \<open>
  A deletion is right when the node found is in the newer table, as it is when the nodes
  left in the older one have all been moved before the search.
\<close>

lemma hm_delete_spec:
  assumes "hm_ok m hm bs1 bs2"
    and "\<forall>y \<in> set (nodes_of bs1 bs2). code_at m y = code \<longrightarrow> eq y = Inr (E y)"
    and newer: "find (matches m code E) (concat (help_buckets m hm bs1 bs2)) = None \<Longrightarrow>
      find (matches m code E) (drop k_resizing_work (concat bs2)) = None"
  defines "r \<equiv> find (matches m code E) (concat (help_buckets m hm bs1 bs2))"
  obtains m' hm' bs1' bs2' where "hm_delete m hm code eq = Inr (m', hm', r)"
    and "hm_ok m' hm' bs1' bs2'"
    and "mset (nodes_of bs1' bs2') + mset_set (set_option r) = mset (nodes_of bs1 bs2)"
    and "frame (set (nodes_of bs1 bs2)) (tabs hm) m m'" and "tabs hm' \<subseteq> tabs hm"
proof -
  let ?bs1 = "help_buckets m hm bs1 bs2" and ?P = "matches m code E"
  have "hm_rep m hm bs1 bs2" "load_pre bs1 bs2"
    using assms(1) load_ok_pre by (auto simp: hm_ok_def)
  then obtain m1 hm1 bs2' where H: "hm_help_resizing m hm = Inr (m1, hm1)"
      "hm_ok m1 hm1 ?bs1 bs2'" "concat bs2' = drop k_resizing_work (concat bs2)"
      "mset (nodes_of ?bs1 bs2') = mset (nodes_of bs1 bs2)"
      "frame (set (nodes_of bs1 bs2)) (tabs hm) m m1" "tabs hm1 \<subseteq> tabs hm"
    using hm_help_resizing_ok by metis
  have "hm_shape m1 hm1 ?bs1 bs2'" using H(2) by (auto simp: hm_ok_def hm_rep_def)
  note S = hm_shapeD [OF this]
  have E: "\<forall>y \<in> set (nodes_of ?bs1 bs2'). code_at m1 y = code \<longrightarrow> eq y = Inr (E y)"
    using assms(2) mset_eq_setD [OF H(4)] frame_code [OF H(5)] by (simp only:)
  have P: "matches m1 code E = ?P"
    by (simp add: matches_def frame_code [OF H(5)] fun_eq_iff)
  note f1 = hlookup_find [OF S(1), of code eq E, unfolded P]
    and f2 = hlookup_find [OF S(2), of code eq E, unfolded P]
  show ?thesis
  proof (cases r)
    case None
    then have "find ?P (concat bs2') = None" using newer by (simp only: H(3) r_def)
    then have "hm_delete m hm code eq = Inr (m1, hm1, None)"
      using f1 f2 E H(1) None by (auto simp: hm_delete_def r_def)
    then show ?thesis using that H None by simp
  next
    case (Some x)
    then obtain a i xs ys where at: "tab (ht1 hm1) = Some a" "i < length ?bs1"
        "?bs1 ! i = xs @ x # ys" "hlookup m1 (ht1 hm1) code eq = Inr (Some (loc_in a i xs))"
      using f1 E by (auto simp: r_def)
    obtain m' where D: "h_detach m1 (ht1 hm1) (loc_in a i xs)
          = Inr (m', (ht1 hm1)\<lparr>ht_size := ht_size (ht1 hm1) - 1\<rparr>, Some x)"
        "hm_ok m' (hm1\<lparr>ht1 := (ht1 hm1)\<lparr>ht_size := ht_size (ht1 hm1) - 1\<rparr>\<rparr>)
           (?bs1[i := xs @ ys]) bs2'"
        "frame (set (concat ?bs1)) (tabs hm1) m1 m'"
      using detach_newer [OF H(2) at(1-3)] by blast
    have "set (concat ?bs1) \<subseteq> set (nodes_of bs1 bs2)"
      using mset_eq_setD [OF H(4)] by (metis set_append sup_ge1)
    then have "frame (set (nodes_of bs1 bs2)) (tabs hm) m m'"
      using frame_trans [OF H(5) frame_mono [OF D(3)]] H(6) by blast
    moreover have "hm_delete m hm code eq
        = Inr (m', hm1\<lparr>ht1 := (ht1 hm1)\<lparr>ht_size := ht_size (ht1 hm1) - 1\<rparr>\<rparr>, r)"
      using H(1) at(4) D(1) Some by (simp add: hm_delete_def)
    ultimately show ?thesis
      using that D(2) H(4,6) Some concat_bucket_remove(1) [OF at(2,3)] by (simp add: tabs_def)
  qed
qed

text \<open>
  A node found in the older table is detached with the size field of the newer one, so the
  older table keeps a size that counts one node too many.  The loop that moves nodes then
  looks for a node that is not there and leaves the bucket array.
\<close>

lemma help_excess:
  assumes "hm_shape m hm bs1 bs2" and "tab (ht2 hm) \<noteq> None"
    and "ht_size (ht2 hm) = of_nat (length (concat bs2) + 1)"
    and "length (concat bs2) < k_resizing_work"
  shows "hm_help_resizing m hm = Inl OutOfBounds"
proof -
  let ?k = "length (concat bs2)"
  have small: "?k + 1 < 2 ^ 64" using assms(4) by (simp add: k_resizing_work_def del: length_concat)
  obtain m' hm' bs2' where mv: "help_loop 0 m hm = help_loop ?k m' hm'"
      "hm_shape m' hm' (put_all m hm (take ?k (concat bs2)) bs1) bs2'"
      "concat bs2' = []" "ht_size (ht2 hm') = 1" "tab (ht2 hm') = tab (ht2 hm)"
    using help_loop_moves [OF assms(1,3) small, of ?k 0] assms(4)
    by (auto simp del: length_concat concat_eq_Nil_conv)
  have "help_loop ?k m' hm' = Inl OutOfBounds"
    using mv assms(2,4) by (intro help_loop_runs_off [OF mv(2)]) simp_all
  then show ?thesis by (simp add: hm_help_resizing_def mv(1))
qed

lemma hm_delete_older:
  assumes "hm_ok m hm bs1 bs2"
    and "\<forall>y \<in> set (nodes_of bs1 bs2). code_at m y = code \<longrightarrow> eq y = Inr (E y)"
    and "find (matches m code E) (concat (help_buckets m hm bs1 bs2)) = None"
    and "find (matches m code E) (drop k_resizing_work (concat bs2)) = Some x"
  obtains m' hm' bs2' where "hm_delete m hm code eq = Inr (m', hm', Some x)"
    and "hm_shape m' hm' (help_buckets m hm bs1 bs2) bs2'" and "tab (ht2 hm') \<noteq> None"
    and "Suc (length (concat bs2')) = length (concat bs2) - k_resizing_work"
    and "ht_size (ht2 hm') = of_nat (length (concat bs2') + 1)"
    and "hm_size hm' = of_nat (length (nodes_of bs1 bs2)) - 1"
proof -
  let ?bs1 = "help_buckets m hm bs1 bs2" and ?P = "matches m code E"
  have "hm_rep m hm bs1 bs2" "load_pre bs1 bs2"
    using assms(1) load_ok_pre by (auto simp: hm_ok_def)
  then obtain m1 hm1 bs where H: "hm_help_resizing m hm = Inr (m1, hm1)"
      "hm_ok m1 hm1 ?bs1 bs" "concat bs = drop k_resizing_work (concat bs2)"
      "mset (nodes_of ?bs1 bs) = mset (nodes_of bs1 bs2)"
      "frame (set (nodes_of bs1 bs2)) (tabs hm) m m1"
    using hm_help_resizing_ok by metis
  have rep: "hm_rep m1 hm1 ?bs1 bs" using H(2) by (simp add: hm_ok_def)
  note R = hm_repD [OF rep] and S = hm_shapeD [OF hm_repD(1) [OF rep]]
  have E: "\<forall>y \<in> set (nodes_of ?bs1 bs). code_at m1 y = code \<longrightarrow> eq y = Inr (E y)"
    using assms(2) mset_eq_setD [OF H(4)] frame_code [OF H(5)] by (simp only:)
  have P: "matches m1 code E = ?P"
    by (simp add: matches_def frame_code [OF H(5)] fun_eq_iff)
  note f1 = hlookup_find [OF S(1), of code eq E, unfolded P]
    and f2 = hlookup_find [OF S(2), of code eq E, unfolded P]
  obtain a i xs ys where at: "tab (ht2 hm1) = Some a" "i < length bs" "bs ! i = xs @ x # ys"
      "hlookup m1 (ht2 hm1) code eq = Inr (Some (loc_in a i xs))"
    using f2 E assms(4) by (auto simp: H(3) [symmetric])
  have none: "hlookup m1 (ht1 hm1) code eq = Inr None" using f1 E assms(3) by auto
  obtain m' where m': "\<And>t. h_detach m1 t (loc_in a i xs) = Inr (m', t\<lparr>ht_size := ht_size t - 1\<rparr>, Some x)"
      "tab_shape m' (ht2 hm1) (bs[i := xs @ ys])" "frame (set xs) {a} m1 m'"
    using h_detach_spec [OF S(2) at(1-3)] by blast
  let ?hm = "hm1\<lparr>ht1 := (ht1 hm1)\<lparr>ht_size := ht_size (ht1 hm1) - 1\<rparr>\<rparr>"
  have xs: "set xs \<subseteq> set (concat bs)" using nth_in_concat [OF at(2)] at(3) by auto
  note C = concat_bucket_remove [OF at(2,3)]
  have "tab_shape m' (ht1 hm1) ?bs1"
    using S(3,4) at(1) xs by (intro tab_shape_frame [OF S(1) m'(3)]) auto
  moreover have "bs[i := xs @ ys] ! j = []" if "j < resizing_pos hm1" "j < length bs" for j
    using S(5) [OF that] at(3) by (cases "j = i") auto
  ultimately have "hm_shape m' ?hm ?bs1 (bs[i := xs @ ys])"
    using m'(2) S(3,4) C(3) unfolding hm_shape_def by (simp del: set_concat) blast
  moreover have "hm_delete m hm code eq = Inr (m', ?hm, Some x)"
    using H(1) none at(4) m'(1) by (simp add: hm_delete_def)
  moreover have "Suc (length (concat (bs[i := xs @ ys]))) = length (concat bs2) - k_resizing_work"
    using C(2) by (simp only: H(3) length_drop)
  moreover have "ht_size (ht2 ?hm) = of_nat (length (concat (bs[i := xs @ ys])) + 1)"
    using R(3) C(2) by (simp del: length_concat)
  moreover have "hm_size ?hm = of_nat (length (nodes_of bs1 bs2)) - 1"
    using R(2,3) arg_cong [OF H(4), of size] by (simp add: hm_size_def flip: of_nat_add del: length_concat)
  ultimately show ?thesis using that at(1) by auto
qed

section \<open>Visiting every node, continued\<close>

text \<open>The callback applied to each node of a list in turn.\<close>

primrec visit_all :: "(addr \<Rightarrow> 's \<Rightarrow> 's res) \<Rightarrow> addr list \<Rightarrow> 's \<Rightarrow> 's res" where
  "visit_all f [] s = Inr s"
| "visit_all f (x # xs) s = bindr (f x s) (visit_all f xs)"

lemma visit_all_append: "visit_all f (xs @ ys) s = bindr (visit_all f xs s) (visit_all f ys)"
  by (induction xs arbitrary: s) (auto simp: bindr_assoc intro!: bindr_cong)

lemma h_scan_chain_spec:
  "chain m p xs \<Longrightarrow> length xs < fuel \<Longrightarrow> h_scan_chain fuel m f p s = visit_all f xs s"
proof (induction xs arbitrary: p fuel s)
  case Nil
  then show ?case by (cases fuel) auto
next
  case (Cons x xs)
  then obtain g n where "fuel = Suc g" "length xs < g" "p = Some x" "h_nodes m x = Some n"
      "chain m (h_next n) xs"
    by (cases fuel) auto
  then show ?case using Cons.IH by (auto simp: load_Some intro!: bindr_cong)
qed

lemma h_scan_from_spec:
  assumes "tab_shape m ht bs" and "i + left = length bs"
  shows "h_scan_from left i m ht f s = visit_all f (concat (drop i bs)) s"
  using assms(2)
proof (induction left arbitrary: i s)
  case 0
  then show ?case by simp
next
  case (Suc left)
  then have i: "i < length bs" by simp
  obtain a ps where slot: "slot_of ht i = Inr (Slot a i)" "get_loc m (Slot a i) = Inr (ps ! i)"
      "chain m (ps ! i) (bs ! i)"
    using tab_shape_slot [OF assms(1) i] by metis
  have "distinct (bs ! i)"
    using tab_shape_distinct [OF assms(1)] by (simp add: concat_nth_split [OF i])
  then have "length (bs ! i) < Suc (h_brk m)"
    using distinct_bounded_length [of "bs ! i" "h_brk m"] tab_shape_brk [OF assms(1) i]
    by (simp add: less_Suc_eq_le)
  note chain = h_scan_chain_spec [OF slot(3) this]
  have "drop i bs = bs ! i # drop (Suc i) bs" using i by (simp add: Cons_nth_drop_Suc)
  then show ?case
    using slot Suc.IH [of "Suc i"] Suc.prems chain
    by (auto simp: visit_all_append intro!: bindr_cong)
qed

lemma h_scan_spec:
  assumes "tab_shape m ht bs" and "ht_size ht = of_nat (length (concat bs))"
    and "length (concat bs) < 2 ^ 64"
  shows "h_scan m ht f s = visit_all f (concat bs) s"
proof (cases "ht_size ht = 0")
  case True
  then have "concat bs = []"
    using u64_of_nat_eq_0 [OF assms(3)] assms(2) by (simp del: length_concat concat_eq_Nil_conv)
  show ?thesis using True unfolding \<open>concat bs = []\<close> by (simp add: h_scan_def)
next
  case False
  have "tab ht \<noteq> None"
  proof
    assume "tab ht = None"
    then have "bs = []" using assms(1) by (simp add: tab_shape_None)
    then show False using False assms(2) by simp
  qed
  then obtain a k where "tab ht = Some a" "k < 64" "length bs = 2 ^ k" "ht_mask ht = mask k"
    using assms(1) by (auto simp: tab_shape_Some)
  then have "unat (ht_mask ht + 1) = length bs" by (simp add: mask_eq_decr_exp u64_exp)
  then show ?thesis
    using False h_scan_from_spec [OF assms(1), of 0] by (simp add: h_scan_def)
qed

section \<open>The contract of a map\<close>

text \<open>
  What the rest of the program relies on: a map holds a bag of nodes; an insertion adds one,
  a lookup finds a node that matches exactly when one is held, a deletion takes the node it
  found out.  The last law is promised only while one round of moving nodes is enough to
  finish any resizing.
\<close>

definition code_eq :: "u64 \<Rightarrow> (addr \<Rightarrow> bool) \<Rightarrow> (addr \<Rightarrow> u64) \<Rightarrow> addr \<Rightarrow> bool" where
  "code_eq c E code x \<longleftrightarrow> code x = c \<and> E x"

definition found :: "(addr \<Rightarrow> bool) \<Rightarrow> addr multiset \<Rightarrow> ptr \<Rightarrow> bool" where
  "found P ns p \<longleftrightarrow> (case p of None \<Rightarrow> \<forall>x \<in># ns. \<not> P x | Some x \<Rightarrow> x \<in># ns \<and> P x)"

locale node_bag =
  fixes holds :: "'s \<Rightarrow> addr multiset \<Rightarrow> bool"
    and code :: "'s \<Rightarrow> addr \<Rightarrow> u64"
    and alive :: "'s \<Rightarrow> addr \<Rightarrow> bool"
    and ins :: "'s \<Rightarrow> ptr \<Rightarrow> 's res"
    and look :: "'s \<Rightarrow> u64 \<Rightarrow> (addr \<Rightarrow> bool res) \<Rightarrow> ('s \<times> ptr) res"
    and del :: "'s \<Rightarrow> u64 \<Rightarrow> (addr \<Rightarrow> bool res) \<Rightarrow> ('s \<times> ptr) res"
  assumes ins_law: "holds s ns \<Longrightarrow> alive s x \<Longrightarrow> x \<notin># ns \<Longrightarrow> size ns + 1 < 2 ^ 64 \<Longrightarrow>
      \<exists>s'. ins s (Some x) = Inr s' \<and> holds s' (add_mset x ns) \<and> code s' = code s \<and>
        (\<forall>y. alive s y \<longrightarrow> alive s' y)"
    and look_law: "holds s ns \<Longrightarrow> \<forall>y \<in># ns. code s y = c \<longrightarrow> eq y = Inr (E y) \<Longrightarrow>
      \<exists>s' p. look s c eq = Inr (s', p) \<and> holds s' ns \<and> code s' = code s \<and>
        (\<forall>y. alive s y \<longrightarrow> alive s' y) \<and> found (code_eq c E (code s)) ns p"
    and del_law: "holds s ns \<Longrightarrow> \<forall>y \<in># ns. code s y = c \<longrightarrow> eq y = Inr (E y) \<Longrightarrow>
      size ns \<le> k_resizing_work \<Longrightarrow>
      \<exists>s' p. del s c eq = Inr (s', p) \<and> holds s' (ns - mset_set (set_option p)) \<and>
        code s' = code s \<and> (\<forall>y. alive s y \<longrightarrow> alive s' y) \<and> found (code_eq c E (code s)) ns p"

text \<open>
  The client of the contract: nodes have keys and are hashed by them.  The operations on the
  nodes are then the operations of a finite map from keys to nodes.
\<close>

datatype 'k hop = HIns addr | HLook 'k | HDel 'k

fun map_run :: "(addr \<Rightarrow> 'k) \<Rightarrow> 'k hop list \<Rightarrow> ('k \<rightharpoonup> addr) \<Rightarrow> ptr list" where
  "map_run key [] M = []"
| "map_run key (HIns x # ops) M = map_run key ops (M(key x \<mapsto> x))"
| "map_run key (HLook k # ops) M = M k # map_run key ops M"
| "map_run key (HDel k # ops) M = M k # map_run key ops (M(k := None))"

fun run_ops ::
  "('s \<Rightarrow> ptr \<Rightarrow> 's res) \<Rightarrow> ('s \<Rightarrow> u64 \<Rightarrow> (addr \<Rightarrow> bool res) \<Rightarrow> ('s \<times> ptr) res) \<Rightarrow>
   ('s \<Rightarrow> u64 \<Rightarrow> (addr \<Rightarrow> bool res) \<Rightarrow> ('s \<times> ptr) res) \<Rightarrow> (addr \<Rightarrow> 'k) \<Rightarrow> ('k \<Rightarrow> u64) \<Rightarrow>
   'k hop list \<Rightarrow> 's \<Rightarrow> ptr list res" where
  "run_ops ins look del key hash [] s = Inr []"
| "run_ops ins look del key hash (HIns x # ops) s =
     bindr (ins s (Some x)) (run_ops ins look del key hash ops)"
| "run_ops ins look del key hash (HLook k # ops) s =
     bindr (look s (hash k) (\<lambda>y. Inr (key y = k))) (\<lambda>(s', p).
     bindr (run_ops ins look del key hash ops s') (\<lambda>ps. Inr (p # ps)))"
| "run_ops ins look del key hash (HDel k # ops) s =
     bindr (del s (hash k) (\<lambda>y. Inr (key y = k))) (\<lambda>(s', p).
     bindr (run_ops ins look del key hash ops s') (\<lambda>ps. Inr (p # ps)))"

text \<open>An insertion is of an allocated node whose key is not held, and the map stays small.\<close>

fun ops_ok :: "(addr \<Rightarrow> bool) \<Rightarrow> (addr \<Rightarrow> 'k) \<Rightarrow> 'k hop list \<Rightarrow> ('k \<rightharpoonup> addr) \<Rightarrow> nat \<Rightarrow> bool" where
  "ops_ok live key [] M n \<longleftrightarrow> True"
| "ops_ok live key (HIns x # ops) M n \<longleftrightarrow>
     M (key x) = None \<and> live x \<and> n < k_resizing_work \<and>
     ops_ok live key ops (M(key x \<mapsto> x)) (n + 1)"
| "ops_ok live key (HLook k # ops) M n \<longleftrightarrow> ops_ok live key ops M n"
| "ops_ok live key (HDel k # ops) M n \<longleftrightarrow>
     ops_ok live key ops (M(k := None)) (if M k = None then n else n - 1)"


definition keyed :: "(addr \<Rightarrow> 'k) \<Rightarrow> ('k \<rightharpoonup> addr) \<Rightarrow> bool" where
  "keyed key M \<longleftrightarrow> finite (ran M) \<and> (\<forall>k x. M k = Some x \<longrightarrow> key x = k)"

lemma keyedD: "keyed key M \<Longrightarrow> x \<in> ran M \<longleftrightarrow> M (key x) = Some x"
  by (auto simp: keyed_def ran_def)

lemma keyed_ins:
  assumes "keyed key M" and "M (key x) = None"
  shows "keyed key (M(key x \<mapsto> x))" and "ran (M(key x \<mapsto> x)) = insert x (ran M)"
    and "x \<notin> ran M" and "mset_set (ran (M(key x \<mapsto> x))) = add_mset x (mset_set (ran M))"
proof -
  show x: "x \<notin> ran M" using assms by (simp add: keyedD)
  show r: "ran (M(key x \<mapsto> x)) = insert x (ran M)" using assms(2) by (rule ran_map_upd)
  show "keyed key (M(key x \<mapsto> x))" using assms(1) r by (auto simp: keyed_def)
  show "mset_set (ran (M(key x \<mapsto> x))) = add_mset x (mset_set (ran M))"
    using assms(1) x unfolding r by (simp add: keyed_def)
qed

lemma keyed_del:
  assumes "keyed key M"
  shows "keyed key (M(k := None))" and "ran (M(k := None)) = ran M - set_option (M k)"
    and "mset_set (ran (M(k := None))) = mset_set (ran M) - mset_set (set_option (M k))"
proof -
  show r: "ran (M(k := None)) = ran M - set_option (M k)"
    using assms by (auto simp: keyed_def ran_def elem_set split: if_splits)
  show "keyed key (M(k := None))" using assms r by (auto simp: keyed_def)
  show "mset_set (ran (M(k := None))) = mset_set (ran M) - mset_set (set_option (M k))"
    using assms unfolding r by (intro mset_set_Diff) (auto simp: keyed_def ran_def elem_set)
qed

lemma found_keyed:
  assumes "keyed key M" and "\<forall>x \<in> ran M. code x = hash (key x)"
    and "found (code_eq (hash k) (\<lambda>y. key y = k) code) (mset_set (ran M)) p"
  shows "p = M k"
proof -
  have fin: "finite (ran M)" using assms(1) by (simp add: keyed_def)
  show ?thesis
  proof (cases p)
    case None
    then have "\<forall>x \<in> ran M. key x \<noteq> k"
      using assms(2,3) fin by (auto simp: found_def code_eq_def)
    then show ?thesis using assms(1) None by (cases "M k") (auto simp: keyed_def ran_def)
  next
    case (Some x)
    then show ?thesis
      using assms(3) fin keyedD [OF assms(1)] by (auto simp: found_def code_eq_def)
  qed
qed

context node_bag
begin

lemma run_is_map:
  assumes "holds s (mset_set (ran M))" and "keyed key M"
    and "\<forall>x \<in> ran M. code s x = hash (key x)"
    and "\<forall>x. live x \<longrightarrow> alive s x \<and> code s x = hash (key x)"
    and "ops_ok live key ops M (card (ran M))" and "card (ran M) \<le> k_resizing_work"
  shows "run_ops ins look del key hash ops s = Inr (map_run key ops M)"
  using assms
proof (induction ops arbitrary: s M)
  case Nil
  then show ?case by simp
next
  case (Cons op ops)
  note holds = Cons.prems(1) and keyed = Cons.prems(2)
  have fin: "finite (ran M)" and small: "size (mset_set (ran M)) \<le> k_resizing_work"
    using keyed Cons.prems(6) by (simp_all add: keyed_def)
  have eq: "\<forall>y \<in># mset_set (ran M). code s y = hash k \<longrightarrow> Inr (key y = k) = Inr (key y = k)" for k
    by simp
  show ?case
  proof (cases op)
    case (HIns x)
    note K = keyed_ins [OF keyed, of x]
    have x: "M (key x) = None" "alive s x" "x \<notin># mset_set (ran M)"
        "size (mset_set (ran M)) + 1 < 2 ^ 64" "card (ran M) < k_resizing_work"
      using Cons.prems(4,5) HIns K(3) fin by (auto simp: k_resizing_work_def)
    obtain s' where s': "ins s (Some x) = Inr s'" "holds s' (add_mset x (mset_set (ran M)))"
        "code s' = code s" "\<forall>y. alive s y \<longrightarrow> alive s' y"
      using ins_law [OF holds x(2-4)] by blast
    define N where "N = M(key x \<mapsto> x)"
    have N: "keyed key N" "ran N = insert x (ran M)" "mset_set (ran N) = add_mset x (mset_set (ran M))"
        "card (ran N) = card (ran M) + 1"
      using K x(1) fin by (simp_all add: N_def)
    have "live x" "ops_ok live key ops N (card (ran N))"
      using Cons.prems(5) HIns N(4) by (simp_all add: N_def)
    then have "run_ops ins look del key hash ops s' = Inr (map_run key ops N)"
      using Cons.prems(3,4) s' N x(5) by (intro Cons.IH) simp_all
    then show ?thesis using HIns s'(1) by (simp add: N_def)
  next
    case (HLook k)
    obtain s' p where s': "look s (hash k) (\<lambda>y. Inr (key y = k)) = Inr (s', p)"
        "holds s' (mset_set (ran M))" "code s' = code s" "\<forall>y. alive s y \<longrightarrow> alive s' y"
        "found (code_eq (hash k) (\<lambda>y. key y = k) (code s)) (mset_set (ran M)) p"
      using look_law [OF holds eq] by blast
    then show ?thesis
      using HLook Cons.IH [of s' M] Cons.prems found_keyed [OF keyed Cons.prems(3) s'(5)] by simp
  next
    case (HDel k)
    note K = keyed_del [OF keyed, of k]
    obtain s' p where s': "del s (hash k) (\<lambda>y. Inr (key y = k)) = Inr (s', p)"
        "holds s' (mset_set (ran M) - mset_set (set_option p))" "code s' = code s"
        "\<forall>y. alive s y \<longrightarrow> alive s' y"
        "found (code_eq (hash k) (\<lambda>y. key y = k) (code s)) (mset_set (ran M)) p"
      using del_law [OF holds eq small] by blast
    have p: "p = M k" by (rule found_keyed [OF keyed Cons.prems(3) s'(5)])
    have c: "card (ran (M(k := None))) = (if M k = None then card (ran M) else card (ran M) - 1)"
      using K(2) fin by (cases "M k") (auto simp: card_Diff_singleton ranI)
    define N where "N = M(k := None)"
    have N: "keyed key N" "ran N \<subseteq> ran M"
        "mset_set (ran N) = mset_set (ran M) - mset_set (set_option p)"
        "card (ran N) = (if M k = None then card (ran M) else card (ran M) - 1)"
      using K c p by (auto simp: N_def)
    have "ops_ok live key ops N (card (ran N))"
      using Cons.prems(5) HDel N(4) by (simp add: N_def)
    then have "run_ops ins look del key hash ops s' = Inr (map_run key ops N)"
      using Cons.prems(3,4,6) s' N by (intro Cons.IH) auto
    then show ?thesis using HDel s'(1) p by (simp add: N_def)
  qed
qed

end

section \<open>The map meets its contract\<close>

definition map_holds :: "hmem \<times> HMap \<Rightarrow> addr multiset \<Rightarrow> bool" where
  "map_holds s ns \<longleftrightarrow> (\<exists>bs1 bs2. hm_ok (fst s) (snd s) bs1 bs2 \<and> mset (nodes_of bs1 bs2) = ns)"

definition map_alive :: "hmem \<times> HMap \<Rightarrow> addr \<Rightarrow> bool" where
  "map_alive s x \<longleftrightarrow> (\<exists>n. h_nodes (fst s) x = Some n) \<and> x < h_brk (fst s)"

definition map_ins :: "hmem \<times> HMap \<Rightarrow> ptr \<Rightarrow> (hmem \<times> HMap) res" where
  "map_ins s node = hm_insert (fst s) (snd s) node"

definition map_look :: "hmem \<times> HMap \<Rightarrow> u64 \<Rightarrow> (addr \<Rightarrow> bool res) \<Rightarrow> ((hmem \<times> HMap) \<times> ptr) res" where
  "map_look s code eq =
     bindr (hm_lookup (fst s) (snd s) code eq) (\<lambda>(m, hm, p). Inr ((m, hm), p))"

definition map_del :: "hmem \<times> HMap \<Rightarrow> u64 \<Rightarrow> (addr \<Rightarrow> bool res) \<Rightarrow> ((hmem \<times> HMap) \<times> ptr) res" where
  "map_del s code eq =
     bindr (hm_delete (fst s) (snd s) code eq) (\<lambda>(m, hm, p). Inr ((m, hm), p))"

lemma map_alive_frame: "frame X A m m' \<Longrightarrow> map_alive (m, hm) y \<Longrightarrow> map_alive (m', hm') y"
  using frame_alive [of X A m m' y] frame_brk [of X A m m'] by (auto simp: map_alive_def)

lemma found_find:
  "mset xs = ns \<Longrightarrow> found (code_eq c E (code_at m)) ns (find (matches m c E) xs)"
  by (auto simp: found_def code_eq_def matches_def find_None_iff find_Some_iff split: option.splits)

lemma mset_setE:
  "\<forall>y \<in># mset xs. Q y \<Longrightarrow> \<forall>y \<in> set xs. Q y"
  by simp

lemma map_ins_law:
  assumes "map_holds s ns" and "map_alive s x" and "x \<notin># ns" and "size ns + 1 < 2 ^ 64"
  shows "\<exists>s'. map_ins s (Some x) = Inr s' \<and> map_holds s' (add_mset x ns) \<and>
    code_at (fst s') = code_at (fst s) \<and> (\<forall>y. map_alive s y \<longrightarrow> map_alive s' y)"
proof -
  obtain m hm where s: "s = (m, hm)" by (cases s)
  obtain bs1 bs2 where ok: "hm_ok m hm bs1 bs2" and ns: "mset (nodes_of bs1 bs2) = ns"
    using assms(1) by (auto simp: map_holds_def s)
  obtain n where n: "h_nodes m x = Some n" "x < h_brk m" using assms(2) by (auto simp: map_alive_def s)
  have x: "x \<notin> set (nodes_of bs1 bs2)" using assms(3) ns by (metis set_mset_mset)
  have len: "length (nodes_of bs1 bs2) + 1 < 2 ^ 64" using assms(4) ns by (metis size_mset)
  obtain m' hm' bs1' bs2' where I: "hm_insert m hm (Some x) = Inr (m', hm')" "hm_ok m' hm' bs1' bs2'"
      "mset (nodes_of bs1' bs2') = add_mset x (mset (nodes_of bs1 bs2))"
      "frame (insert x (set (nodes_of bs1 bs2))) (tabs hm \<union> {h_brk m..}) m m'"
    using hm_insert_spec [OF ok n(1) x n(2) len] by metis
  have "map_holds (m', hm') (add_mset x ns)"
    using I(2,3) ns by (auto simp only: map_holds_def fst_conv snd_conv)
  then show ?thesis
    using I(1) frame_code_fun [OF I(4)] map_alive_frame [OF I(4)] by (auto simp: map_ins_def s)
qed

lemma map_look_law:
  assumes "map_holds s ns" and "\<forall>y \<in># ns. code_at (fst s) y = c \<longrightarrow> eq y = Inr (E y)"
  shows "\<exists>s' p. map_look s c eq = Inr (s', p) \<and> map_holds s' ns \<and>
    code_at (fst s') = code_at (fst s) \<and> (\<forall>y. map_alive s y \<longrightarrow> map_alive s' y) \<and>
    found (code_eq c E (code_at (fst s))) ns p"
proof -
  obtain m hm where s: "s = (m, hm)" by (cases s)
  obtain bs1 bs2 where ok: "hm_ok m hm bs1 bs2" and ns: "mset (nodes_of bs1 bs2) = ns"
    using assms(1) by (auto simp: map_holds_def s)
  have eq: "\<forall>y \<in> set (nodes_of bs1 bs2). code_at m y = c \<longrightarrow> eq y = Inr (E y)"
    using assms(2) unfolding ns [symmetric] s by simp
  obtain m' hm' bs2' where L: "hm_lookup m hm c eq = Inr (m', hm',
        find (matches m c E) (nodes_of (help_buckets m hm bs1 bs2) bs2'))"
      "hm_ok m' hm' (help_buckets m hm bs1 bs2) bs2'"
      "mset (nodes_of (help_buckets m hm bs1 bs2) bs2') = mset (nodes_of bs1 bs2)"
      "frame (set (nodes_of bs1 bs2)) (tabs hm) m m'"
    using hm_lookup_spec [OF ok eq] by metis
  have "map_holds (m', hm') ns"
    using L(2,3) ns by (auto simp only: map_holds_def fst_conv snd_conv)
  then show ?thesis
    using L(1) frame_code_fun [OF L(4)] map_alive_frame [OF L(4)] found_find [OF L(3) [unfolded ns]]
    by (auto simp: map_look_def s)
qed

lemma short_older:
  "length (concat bs2) \<le> k_resizing_work \<Longrightarrow> drop k_resizing_work (concat bs2) = []"
  by simp

lemma map_del_law:
  assumes "map_holds s ns" and "\<forall>y \<in># ns. code_at (fst s) y = c \<longrightarrow> eq y = Inr (E y)"
    and "size ns \<le> k_resizing_work"
  shows "\<exists>s' p. map_del s c eq = Inr (s', p) \<and> map_holds s' (ns - mset_set (set_option p)) \<and>
    code_at (fst s') = code_at (fst s) \<and> (\<forall>y. map_alive s y \<longrightarrow> map_alive s' y) \<and>
    found (code_eq c E (code_at (fst s))) ns p"
proof -
  obtain m hm where s: "s = (m, hm)" by (cases s)
  obtain bs1 bs2 where ok: "hm_ok m hm bs1 bs2" and ns: "mset (nodes_of bs1 bs2) = ns"
    using assms(1) by (auto simp: map_holds_def s)
  have eq: "\<forall>y \<in> set (nodes_of bs1 bs2). code_at m y = c \<longrightarrow> eq y = Inr (E y)"
    using assms(2) unfolding ns [symmetric] s by simp
  have "length (nodes_of bs1 bs2) \<le> k_resizing_work" using assms(3) ns by (metis size_mset)
  then have none: "drop k_resizing_work (concat bs2) = []" by (intro short_older) simp
  let ?r = "find (matches m c E) (concat (help_buckets m hm bs1 bs2))"
  obtain m' hm' bs1' bs2' where D: "hm_delete m hm c eq = Inr (m', hm', ?r)" "hm_ok m' hm' bs1' bs2'"
      "mset (nodes_of bs1' bs2') + mset_set (set_option ?r) = mset (nodes_of bs1 bs2)"
      "frame (set (nodes_of bs1 bs2)) (tabs hm) m m'"
    using hm_delete_spec [OF ok eq] none by (metis find.simps(1))
  have "mset (concat (help_buckets m hm bs1 bs2)) = ns"
    using help_mset [of m hm bs1 bs2 "[]"] ok none ns by (simp add: hm_ok_def)
  moreover have "mset (nodes_of bs1' bs2') = ns - mset_set (set_option ?r)"
    using D(3) ns by (metis add_diff_cancel_right')
  then have "map_holds (m', hm') (ns - mset_set (set_option ?r))"
    using D(2) by (auto simp only: map_holds_def fst_conv snd_conv)
  ultimately show ?thesis
    using D(1) frame_code_fun [OF D(4)] map_alive_frame [OF D(4)] found_find
    by (auto simp: map_del_def s)
qed

interpretation hmap: node_bag map_holds "\<lambda>s. code_at (fst s)" map_alive map_ins map_look map_del
  using map_ins_law map_look_law map_del_law by unfold_locales blast+

section \<open>A map in the middle of a resizing\<close>

text \<open>
  Thirty-two chains of \<open>r\<close> nodes wait in the older table; the newer one is empty.  The node
  at address \<open>a\<close> has the hash \<open>a\<close>.
\<close>

definition demo_mem :: "nat \<Rightarrow> hmem" where
  "demo_mem r = \<lparr>h_arrs = [300 \<mapsto> replicate 64 None, 301 \<mapsto> map Some [0..<32]],
     h_nodes = (\<lambda>a. if a < 32 * r
       then Some \<lparr>h_next = if a + 32 < 32 * r then Some (a + 32) else None, h_code = of_nat a\<rparr>
       else None),
     h_brk = 302\<rparr>"

definition demo_map :: "nat \<Rightarrow> HMap" where
  "demo_map r = \<lparr>ht1 = \<lparr>tab = Some 300, ht_size = 0, ht_mask = 63\<rparr>,
     ht2 = \<lparr>tab = Some 301, ht_size = of_nat (32 * r), ht_mask = 31\<rparr>, resizing_pos = 0\<rparr>"

definition demo_old :: "nat \<Rightarrow> addr list list" where
  "demo_old r = map (\<lambda>i. map (\<lambda>j. i + 32 * j) [0..<r]) [0..<32]"

abbreviation demo_new :: "addr list list" where
  "demo_new \<equiv> replicate 64 []"

lemma demo_chain:
  "k \<le> r \<Longrightarrow> i < 32 \<Longrightarrow> chain (demo_mem r)
     (if k < r then Some (i + 32 * k) else None) (map (\<lambda>j. i + 32 * j) [k..<r])"
proof (induction "r - k" arbitrary: k)
  case (Suc d)
  then have IH: "chain (demo_mem r) (if Suc k < r then Some (i + 32 * Suc k) else None)
      (map (\<lambda>j. i + 32 * j) [Suc k..<r])"
    by simp
  have k: "k < r" using Suc.hyps(2) by simp
  have "i + 32 * k < 32 * r" using k Suc.prems by linarith
  moreover have "i + 32 * k + 32 < 32 * r \<longleftrightarrow> Suc k < r" using Suc.prems by linarith
  moreover have "i + 32 * k + 32 = i + 32 * Suc k" by simp
  ultimately have "h_nodes (demo_mem r) (i + 32 * k) = Some
      \<lparr>h_next = if Suc k < r then Some (i + 32 * Suc k) else None, h_code = of_nat (i + 32 * k)\<rparr>"
    unfolding demo_mem_def by (simp only: hmem.simps if_True)
  then show ?case using IH k unfolding upt_conv_Cons [OF k] by (simp del: mult_Suc_right)
qed simp

lemma demo_code: "r \<le> 8 \<Longrightarrow> a < 32 * r \<Longrightarrow> code_at (demo_mem r) a = of_nat a"
  by (simp add: code_at_def demo_mem_def)

lemma demo_len: "length (concat (demo_old r)) = 32 * r"
  by (simp add: demo_old_def length_concat comp_def sum_list_triv)

lemma demo_distinct: "distinct (concat (demo_old r))"
proof (cases "r = 0")
  case False
  show ?thesis
    unfolding demo_old_def
  proof (rule distinct_concat)
    have "inj_on (\<lambda>i. map (\<lambda>j. i + 32 * j) [0..<r]) {0..<32}"
    proof (rule inj_onI)
      fix i k :: nat
      assume "map (\<lambda>j. i + 32 * j) [0..<r] = map (\<lambda>j. k + 32 * j) [0..<r]"
      then have "hd (map (\<lambda>j. i + 32 * j) [0..<r]) = hd (map (\<lambda>j. k + 32 * j) [0..<r])" by (rule arg_cong)
      then show "i = k" using False by (simp add: hd_map)
    qed
    then show "distinct (map (\<lambda>i. map (\<lambda>j. i + 32 * j) [0..<r]) [0..<32])"
      by (simp add: distinct_map)
  next
    fix ys assume "ys \<in> set (map (\<lambda>i. map (\<lambda>j. i + 32 * j) [0..<r]) [0..<32])"
    then show "distinct ys" by (auto simp: distinct_map inj_on_def)
  next
    fix ys zs
    assume "ys \<in> set (map (\<lambda>i. map (\<lambda>j. i + 32 * j) [0..<r]) [0..<32])"
      and "zs \<in> set (map (\<lambda>i. map (\<lambda>j. i + 32 * j) [0..<r]) [0..<32])" and "ys \<noteq> zs"
    then obtain i k where "ys = map (\<lambda>j. i + 32 * j) [0..<r]" "zs = map (\<lambda>j. k + 32 * j) [0..<r]"
        "i < 32" "k < 32" "i \<noteq> k"
      by auto
    moreover have "i + 32 * j \<noteq> k + 32 * l" if "i < 32" "k < 32" "i \<noteq> k" for j l :: nat
    proof
      assume "i + 32 * j = k + 32 * l"
      then have "(i + 32 * j) mod 32 = (k + 32 * l) mod 32" by simp
      then show False using that by simp
    qed
    ultimately show "set ys \<inter> set zs = {}" by auto
  qed
next
  case True
  then have "concat (demo_old r) = []" by (simp add: demo_old_def)
  then show ?thesis by (simp only: distinct.simps)
qed

lemma demo_new_shape: "tab_shape (demo_mem r) (ht1 (demo_map r)) demo_new"
proof -
  have "length demo_new = 2 ^ 6 \<and> (63 :: u64) = mask 6" by (simp add: mask_eq_decr_exp)
  then show ?thesis
    by (auto simp: tab_shape_def demo_map_def demo_mem_def list_all2_conv_all_nth
        concat_replicate_trivial intro!: exI [of _ "6 :: nat"])
qed

lemma demo_old_shape:
  assumes "0 < r" "r \<le> 8"
  shows "tab_shape (demo_mem r) (ht2 (demo_map r)) (demo_old r)"
proof -
  have elem: "\<exists>j < r. x = i + 32 * j" if "x \<in> set (demo_old r ! i)" "i < 32" for i x
    using that by (auto simp: demo_old_def)
  have lt: "x < 32 * r \<and> x mod 32 = i" if h: "x \<in> set (demo_old r ! i)" "i < 32" for i x
  proof -
    obtain j where j: "j < r" "x = i + 32 * j" using elem [OF h] by blast
    then have "32 * j + 32 \<le> 32 * r" by simp
    then show ?thesis using j h(2) by simp
  qed
  have "list_all2 (chain (demo_mem r)) (map Some [0..<32]) (demo_old r)"
    using demo_chain [of 0 r] assms(1) by (auto simp: list_all2_conv_all_nth demo_old_def)
  moreover have "length (demo_old r) = 2 ^ 5 \<and> (31 :: u64) = mask 5"
    by (simp add: mask_eq_decr_exp demo_old_def)
  moreover have "unat (code_at (demo_mem r) x AND 31) = i"
    if "i < length (demo_old r)" "x \<in> set (demo_old r ! i)" for i x
  proof -
    have x: "x < 32 * r" "x mod 32 = i" using lt that by (auto simp: demo_old_def)
    then have "x < 256" using assms(2) by simp
    then have "unat (of_nat x :: u64) = x" by (simp add: unat_of_nat take_bit_nat_eq_self_iff)
    moreover have "(31 :: u64) = mask 5" by (simp add: mask_eq_decr_exp)
    ultimately show ?thesis
      using x bucket_mask [of 5 "of_nat x"] demo_code [OF assms(2) x(1)] by simp
  qed
  moreover have "x < 302" if h: "x \<in> set (concat (demo_old r))" for x
  proof -
    obtain i where "i < 32" "x \<in> set (demo_old r ! i)"
      using h by (auto simp only: in_concat_nth) (simp add: demo_old_def)
    then show ?thesis using lt [of x i] assms(2) by simp
  qed
  ultimately show ?thesis
    using demo_distinct [of r]
    by (auto simp: tab_shape_def demo_map_def demo_mem_def simp del: set_concat intro!: exI [of _ "5 :: nat"])
qed

lemma demo_ok:
  assumes "0 < r" "r \<le> 8"
  shows "hm_ok (demo_mem r) (demo_map r) demo_new (demo_old r)"
proof -
  have "load_ok demo_new (demo_old r)"
    using assms by (simp add: load_ok_def Let_def demo_len concat_replicate_trivial del: length_concat)
      (simp add: demo_old_def)
  moreover have "hm_rep (demo_mem r) (demo_map r) demo_new (demo_old r)"
    using demo_new_shape demo_old_shape [OF assms] assms
    by (auto simp: hm_rep_def hm_shape_def demo_len concat_replicate_trivial demo_map_def
        simp del: length_concat)
  ultimately show ?thesis by (simp add: hm_ok_def)
qed

section \<open>Properties\<close>

lemma hm_ok_load:
  assumes "hm_ok m hm bs1 bs2" and "nodes_of bs1 bs2 \<noteq> []"
  shows "length (nodes_of bs1 bs2) < 10 * length bs1"
proof -
  have rep: "hm_rep m hm bs1 bs2" and load: "load_ok bs1 bs2" using assms(1) by (auto simp: hm_ok_def)
  note S = hm_shapeD [OF hm_repD(1) [OF rep]]
  have "bs1 \<noteq> []"
  proof
    assume "bs1 = []"
    moreover from this have "tab (ht2 hm) = None"
      using tab_shape_Nil [OF S(1)] S(4) by (cases "tab (ht2 hm)") auto
    then have "bs2 = []" using tab_shape_Nil [OF S(2)] by simp
    ultimately show False using assms(2) by simp
  qed
  then show ?thesis using load_ok_bound [OF load] by simp
qed

text \<open>
  C16.  Inserting an allocated node into a map that does not hold it always succeeds, whether
  the first table has to be made, a resizing starts, or one is under way: exactly this node
  is added, no other node is lost, no hash and no node outside the map changes, the map
  invariant holds again, and there are fewer than ten nodes per bucket of the newer table.
\<close>

theorem hm_insert_adds:
  assumes "hm_ok m hm bs1 bs2" and "h_nodes m x = Some n" and "x < h_brk m"
    and "x \<notin> set (nodes_of bs1 bs2)" and "length (nodes_of bs1 bs2) + 1 < 2 ^ 64"
  shows "\<exists>m' hm' bs1' bs2'. hm_insert m hm (Some x) = Inr (m', hm') \<and> hm_ok m' hm' bs1' bs2' \<and>
    mset (nodes_of bs1' bs2') = add_mset x (mset (nodes_of bs1 bs2)) \<and>
    length (nodes_of bs1' bs2') < 10 * length bs1' \<and> code_at m' = code_at m \<and>
    (\<forall>y. y \<noteq> x \<and> y \<notin> set (nodes_of bs1 bs2) \<longrightarrow> h_nodes m' y = h_nodes m y)"
proof -
  obtain m' hm' bs1' bs2' where I: "hm_insert m hm (Some x) = Inr (m', hm')" "hm_ok m' hm' bs1' bs2'"
      "mset (nodes_of bs1' bs2') = add_mset x (mset (nodes_of bs1 bs2))"
      "frame (insert x (set (nodes_of bs1 bs2))) (tabs hm \<union> {h_brk m..}) m m'"
    using hm_insert_spec [OF assms(1,2,4,3,5)] by metis
  have "nodes_of bs1' bs2' \<noteq> []" using I(3) by (metis empty_not_add_mset mset_zero_iff)
  then show ?thesis
    using I hm_ok_load [OF I(2)] frame_code_fun [OF I(4)] frame_nodes [OF I(4)] by blast
qed

definition demo_one :: hmem where
  "demo_one = \<lparr>h_arrs = Map.empty, h_nodes = [7 \<mapsto> \<lparr>h_next = None, h_code = 5\<rparr>], h_brk = 8\<rparr>"

lemma empty_map_ok: "hm_ok m empty_map [] []"
  by (simp add: hm_ok_def hm_rep_def hm_shape_def load_ok_def empty_map_def)

theorem hm_insert_adds_witness:
  "\<exists>m' hm' bs1' bs2'. hm_insert demo_one empty_map (Some 7) = Inr (m', hm') \<and>
     mset (nodes_of bs1' bs2') = {#7#}"
  using hm_insert_adds [OF empty_map_ok [of demo_one], of 7 "\<lparr>h_next = None, h_code = 5\<rparr>"]
  by (auto simp: demo_one_def)

text \<open>
  A lookup helps a resizing on and then returns the first node, in the order of the
  chains, with the hash looked for and on which the caller's comparison holds; nothing is
  returned when there is no such node, and the map holds the same nodes as before.  The
  comparison has to be sound only on nodes of the map with this very hash.
\<close>

theorem hm_lookup_finds:
  assumes "hm_ok m hm bs1 bs2"
    and "\<forall>y \<in> set (nodes_of bs1 bs2). code_at m y = code \<longrightarrow> eq y = Inr (E y)"
  shows "\<exists>m' hm' bs1' bs2'. hm_lookup m hm code eq
      = Inr (m', hm', find (\<lambda>y. code_at m y = code \<and> E y) (nodes_of bs1' bs2')) \<and>
    hm_ok m' hm' bs1' bs2' \<and> mset (nodes_of bs1' bs2') = mset (nodes_of bs1 bs2) \<and>
    code_at m' = code_at m"
proof -
  have "matches m code E = (\<lambda>y. code_at m y = code \<and> E y)" by (simp add: matches_def fun_eq_iff)
  then show ?thesis using hm_lookup_spec [OF assms] frame_code_fun by metis
qed

theorem hm_lookup_finds_witness:
  "\<exists>m' hm' bs1' bs2'. hm_lookup (demo_mem 5) (demo_map 5) 40 (\<lambda>y. Inr (y = 40))
      = Inr (m', hm', find (\<lambda>y. code_at (demo_mem 5) y = 40 \<and> y = 40) (nodes_of bs1' bs2')) \<and>
    mset (nodes_of bs1' bs2') = mset (concat (demo_old 5))"
  using hm_lookup_finds [OF demo_ok [of 5], of 40 "\<lambda>y. Inr (y = 40)" "\<lambda>y. y = 40"]
  by (simp add: concat_replicate_trivial) blast

text \<open>
  C17.  Deleting a key removes exactly the node that is returned, and only a node that
  matches, as long as no node is left in the older table after the help that precedes the
  search.
\<close>

theorem hm_delete_removes:
  assumes "hm_ok m hm bs1 bs2" and "length (concat bs2) \<le> k_resizing_work"
    and "\<forall>y \<in> set (nodes_of bs1 bs2). code_at m y = code \<longrightarrow> eq y = Inr (E y)"
  shows "\<exists>m' hm' bs1' bs2' p. hm_delete m hm code eq = Inr (m', hm', p) \<and> hm_ok m' hm' bs1' bs2' \<and>
    (case p of
       None \<Rightarrow> mset (nodes_of bs1' bs2') = mset (nodes_of bs1 bs2) \<and>
         (\<forall>y \<in> set (nodes_of bs1 bs2). \<not> (code_at m y = code \<and> E y))
     | Some x \<Rightarrow> add_mset x (mset (nodes_of bs1' bs2')) = mset (nodes_of bs1 bs2) \<and>
         code_at m x = code \<and> E x)"
proof -
  let ?r = "find (matches m code E) (concat (help_buckets m hm bs1 bs2))"
  have none: "drop k_resizing_work (concat bs2) = []" by (rule short_older [OF assms(2)])
  obtain m' hm' bs1' bs2' where D: "hm_delete m hm code eq = Inr (m', hm', ?r)" "hm_ok m' hm' bs1' bs2'"
      "mset (nodes_of bs1' bs2') + mset_set (set_option ?r) = mset (nodes_of bs1 bs2)"
    using hm_delete_spec [OF assms(1,3)] none by (metis find.simps(1))
  have "mset (concat (help_buckets m hm bs1 bs2)) = mset (nodes_of bs1 bs2)"
    using help_mset [of m hm bs1 bs2 "[]"] assms(1) none by (simp add: hm_ok_def)
  from found_find [OF this, of code E m] show ?thesis
    using D by (auto simp: found_def code_eq_def split: option.splits)
qed

theorem hm_delete_removes_witness:
  "\<exists>m' hm' p. hm_delete (demo_mem 3) (demo_map 3) 40 (\<lambda>y. Inr (y = 40)) = Inr (m', hm', p)"
  using hm_delete_removes [OF demo_ok [of 3], of 40 "\<lambda>y. Inr (y = 40)" "\<lambda>y. y = 40"]
  by (auto simp: demo_len k_resizing_work_def simp del: length_concat)

text \<open>
  C37.  While a resizing is under way a deletion can corrupt the map: a node found in the
  older table is detached, but the size field that goes down is the newer table's, so the
  older one keeps a size that is one too large.  If at most 128 nodes were left there, the next
  lookup or deletion runs off the end of the bucket array.  The sum \<open>hm_size\<close> reports stays right,
  so that nothing shows before.
\<close>

theorem hm_delete_then_out_of_bounds:
  assumes "hm_ok m hm bs1 bs2"
    and "\<forall>y \<in> set (nodes_of bs1 bs2). code_at m y = code \<longrightarrow> eq y = Inr (y = x)"
    and "code_at m x = code" and "x \<in> set (drop k_resizing_work (concat bs2))"
    and "length (concat bs2) \<le> 2 * k_resizing_work"
  shows "\<exists>m' hm'. hm_delete m hm code eq = Inr (m', hm', Some x) \<and>
    hm_size hm' = of_nat (length (nodes_of bs1 bs2)) - 1 \<and>
    hm_help_resizing m' hm' = Inl OutOfBounds \<and>
    (\<forall>c e. hm_lookup m' hm' c e = Inl OutOfBounds \<and> hm_delete m' hm' c e = Inl OutOfBounds)"
proof -
  let ?P = "matches m code (\<lambda>y. y = x)"
  have P: "?P = (\<lambda>y. y = x)" using assms(3) by (auto simp: matches_def fun_eq_iff)
  have only: "find ?P xs = (if x \<in> set xs then Some x else None)" for xs
    unfolding P by (induction xs) auto
  have rep: "hm_rep m hm bs1 bs2" using assms(1) by (simp add: hm_ok_def)
  note S = hm_shapeD [OF hm_repD(1) [OF rep]]
  have "distinct (take k_resizing_work (concat bs2) @ drop k_resizing_work (concat bs2))"
    using tab_shape_distinct [OF S(2)] by (simp only: append_take_drop_id)
  then have "x \<notin> set (take k_resizing_work (concat bs2))"
    using assms(4) unfolding distinct_append by blast
  moreover have "x \<notin> set (concat bs1)" using S(3) assms(4) in_set_dropD by fastforce
  ultimately have "x \<notin> set (concat (help_buckets m hm bs1 bs2))"
    using arg_cong [OF mset_help_buckets [OF rep], of set_mset] by auto
  then obtain m' hm' bs2' where D: "hm_delete m hm code eq = Inr (m', hm', Some x)"
      "hm_shape m' hm' (help_buckets m hm bs1 bs2) bs2'" "tab (ht2 hm') \<noteq> None"
      "Suc (length (concat bs2')) = length (concat bs2) - k_resizing_work"
      "ht_size (ht2 hm') = of_nat (length (concat bs2') + 1)"
      "hm_size hm' = of_nat (length (nodes_of bs1 bs2)) - 1"
    using hm_delete_older [OF assms(1,2)] only assms(4) by metis
  have "hm_help_resizing m' hm' = Inl OutOfBounds"
    using D(4) assms(5) by (intro help_excess [OF D(2,3,5)]) simp
  then show ?thesis using D(1,6) by (auto simp: hm_lookup_def hm_delete_def)
qed

theorem hm_delete_then_out_of_bounds_witness:
  "\<exists>m' hm'. hm_delete (demo_mem 5) (demo_map 5) 159 (\<lambda>y. Inr (y = 159)) = Inr (m', hm', Some 159) \<and>
    hm_size hm' = 159 \<and> hm_help_resizing m' hm' = Inl OutOfBounds"
proof -
  have "159 \<in> set (drop k_resizing_work (concat (demo_old 5)))"
    by code_simp
  moreover have "code_at (demo_mem 5) 159 = 159" using demo_code [of 5 159] by simp
  ultimately show ?thesis
    using hm_delete_then_out_of_bounds [OF demo_ok [of 5], of 159 "\<lambda>y. Inr (y = 159)" 159]
    by (auto simp: demo_len k_resizing_work_def concat_replicate_trivial simp del: length_concat)
qed

text \<open>
  C8.  A map of at most 128 nodes, hashed by their keys, refines a finite map from keys to
  nodes: every sequence of insertions of nodes with new keys, lookups and deletions, whatever
  the hash function and its collisions, returns what the finite map returns.
\<close>

theorem hm_refines_map:
  assumes "\<forall>x. live x \<longrightarrow> (\<exists>n. h_nodes m x = Some n \<and> h_code n = hash (key x)) \<and> x < h_brk m"
    and "ops_ok live key ops Map.empty 0"
  shows "run_ops map_ins map_look map_del key hash ops (m, empty_map)
    = Inr (map_run key ops Map.empty)"
proof (rule hmap.run_is_map)
  show "map_holds (m, empty_map) (mset_set (ran Map.empty))"
    using empty_map_ok [of m] by (auto simp: map_holds_def intro!: exI [of _ "[]"])
  show "\<forall>x. live x \<longrightarrow> map_alive (m, empty_map) x \<and> code_at (fst (m, empty_map)) x = hash (key x)"
    using assms(1) by (auto simp: map_alive_def)
qed (use assms(2) in \<open>auto simp: keyed_def\<close>)

definition demo_three :: hmem where
  "demo_three = \<lparr>h_arrs = Map.empty,
     h_nodes = (\<lambda>a. if a < 4 then Some \<lparr>h_next = None, h_code = 9\<rparr> else None), h_brk = 4\<rparr>"

theorem hm_refines_map_witness:
  "run_ops map_ins map_look map_del (\<lambda>x. x mod 3) (\<lambda>_. 9)
     [HIns 1, HIns 2, HLook 1, HDel 2, HLook 2, HDel 1, HIns 1, HLook 1] (demo_three, empty_map)
   = Inr [Some 1, Some 2, None, Some 1, Some 1]"
  using hm_refines_map [of "\<lambda>x. x < 4" demo_three "\<lambda>_. 9" "\<lambda>x. x mod 3"
      "[HIns 1, HIns 2, HLook 1, HDel 2, HLook 2, HDel 1, HIns 1, HLook 1]"]
  by (simp add: demo_three_def k_resizing_work_def)

text \<open>
  The older table, whatever the memory holds: helping moves 128 nodes out of it, or all of them, and then its array
  is freed.
\<close>

lemma h_detach_size: "h_detach m ht loc = Inr (m', ht', p) \<Longrightarrow> ht' = ht\<lparr>ht_size := ht_size ht - 1\<rparr>"
  by (auto simp: h_detach_def bindr_eq_Inr)

lemma hinsert_tab: "hinsert m ht p = Inr (m', ht') \<Longrightarrow> tab ht' = tab ht"
  by (auto simp: hinsert_def Let_def bindr_eq_Inr)

lemma help_loop_older:
  "help_loop nwork m hm = Inr (m', hm') \<Longrightarrow>
     tab (ht2 hm') = tab (ht2 hm) \<and> unat (ht_size (ht2 hm')) = unat (ht_size (ht2 hm)) - (k_resizing_work - nwork)"
proof (induction nwork m hm rule: help_loop.induct)
  case (1 nwork m hm)
  show ?case
  proof (cases "nwork < k_resizing_work \<and> ht_size (ht2 hm) > 0")
    case False
    then show ?thesis using 1(3) by (subst (asm) help_loop.simps) (auto simp: word_gt_0)
  next
    case True
    obtain slot p where s: "slot_of (ht2 hm) (resizing_pos hm) = Inr slot" "get_loc m slot = Inr p"
      using 1(3) True by (subst (asm) help_loop.simps) (auto simp: bindr_eq_Inr)
    show ?thesis
    proof (cases p)
      case None
      then show ?thesis using 1(1) [OF True s None] 1(3) True s by (subst (asm) help_loop.simps) simp
    next
      case (Some x)
      obtain m1 t2 node m2 t1 where d: "h_detach m (ht2 hm) slot = Inr (m1, t2, node)" "hinsert m1 (ht1 hm) node = Inr (m2, t1)"
          "help_loop (nwork + 1) m2 (hm\<lparr>ht1 := t1, ht2 := t2\<rparr>) = Inr (m', hm')"
        using 1(3) True s Some by (subst (asm) help_loop.simps) (auto simp: bindr_eq_Inr)
      have "unat (ht_size (ht2 hm) - 1) = unat (ht_size (ht2 hm)) - 1"
        using True by (metis unat_minus_one word_neq_0_conv)
      then show ?thesis
        using 1(2) [OF True s Some d(1) refl refl d(2) refl d(3)] h_detach_size [OF d(1)] True by simp
    qed
  qed
qed

lemma help_older:
  assumes "hm_help_resizing m hm = Inr (m', hm')" and "tab (ht2 hm) = Some a"
  shows "h_arrs m' a = None \<or> tab (ht2 hm') = Some a \<and> k_resizing_work < unat (ht_size (ht2 hm)) \<and>
    unat (ht_size (ht2 hm')) = unat (ht_size (ht2 hm)) - k_resizing_work"
proof -
  obtain m1 hm1 where L: "help_loop 0 m hm = Inr (m1, hm1)"
    using assms(1) by (auto simp: hm_help_resizing_def bindr_eq_Inr)
  note O = help_loop_older [OF L]
  show ?thesis
  proof (cases "ht_size (ht2 hm1) = 0")
    case True
    then show ?thesis using assms L O by (auto simp: hm_help_resizing_def)
  next
    case False
    then have "unat (ht_size (ht2 hm1)) \<noteq> 0" by (simp add: unat_eq_0)
    then show ?thesis using assms L O False by (auto simp: hm_help_resizing_def)
  qed
qed

lemma insert_older:
  assumes "hm_insert m hm p = Inr (m', hm')" and "tab (ht2 hm) = Some a"
  shows "h_arrs m' a = None \<or> tab (ht2 hm') = Some a \<and> k_resizing_work < unat (ht_size (ht2 hm)) \<and>
    unat (ht_size (ht2 hm')) = unat (ht_size (ht2 hm)) - k_resizing_work"
proof -
  obtain m3 hm3 where "hm_help_resizing m3 hm3 = Inr (m', hm')" "ht2 hm3 = ht2 hm"
    using assms by (auto simp: hm_insert_def Let_def bindr_eq_Inr split: if_splits)
  then show ?thesis using help_older [of m3 hm3 m' hm' a] assms(2) by simp
qed

lemma lookup_older:
  assumes "hm_lookup m hm code eq = Inr (m', hm', p)" and "tab (ht2 hm) = Some a"
  shows "h_arrs m' a = None \<or> tab (ht2 hm') = Some a \<and> k_resizing_work < unat (ht_size (ht2 hm)) \<and>
    unat (ht_size (ht2 hm')) = unat (ht_size (ht2 hm)) - k_resizing_work"
proof -
  have "hm_help_resizing m hm = Inr (m', hm')"
    using assms(1) by (auto simp: hm_lookup_def bindr_eq_Inr split: option.splits)
  then show ?thesis using assms(2) by (rule help_older)
qed

text \<open>Insertions and look-ups, and what they need in a memory where the map has the nodes \<open>X\<close>.\<close>

datatype mop = MIns addr | MLook u64 "addr \<Rightarrow> bool res"

fun map_ops :: "mop list \<Rightarrow> hmem \<Rightarrow> HMap \<Rightarrow> (hmem \<times> HMap) res" where
  "map_ops [] m hm = Inr (m, hm)"
| "map_ops (MIns x # ops) m hm = bindr (hm_insert m hm (Some x)) (\<lambda>(m', hm'). map_ops ops m' hm')"
| "map_ops (MLook code eq # ops) m hm = bindr (hm_lookup m hm code eq) (\<lambda>(m', hm', p). map_ops ops m' hm')"

fun inserted :: "mop list \<Rightarrow> addr list" where
  "inserted [] = []"
| "inserted (MIns x # ops) = x # inserted ops"
| "inserted (MLook code eq # ops) = inserted ops"

fun mops_ok :: "hmem \<Rightarrow> addr set \<Rightarrow> mop list \<Rightarrow> bool" where
  "mops_ok m X [] \<longleftrightarrow> True"
| "mops_ok m X (MIns x # ops) \<longleftrightarrow> h_nodes m x \<noteq> None \<and> x < h_brk m \<and> x \<notin> X \<and> mops_ok m (insert x X) ops"
| "mops_ok m X (MLook code eq # ops) \<longleftrightarrow>
     (\<forall>y \<in> X. code_at m y = code \<longrightarrow> (\<exists>b. eq y = Inr b)) \<and> mops_ok m X ops"

lemma mops_ok_frame:
  assumes "frame Y A m m'"
  shows "mops_ok m X ops \<Longrightarrow> mops_ok m' X ops"
  using frame_alive [OF assms] frame_code [OF assms] frame_brk [OF assms]
  by (induction m X ops rule: mops_ok.induct) auto

text \<open>The array \<open>a\<close> of the older table has been freed, or at most \<open>128 * k\<close> of its nodes are left.\<close>

definition going :: "addr \<Rightarrow> nat \<Rightarrow> hmem \<Rightarrow> HMap \<Rightarrow> bool" where
  "going a k m hm \<longleftrightarrow> a < h_brk m \<and> (h_arrs m a = None \<or>
     tab (ht2 hm) = Some a \<and> 0 < k \<and> unat (ht_size (ht2 hm)) \<le> k * k_resizing_work)"

lemma hm_ok_arrs: "hm_ok m hm bs1 bs2 \<Longrightarrow> a \<in> tabs hm \<Longrightarrow> a < h_brk m \<and> h_arrs m a \<noteq> None"
  by (auto simp: hm_ok_def hm_rep_def hm_shape_def tabs_def elem_set tab_shape_Some)

lemma going_step:
  assumes "going a (Suc k) m hm" and ok: "hm_ok m hm bs1 bs2" and F: "frame X (tabs hm \<union> {h_brk m..}) m m'"
    and older: "tab (ht2 hm) = Some a \<Longrightarrow> h_arrs m' a = None \<or> tab (ht2 hm') = Some a \<and>
      k_resizing_work < unat (ht_size (ht2 hm)) \<and> unat (ht_size (ht2 hm')) = unat (ht_size (ht2 hm)) - k_resizing_work"
  shows "going a k m' hm'"
proof (cases "h_arrs m a")
  case None
  then have "a \<notin> tabs hm" using hm_ok_arrs [OF ok] by blast
  then have "h_arrs m' a = None" using None frame_arrs [OF F] assms(1) by (simp add: going_def)
  then show ?thesis using assms(1) frame_brk [OF F] by (simp add: going_def)
next
  case (Some b)
  then have "tab (ht2 hm) = Some a" "unat (ht_size (ht2 hm)) \<le> Suc k * k_resizing_work" "a < h_brk m'"
    using assms(1) frame_brk [OF F] by (auto simp: going_def)
  then show ?thesis using older by (cases k) (auto simp: going_def)
qed

lemma map_ops_run:
  assumes "hm_ok m hm bs1 bs2" and "mops_ok m (set (nodes_of bs1 bs2)) ops" and "going a k m hm"
    and "length (nodes_of bs1 bs2) + length ops < 2 ^ 64" and "k \<le> length ops"
  shows "\<exists>m' hm' cs1 cs2. map_ops ops m hm = Inr (m', hm') \<and> hm_ok m' hm' cs1 cs2 \<and>
    mset (nodes_of cs1 cs2) = mset (nodes_of bs1 bs2) + mset (inserted ops) \<and> h_arrs m' a = None"
  using assms
proof (induction ops arbitrary: m hm bs1 bs2 k)
  case Nil
  then show ?case by (auto simp: going_def)
next
  case (Cons op ops)
  obtain k' where k: "going a (Suc k') m hm" "k' \<le> length ops"
  proof (cases k)
    case 0
    then have "going a (Suc 0) m hm" using Cons.prems(3) by (auto simp: going_def)
    then show ?thesis using that by simp
  qed (use that Cons.prems(3,5) in simp)
  show ?case
  proof (cases op)
    case (MIns x)
    obtain n where x: "h_nodes m x = Some n" "x < h_brk m" "x \<notin> set (nodes_of bs1 bs2)"
        "mops_ok m (insert x (set (nodes_of bs1 bs2))) ops"
      using Cons.prems(2) unfolding MIns mops_ok.simps by blast
    have small: "length (nodes_of bs1 bs2) + 1 < 2 ^ 64" using Cons.prems(4) unfolding length_Cons by linarith
    obtain m' hm' cs1 cs2 where I: "hm_insert m hm (Some x) = Inr (m', hm')" "hm_ok m' hm' cs1 cs2"
        "mset (nodes_of cs1 cs2) = add_mset x (mset (nodes_of bs1 bs2))"
        "frame (insert x (set (nodes_of bs1 bs2))) (tabs hm \<union> {h_brk m..}) m m'" "tabs hm' \<subseteq> tabs hm \<union> {h_brk m..}"
      by (rule hm_insert_spec [OF Cons.prems(1) x(1,3,2) small])
    have nodes: "set (nodes_of cs1 cs2) = insert x (set (nodes_of bs1 bs2))"
      using arg_cong [OF I(3), of set_mset] unfolding set_mset_mset set_mset_add_mset_insert .
    have len: "length (nodes_of cs1 cs2) + length ops < 2 ^ 64"
      using arg_cong [OF I(3), of size] Cons.prems(4) unfolding size_mset size_add_mset length_Cons by linarith
    have "going a k' m' hm'" by (rule going_step [OF k(1) Cons.prems(1) I(4) insert_older [OF I(1)]])
    moreover have "mops_ok m' (set (nodes_of cs1 cs2)) ops" unfolding nodes by (rule mops_ok_frame [OF I(4) x(4)])
    ultimately show ?thesis using Cons.IH [OF I(2) _ _ len k(2)] I(1,3) MIns by (auto simp del: mset_append)
  next
    case (MLook code eq)
    have eq: "\<forall>y \<in> set (nodes_of bs1 bs2). code_at m y = code \<longrightarrow> eq y = Inr (eq y = Inr True)"
      and rest: "mops_ok m (set (nodes_of bs1 bs2)) ops"
      using Cons.prems(2) unfolding MLook mops_ok.simps by (metis (full_types))+
    obtain m' hm' p cs1 cs2 where I: "hm_lookup m hm code eq = Inr (m', hm', p)" "hm_ok m' hm' cs1 cs2"
        "mset (nodes_of cs1 cs2) = mset (nodes_of bs1 bs2)" "frame (set (nodes_of bs1 bs2)) (tabs hm) m m'"
      by (rule hm_lookup_member [OF Cons.prems(1) eq])
    have F: "frame (set (nodes_of bs1 bs2)) (tabs hm \<union> {h_brk m..}) m m'" by (rule frame_mono [OF I(4)]) auto
    have nodes: "set (nodes_of cs1 cs2) = set (nodes_of bs1 bs2)" by (rule mset_eq_setD [OF I(3)])
    have len: "length (nodes_of cs1 cs2) + length ops < 2 ^ 64"
      using arg_cong [OF I(3), of size] Cons.prems(4) unfolding size_mset length_Cons by linarith
    have "going a k' m' hm'" by (rule going_step [OF k(1) Cons.prems(1) F lookup_older [OF I(1)]])
    moreover have "mops_ok m' (set (nodes_of cs1 cs2)) ops" unfolding nodes by (rule mops_ok_frame [OF F rest])
    ultimately show ?thesis using Cons.IH [OF I(2) _ _ len k(2)] I(1,3) MLook by (auto simp del: mset_append)
  qed
qed

text \<open>
  C18.  A resizing ends.  From a map with an older table, whose array of buckets is \<open>a\<close>, every run of insertions of new nodes
  and of look-ups, with more operations than the older table has nodes divided by 128, returns; by then the array \<open>a\<close> has been
  freed and is no longer a table of the map, the map is in order, and its nodes are those it had and the inserted ones.
\<close>

theorem hm_resizing_ends:
  assumes "hm_ok m hm bs1 bs2" and "tab (ht2 hm) = Some a" and "mops_ok m (set (nodes_of bs1 bs2)) ops"
    and "length (concat bs2) div k_resizing_work < length ops" and "length (nodes_of bs1 bs2) + length ops < 2 ^ 64"
  shows "\<exists>m' hm' cs1 cs2. map_ops ops m hm = Inr (m', hm') \<and> h_arrs m' a = None \<and> a \<notin> tabs hm' \<and>
    hm_ok m' hm' cs1 cs2 \<and> mset (nodes_of cs1 cs2) = mset (nodes_of bs1 bs2) + mset (inserted ops)"
proof -
  let ?k = "length (concat bs2) div k_resizing_work + 1"
  have rep: "hm_rep m hm bs1 bs2" using assms(1) by (simp add: hm_ok_def)
  have small: "length (concat bs2) < 2 ^ 64" using hm_repD(4) [OF rep] unfolding length_append by linarith
  have n: "unat (ht_size (ht2 hm)) = length (concat bs2)"
    using hm_repD(3) [OF rep] small by (simp add: unat_of_nat take_bit_nat_eq_self del: length_concat)
  have "length (concat bs2) \<le> ?k * k_resizing_work"
    using dividend_less_div_times [of k_resizing_work "length (concat bs2)"]
    by (simp add: k_resizing_work_def add.commute del: length_concat)
  moreover have "a < h_brk m" using hm_ok_arrs [OF assms(1), of a] assms(2) by (simp add: tabs_def)
  ultimately have "going a ?k m hm" using n assms(2) by (simp add: going_def del: length_concat)
  from map_ops_run [OF assms(1,3) this assms(5)] assms(4)
  obtain m' hm' cs1 cs2 where R: "map_ops ops m hm = Inr (m', hm')" "hm_ok m' hm' cs1 cs2"
      "mset (nodes_of cs1 cs2) = mset (nodes_of bs1 bs2) + mset (inserted ops)" "h_arrs m' a = None"
    by auto
  moreover have "a \<notin> tabs hm'" using hm_ok_arrs [OF R(2)] R(4) by blast
  ultimately show ?thesis by blast
qed

text \<open>An older table of 160 nodes, and two look-ups.\<close>

theorem hm_resizing_ends_witness:
  "\<exists>m' hm' cs1 cs2. map_ops [MLook 0 (\<lambda>_. Inr False), MLook 1 (\<lambda>_. Inr True)] (demo_mem 5) (demo_map 5) = Inr (m', hm') \<and>
     h_arrs m' 301 = None \<and> hm_ok m' hm' cs1 cs2 \<and> mset (nodes_of cs1 cs2) = mset (concat (demo_old 5))"
proof -
  have "tab (ht2 (demo_map 5)) = Some 301" by (simp add: demo_map_def)
  from hm_resizing_ends [OF demo_ok [of 5] this, of "[MLook 0 (\<lambda>_. Inr False), MLook 1 (\<lambda>_. Inr True)]"]
  show ?thesis by (simp add: demo_len k_resizing_work_def concat_replicate_trivial del: length_concat) blast
qed

text \<open>
  \<open>h_scan\<close> of both tables calls the callback once for every node of the map, bucket by
  bucket and along each chain, and ends.
\<close>

theorem hm_scan_visits_all:
  assumes "hm_rep m hm bs1 bs2"
  shows "bindr (h_scan m (ht1 hm) f s) (h_scan m (ht2 hm) f) = visit_all f (nodes_of bs1 bs2) s"
proof -
  note R = hm_repD [OF assms] and S = hm_shapeD [OF hm_repD(1) [OF assms]]
  have len: "length (concat bs1) < 2 ^ 64" "length (concat bs2) < 2 ^ 64" using R(4) by simp_all
  show ?thesis
    unfolding visit_all_append h_scan_spec [OF S(1) R(2) len(1)]
    by (rule bindr_cong) (simp_all add: h_scan_spec [OF S(2) R(3) len(2)])
qed

theorem hm_scan_visits_all_witness:
  "bindr (h_scan (demo_mem 2) (ht1 (demo_map 2)) (\<lambda>a s. Inr (s + 1)) 0)
      (h_scan (demo_mem 2) (ht2 (demo_map 2)) (\<lambda>a s. Inr (s + 1)))
    = visit_all (\<lambda>a s. Inr (s + 1)) (concat (demo_old 2)) (0 :: nat)"
proof -
  have "hm_rep (demo_mem 2) (demo_map 2) demo_new (demo_old 2)"
    using demo_ok [of 2] by (simp add: hm_ok_def)
  from hm_scan_visits_all [OF this] show ?thesis by (simp add: concat_replicate_trivial)
qed

end
