(* ===== verification/Timer_Heap.thy ===== *)
theory Timer_Heap
  imports Prelude
begin

text \<open>
  \<open>heap.cpp\<close> and its client \<open>entry_set_ttl\<close> of \<open>common.cpp\<close>: a binary min-heap of deadlines in
  an array.  Every item points back at the \<open>heap_idx\<close> field of the entry it belongs to, and
  each move of an item keeps that field equal to the item's position.
\<close>

section \<open>Data\<close>

text \<open>
  \<open>ref\<close> points at the \<open>heap_idx\<close> of an entry, so that it is the entry's address.  The indices
  are a store of their own; the index of an entry with no deadline is \<open>(size_t)-1\<close>.
\<close>

record HeapItem =
  hi_val :: u64
  hi_ref :: ptr

type_synonym heap = "HeapItem list"

definition aget :: "'a list \<Rightarrow> nat \<Rightarrow> 'a res" where
  "aget a i = (if i < length a then Inr (a ! i) else Inl OutOfBounds)"

definition aset :: "'a list \<Rightarrow> nat \<Rightarrow> 'a \<Rightarrow> 'a list res" where
  "aset a i x = (if i < length a then Inr (a[i := x]) else Inl OutOfBounds)"

text \<open>\<open>*item.ref = pos\<close>.\<close>

definition set_ref :: "u64 store \<Rightarrow> HeapItem \<Rightarrow> nat \<Rightarrow> u64 store res" where
  "set_ref refs t pos = update refs (hi_ref t) (\<lambda>_. of_nat pos)"

section \<open>Operations\<close>

definition heap_parent :: "nat \<Rightarrow> nat" where
  "heap_parent i = (i + 1) div 2 - 1"

definition heap_left :: "nat \<Rightarrow> nat" where
  "heap_left i = i * 2 + 1"

definition heap_right :: "nat \<Rightarrow> nat" where
  "heap_right i = i * 2 + 2"

lemma heap_parent_less: "0 < i \<Longrightarrow> heap_parent i < i"
  by (simp add: heap_parent_def)

text \<open>The loop of \<open>heap_up\<close>, and the two assignments after it.\<close>

function heap_up_loop :: "HeapItem \<Rightarrow> heap \<Rightarrow> nat \<Rightarrow> u64 store \<Rightarrow> (heap \<times> u64 store) res" where
  "heap_up_loop t a pos refs =
     bindr (if pos > 0 then bindr (aget a (heap_parent pos)) (\<lambda>p. Inr (hi_val p > hi_val t))
            else Inr False) (\<lambda>go.
     if go \<and> pos > 0 then
       bindr (aget a (heap_parent pos)) (\<lambda>p.
       bindr (aset a pos p) (\<lambda>a'.
       bindr (checkr AssertFailed (hi_ref p \<noteq> None)) (\<lambda>_.
       bindr (set_ref refs p pos) (\<lambda>refs'.
         heap_up_loop t a' (heap_parent pos) refs'))))
     else
       bindr (aset a pos t) (\<lambda>a'.
       bindr (set_ref refs t pos) (\<lambda>refs'.
         Inr (a', refs'))))"
  by pat_completeness auto
termination
  by (relation "measure (\<lambda>(t, a, pos, refs). pos)") (auto simp: heap_parent_less)

declare heap_up_loop.simps [simp del]

definition heap_up :: "heap \<Rightarrow> nat \<Rightarrow> u64 store \<Rightarrow> (heap \<times> u64 store) res" where
  "heap_up a pos refs =
     bindr (aget a pos) (\<lambda>t.
     bindr (checkr AssertFailed (hi_ref t \<noteq> None)) (\<lambda>_.
       heap_up_loop t a pos refs))"

text \<open>The child that must move up, if any: the position of the least of \<open>t\<close> and the children.\<close>

definition min_child :: "heap \<Rightarrow> nat \<Rightarrow> nat \<Rightarrow> u64 \<Rightarrow> nat res" where
  "min_child a pos len tval =
     (let l = heap_left pos; r = heap_right pos in
      bindr (if l < len
             then bindr (aget a l) (\<lambda>x. Inr (if hi_val x < tval then (l, hi_val x) else (pos, tval)))
             else Inr (pos, tval)) (\<lambda>(min_pos, min_val).
      if r < len
      then bindr (aget a r) (\<lambda>x. Inr (if hi_val x < min_val then r else min_pos))
      else Inr min_pos))"

lemma min_child_cases:
  "min_child a pos len v = Inr q \<Longrightarrow> q = pos \<or> pos < q \<and> q < len"
  by (auto simp: min_child_def heap_left_def heap_right_def Let_def bindr_eq_Inr
      split: if_splits)

function heap_down_loop ::
  "HeapItem \<Rightarrow> heap \<Rightarrow> nat \<Rightarrow> nat \<Rightarrow> u64 store \<Rightarrow> (heap \<times> u64 store) res" where
  "heap_down_loop t a pos len refs =
     bindr (min_child a pos len (hi_val t)) (\<lambda>min_pos.
     if min_pos = pos then
       bindr (aset a pos t) (\<lambda>a'.
       bindr (set_ref refs t pos) (\<lambda>refs'.
         Inr (a', refs')))
     else
       bindr (aget a min_pos) (\<lambda>p.
       bindr (aset a pos p) (\<lambda>a'.
       bindr (checkr AssertFailed (hi_ref p \<noteq> None)) (\<lambda>_.
       bindr (set_ref refs p pos) (\<lambda>refs'.
         heap_down_loop t a' min_pos len refs')))))"
  by pat_completeness auto
termination
  by (relation "measure (\<lambda>(t, a, pos, len, refs). len - pos)") (auto dest!: min_child_cases)

declare heap_down_loop.simps [simp del]

definition heap_down :: "heap \<Rightarrow> nat \<Rightarrow> nat \<Rightarrow> u64 store \<Rightarrow> (heap \<times> u64 store) res" where
  "heap_down a pos len refs =
     bindr (aget a pos) (\<lambda>t.
     bindr (checkr AssertFailed (hi_ref t \<noteq> None)) (\<lambda>_.
       heap_down_loop t a pos len refs))"

definition heap_update :: "heap \<Rightarrow> nat \<Rightarrow> nat \<Rightarrow> u64 store \<Rightarrow> (heap \<times> u64 store) res" where
  "heap_update a pos len refs =
     bindr (if pos > 0
            then bindr (aget a (heap_parent pos)) (\<lambda>p. bindr (aget a pos) (\<lambda>t.
                   Inr (hi_val p > hi_val t)))
            else Inr False) (\<lambda>up.
     if up then heap_up a pos refs else heap_down a pos len refs)"

text \<open>
  Taking the item at \<open>pos\<close> out of the vector: the last item takes its place.  The same lines
  are in \<open>entry_set_ttl\<close> and in \<open>process_timers\<close>.  On an empty vector \<open>size() - 1\<close> wraps and
  the access is out of bounds.
\<close>

definition heap_remove :: "heap \<Rightarrow> nat \<Rightarrow> u64 store \<Rightarrow> (heap \<times> u64 store) res" where
  "heap_remove h pos refs =
     (let lst = length h - 1 in
      bindr (if pos \<noteq> lst
             then bindr (aget h lst) (\<lambda>x. bindr (aset h pos x) (\<lambda>h1.
                  bindr (set_ref refs x pos) (\<lambda>refs1. Inr (h1, refs1))))
             else Inr (h, refs)) (\<lambda>(h1, refs1).
      bindr (checkr OutOfBounds (h1 \<noteq> [])) (\<lambda>_.
      let h2 = butlast h1 in
      if pos < length h2 then heap_update h2 pos (length h2) refs1 else Inr (h2, refs1))))"

text \<open>
  \<open>entry_set_ttl\<close>: \<open>now\<close> is what \<open>get_monotonic_usec\<close> returns and \<open>ttl_ms\<close> an \<open>int64_t\<close>.
\<close>

definition entry_set_ttl ::
  "u64 \<Rightarrow> addr \<Rightarrow> u64 \<Rightarrow> heap \<times> u64 store \<Rightarrow> (heap \<times> u64 store) res" where
  "entry_set_ttl now ent ttl_ms s = (case s of (h, refs) \<Rightarrow>
     bindr (load refs (Some ent)) (\<lambda>heap_idx.
     if sint ttl_ms < 0 \<and> heap_idx \<noteq> - 1 then
       bindr (heap_remove h (unat heap_idx) refs) (\<lambda>(h', refs').
       bindr (update refs' (Some ent) (\<lambda>_. - 1)) (\<lambda>refs''.
       Inr (h', refs'')))
     else if sint ttl_ms \<ge> 0 then
       bindr (if heap_idx = - 1
              then let h1 = h @ [\<lparr>hi_val = 0, hi_ref = Some ent\<rparr>]; pos = length h1 - 1 in
                bindr (update refs (Some ent) (\<lambda>_. of_nat pos)) (\<lambda>refs1. Inr (h1, refs1, pos))
              else Inr (h, refs, unat heap_idx)) (\<lambda>(h1, refs1, pos).
       bindr (aget h1 pos) (\<lambda>x.
       bindr (aset h1 pos (x\<lparr>hi_val := now + ttl_ms * 1000\<rparr>)) (\<lambda>h2.
       heap_update h2 pos (length h2) refs1)))
     else Inr (h, refs)))"

section \<open>The heap order\<close>

lemma parent_iff: "0 < i \<Longrightarrow> heap_parent i = j \<longleftrightarrow> i = heap_left j \<or> i = heap_right j"
  unfolding heap_parent_def heap_left_def heap_right_def by presburger

lemma parent_left [simp]: "heap_parent (heap_left j) = j"
  by (simp add: heap_parent_def heap_left_def)

lemma parent_right [simp]: "heap_parent (heap_right j) = j"
  by (simp add: heap_parent_def heap_right_def)

lemma aget_Inr [simp]: "i < length a \<Longrightarrow> aget a i = Inr (a ! i)"
  by (simp add: aget_def)

lemma aset_Inr [simp]: "i < length a \<Longrightarrow> aset a i x = Inr (a[i := x])"
  by (simp add: aset_def)

definition heap_ok :: "heap \<Rightarrow> bool" where
  "heap_ok a \<longleftrightarrow> (\<forall>i < length a. 0 < i \<longrightarrow> hi_val (a ! heap_parent i) \<le> hi_val (a ! i))"

text \<open>
  The order may fail only around \<open>pos\<close>, where some value has been overwritten: its children
  are still not less than its parent.
\<close>

definition heap_except :: "heap \<Rightarrow> nat \<Rightarrow> bool" where
  "heap_except a pos \<longleftrightarrow>
     (\<forall>i < length a. 0 < i \<longrightarrow> i \<noteq> pos \<longrightarrow> heap_parent i \<noteq> pos \<longrightarrow>
        hi_val (a ! heap_parent i) \<le> hi_val (a ! i)) \<and>
     (\<forall>i < length a. 0 < i \<longrightarrow> heap_parent i = pos \<longrightarrow> 0 < pos \<longrightarrow>
        hi_val (a ! heap_parent pos) \<le> hi_val (a ! i))"

lemma heap_except_update:
  assumes "heap_ok a"
  shows "heap_except (a[pos := x]) pos"
proof -
  have le: "i < length a \<Longrightarrow> 0 < i \<Longrightarrow> hi_val (a ! heap_parent i) \<le> hi_val (a ! i)" for i
    using assms by (simp add: heap_ok_def)
  have "hi_val (a[pos := x] ! heap_parent i) \<le> hi_val (a[pos := x] ! i)"
    if "i < length a" "0 < i" "i \<noteq> pos" "heap_parent i \<noteq> pos" for i
    using le [OF that(1,2)] that(3,4) by simp
  moreover have "hi_val (a[pos := x] ! heap_parent pos) \<le> hi_val (a[pos := x] ! i)"
    if "i < length a" "0 < i" "heap_parent i = pos" "0 < pos" for i
  proof -
    have "pos < i" "heap_parent pos < pos"
      using heap_parent_less [OF that(2)] heap_parent_less [OF that(4)] that(3) by simp_all
    moreover have "hi_val (a ! heap_parent pos) \<le> hi_val (a ! i)"
      using le [of i] le [of pos] \<open>pos < i\<close> that by simp
    ultimately show ?thesis by simp
  qed
  ultimately show ?thesis unfolding heap_except_def by simp
qed

text \<open>The least value is at the root.\<close>

lemma heap_ok_root: "heap_ok a \<Longrightarrow> i < length a \<Longrightarrow> hi_val (a ! 0) \<le> hi_val (a ! i)"
proof (induction i rule: less_induct)
  case (less i)
  show ?case
  proof (cases "i = 0")
    case False
    then have "heap_parent i < i" by (simp add: heap_parent_less)
    then have "hi_val (a ! 0) \<le> hi_val (a ! heap_parent i)" using less by simp
    also have "\<dots> \<le> hi_val (a ! i)" using less.prems False by (simp add: heap_ok_def)
    finally show ?thesis .
  qed simp
qed

lemma heap_ok_butlast: "heap_ok a \<Longrightarrow> heap_ok (butlast a)"
  unfolding heap_ok_def
proof (intro allI impI)
  fix i
  assume ok: "\<forall>i < length a. 0 < i \<longrightarrow> hi_val (a ! heap_parent i) \<le> hi_val (a ! i)"
    and i: "i < length (butlast a)" "0 < i"
  then have "heap_parent i < length (butlast a)" using heap_parent_less [OF i(2)] by simp
  then show "hi_val (butlast a ! heap_parent i) \<le> hi_val (butlast a ! i)"
    using ok i by (simp add: nth_butlast)
qed

text \<open>Moving the hole one step: the parent comes down, or the lesser child comes up.\<close>

definition swap :: "heap \<Rightarrow> nat \<Rightarrow> nat \<Rightarrow> heap" where
  "swap b i j = b[i := b ! j, j := b ! i]"

lemma length_swap [simp]: "length (swap b i j) = length b"
  by (simp add: swap_def)

lemma mset_swap_heap: "i < length b \<Longrightarrow> j < length b \<Longrightarrow> mset (swap b i j) = mset b"
  unfolding swap_def by (rule mset_swap)

lemma nth_swap:
  "i < length b \<Longrightarrow> j < length b \<Longrightarrow> k < length b \<Longrightarrow>
   swap b i j ! k = (if k = j then b ! i else if k = i then b ! j else b ! k)"
  by (simp add: swap_def nth_list_update)

lemma up_step:
  assumes "heap_except b pos" and "0 < pos" "pos < length b"
    and "hi_val (b ! pos) < hi_val (b ! heap_parent pos)"
  shows "heap_except (swap b pos (heap_parent pos)) (heap_parent pos)"
    and "\<forall>i < length b. 0 < i \<longrightarrow> heap_parent i = heap_parent pos \<longrightarrow>
      hi_val (b ! pos) \<le> hi_val (swap b pos (heap_parent pos) ! i)"
proof -
  let ?q = "heap_parent pos" and ?b = "swap b pos (heap_parent pos)"
  have q: "?q < pos" using assms(2) by (rule heap_parent_less)
  have E: "hi_val (b ! heap_parent i) \<le> hi_val (b ! i)"
    if "i < length b" "0 < i" "i \<noteq> pos" "heap_parent i \<noteq> pos" for i
    using assms(1) that by (simp add: heap_except_def)
  have B: "hi_val (b ! ?q) \<le> hi_val (b ! i)" if "i < length b" "0 < i" "heap_parent i = pos" for i
    using assms(1,2) that by (simp add: heap_except_def)
  have nth: "?b ! k = (if k = ?q then b ! pos else if k = pos then b ! ?q else b ! k)"
    if "k < length b" for k
    using nth_swap [of pos b ?q k] that assms(3) q by simp
  have sib: "hi_val (b ! ?q) \<le> hi_val (?b ! i)"
    if "i < length b" "0 < i" "heap_parent i = ?q" for i
    using E [of i] nth [of i] heap_parent_less [OF that(2)] q that by auto
  then show "\<forall>i < length b. 0 < i \<longrightarrow> heap_parent i = ?q \<longrightarrow> hi_val (b ! pos) \<le> hi_val (?b ! i)"
    using assms(4) by force
  have "hi_val (?b ! heap_parent i) \<le> hi_val (?b ! i)"
    if "i < length b" "0 < i" "i \<noteq> ?q" "heap_parent i \<noteq> ?q" for i
  proof -
    have p: "heap_parent i < length b" using heap_parent_less [OF that(2)] that(1) by simp
    show ?thesis
    proof (cases "heap_parent i = pos")
      case True
      then have "i \<noteq> pos" using heap_parent_less [OF that(2)] by auto
      then show ?thesis using B [OF that(1,2) True] nth [OF p] nth [OF that(1)] that True by simp
    next
      case False
      then show ?thesis using E [OF that(1,2)] nth [OF p] nth [OF that(1)] that by auto
    qed
  qed
  moreover have "hi_val (?b ! heap_parent ?q) \<le> hi_val (?b ! i)"
    if "i < length b" "0 < i" "heap_parent i = ?q" "0 < ?q" for i
  proof -
    have "heap_parent ?q < ?q" using that(4) by (rule heap_parent_less)
    then have "hi_val (?b ! heap_parent ?q) \<le> hi_val (b ! ?q)"
      using E [of ?q] nth [of "heap_parent ?q"] q assms(3) that(4) by simp
    also have "\<dots> \<le> hi_val (?b ! i)" using sib that by blast
    finally show ?thesis .
  qed
  ultimately show "heap_except ?b ?q" by (simp add: heap_except_def)
qed

lemma down_step:
  assumes "heap_except b pos" and "pos < c" "c < length b" "heap_parent c = pos"
    and least: "\<And>i. i < length b \<Longrightarrow> 0 < i \<Longrightarrow> heap_parent i = pos \<Longrightarrow> hi_val (b ! c) \<le> hi_val (b ! i)"
  shows "heap_except (swap b pos c) c"
proof -
  let ?b = "swap b pos c"
  have E: "hi_val (b ! heap_parent i) \<le> hi_val (b ! i)"
    if "i < length b" "0 < i" "i \<noteq> pos" "heap_parent i \<noteq> pos" for i
    using assms(1) that by (simp add: heap_except_def)
  have nth: "?b ! k = (if k = c then b ! pos else if k = pos then b ! c else b ! k)"
    if "k < length b" for k
    using nth_swap [of pos b c k] that assms(2,3) by simp
  have "hi_val (?b ! heap_parent i) \<le> hi_val (?b ! i)"
    if "i < length b" "0 < i" "i \<noteq> c" "heap_parent i \<noteq> c" for i
  proof -
    have p: "heap_parent i < length b" "heap_parent i < i"
      using heap_parent_less [OF that(2)] that(1) by simp_all
    consider "heap_parent i = pos" | "i = pos" | "i \<noteq> pos" "heap_parent i \<noteq> pos" by blast
    then show ?thesis
    proof cases
      case 1
      then show ?thesis using least [OF that(1,2)] nth [OF p(1)] nth [OF that(1)] that p by simp
    next
      case 2
      then have "hi_val (b ! heap_parent pos) \<le> hi_val (b ! c)"
        using assms(1-4) that(2) by (simp add: heap_except_def)
      then show ?thesis using 2 nth [OF p(1)] nth [OF that(1)] that p by simp
    next
      case 3
      then show ?thesis using E [OF that(1,2)] nth [OF p(1)] nth [OF that(1)] that by simp
    qed
  qed
  moreover have "hi_val (?b ! heap_parent c) \<le> hi_val (?b ! i)"
    if "i < length b" "0 < i" "heap_parent i = c" for i
  proof -
    have "c < i" using heap_parent_less [OF that(2)] that(3) by simp
    then show ?thesis
      using E [OF that(1,2)] nth [of i] nth [of pos] that assms(2-4) by simp
  qed
  ultimately show ?thesis by (simp add: heap_except_def)
qed

section \<open>The references back\<close>

text \<open>
  \<open>refs_ok\<close>: the items belong to distinct entries, and the index of each entry is the position
  of its item; \<open>refs_except\<close>: the index of the item at \<open>pos\<close> may be anything.
\<close>

definition refs_except :: "heap \<Rightarrow> u64 store \<Rightarrow> nat \<Rightarrow> bool" where
  "refs_except a refs pos \<longleftrightarrow> distinct (map hi_ref a) \<and>
     (\<forall>i < length a. \<exists>r v. hi_ref (a ! i) = Some r \<and> refs r = Some v \<and> (i \<noteq> pos \<longrightarrow> v = of_nat i))"

definition refs_ok :: "heap \<Rightarrow> u64 store \<Rightarrow> bool" where
  "refs_ok a refs \<longleftrightarrow> distinct (map hi_ref a) \<and>
     (\<forall>i < length a. \<exists>r. hi_ref (a ! i) = Some r \<and> refs r = Some (of_nat i))"

text \<open>Only indices of entries with an item change, and no entry appears or goes.\<close>

definition refs_frame :: "ptr set \<Rightarrow> u64 store \<Rightarrow> u64 store \<Rightarrow> bool" where
  "refs_frame X refs refs' \<longleftrightarrow>
     (\<forall>r. Some r \<notin> X \<longrightarrow> refs' r = refs r) \<and> (\<forall>r. (refs' r = None) = (refs r = None))"

lemma refs_frame_refl [simp]: "refs_frame X refs refs"
  by (simp add: refs_frame_def)

lemma refs_frame_trans: "refs_frame X r1 r2 \<Longrightarrow> refs_frame X r2 r3 \<Longrightarrow> refs_frame X r1 r3"
  by (simp add: refs_frame_def)

lemma refs_ok_except: "refs_ok a refs \<Longrightarrow> refs_except a refs pos"
  by (auto simp: refs_ok_def refs_except_def)

lemma refs_except_ref:
  "refs_except a refs pos \<Longrightarrow> i < length a \<Longrightarrow>
   \<exists>r v. hi_ref (a ! i) = Some r \<and> refs r = Some v \<and> (i \<noteq> pos \<longrightarrow> v = of_nat i)"
  by (simp add: refs_except_def)

lemma refs_inj:
  "distinct (map hi_ref a) \<Longrightarrow> i < length a \<Longrightarrow> j < length a \<Longrightarrow> hi_ref (a ! i) = hi_ref (a ! j) \<Longrightarrow> i = j"
  by (simp add: distinct_conv_nth) metis

lemma set_ref_at:
  assumes "refs_except b refs pos" and "q < length b"
  obtains r where "hi_ref (b ! q) = Some r"
    and "set_ref refs (b ! q) i = Inr (refs(r \<mapsto> of_nat i))"
    and "refs_frame (hi_ref ` set b) refs (refs(r \<mapsto> of_nat i))"
proof -
  obtain r v where r: "hi_ref (b ! q) = Some r" "refs r = Some v"
    using refs_except_ref [OF assms] by blast
  moreover have "Some r \<in> hi_ref ` set b" using r(1) assms(2) by (metis image_eqI nth_mem)
  ultimately show ?thesis
    by (intro that [of r]) (auto simp: set_ref_def update_Some refs_frame_def)
qed

lemma refs_swap:
  assumes "refs_except b refs pos" and "pos < length b" "q < length b" "pos \<noteq> q"
    and "hi_ref (b ! q) = Some r"
  shows "refs_except (swap b pos q) (refs(r \<mapsto> of_nat pos)) q"
proof -
  have dist: "distinct (map hi_ref b)" using assms(1) by (simp add: refs_except_def)
  moreover have "mset (map hi_ref (swap b pos q)) = mset (map hi_ref b)"
    using mset_swap_heap [OF assms(2,3)] by simp
  ultimately have "distinct (map hi_ref (swap b pos q))" by (metis mset_eq_imp_distinct_iff)
  moreover have "\<exists>s v. hi_ref (swap b pos q ! i) = Some s \<and> (refs(r \<mapsto> of_nat pos)) s = Some v \<and>
      (i \<noteq> q \<longrightarrow> v = of_nat i)" if i: "i < length b" for i
  proof -
    let ?k = "if i = q then pos else if i = pos then q else i"
    have k: "?k < length b" using i assms(2,3) by simp
    obtain s v where s: "hi_ref (b ! ?k) = Some s" "refs s = Some v" "?k \<noteq> pos \<longrightarrow> v = of_nat ?k"
      using refs_except_ref [OF assms(1) k] by blast
    have sw: "hi_ref (swap b pos q ! i) = Some s"
      using s(1) nth_swap [OF assms(2,3) i] by (simp split: if_splits)
    have sr: "s = r \<Longrightarrow> ?k = q" using refs_inj [OF dist k assms(3)] s(1) assms(5) by simp
    consider "i = q" | "i = pos" "i \<noteq> q" | "i \<noteq> q" "i \<noteq> pos" by blast
    then show ?thesis
    proof cases
      case 1
      then show ?thesis using sw s(2) by (cases "s = r") auto
    next
      case 2
      then show ?thesis using sw s(1) assms(5) by simp
    next
      case 3
      then show ?thesis using sw s(2,3) sr by auto
    qed
  qed
  ultimately show ?thesis by (simp add: refs_except_def)
qed

lemma refs_finish:
  assumes "refs_except b refs pos" and "pos < length b" and "hi_ref (b ! pos) = Some r"
  shows "refs_ok b (refs(r \<mapsto> of_nat pos))"
proof -
  have dist: "distinct (map hi_ref b)" using assms(1) by (simp add: refs_except_def)
  have "\<exists>s. hi_ref (b ! i) = Some s \<and> (refs(r \<mapsto> of_nat pos)) s = Some (of_nat i)"
    if i: "i < length b" for i
    using refs_except_ref [OF assms(1) i] refs_inj [OF dist i assms(2)] assms(3) by (cases "i = pos") auto
  then show ?thesis using dist by (simp add: refs_ok_def)
qed

section \<open>What the loops do\<close>

text \<open>The result of a loop on the array \<open>b\<close>, whose item at the start position is out of place.\<close>

definition settled :: "heap \<Rightarrow> u64 store \<Rightarrow> (heap \<times> u64 store) res \<Rightarrow> bool" where
  "settled b refs res \<longleftrightarrow> (\<exists>a' refs'. res = Inr (a', refs') \<and> heap_ok a' \<and> mset a' = mset b \<and>
     refs_ok a' refs' \<and> refs_frame (hi_ref ` set b) refs refs')"

lemma settled_step:
  assumes "settled b' refs' res" and "mset b' = mset b" and "refs_frame (hi_ref ` set b) refs refs'"
  shows "settled b refs res"
  using assms(1,2) mset_eq_setD [OF assms(2)] refs_frame_trans [OF assms(3)]
  unfolding settled_def by fastforce

lemma settled_finish:
  assumes "heap_ok b" and "refs_except b refs pos" and "pos < length b" and "a[pos := b ! pos] = b"
    and "length a = length b"
  shows "settled b refs (bindr (aset a pos (b ! pos)) (\<lambda>a'. bindr (set_ref refs (b ! pos) pos) (\<lambda>refs'.
    Inr (a', refs'))))"
proof -
  obtain r where r: "hi_ref (b ! pos) = Some r" "set_ref refs (b ! pos) pos = Inr (refs(r \<mapsto> of_nat pos))"
      "refs_frame (hi_ref ` set b) refs (refs(r \<mapsto> of_nat pos))"
    using set_ref_at [OF assms(2,3)] by metis
  then show ?thesis
    using assms(1,3-5) refs_finish [OF assms(2,3) r(1)] by (simp add: settled_def)
qed

text \<open>Filling the hole with another item moves the hole there.\<close>

lemma move_hole:
  assumes "a[pos := b ! pos] = b" and "length a = length b" and "pos < length b" "q < length b" "q \<noteq> pos"
  shows "(a[pos := a ! q])[q := swap b pos q ! q] = swap b pos q" and "a ! q = b ! q"
    and "swap b pos q ! q = b ! pos"
proof -
  show aq: "a ! q = b ! q" using assms(1,5) by (metis nth_list_update_neq)
  show sw: "swap b pos q ! q = b ! pos" using nth_swap [OF assms(3,4,4)] by simp
  have "a[pos := b ! q] = b[pos := b ! q]" using assms(1) by (metis list_update_overwrite)
  then show "(a[pos := a ! q])[q := swap b pos q ! q] = swap b pos q"
    unfolding sw aq by (simp add: swap_def)
qed

lemma heap_ok_from_except:
  assumes "heap_except b pos" and "0 < pos \<Longrightarrow> hi_val (b ! heap_parent pos) \<le> hi_val (b ! pos)"
    and "\<And>i. i < length b \<Longrightarrow> 0 < i \<Longrightarrow> heap_parent i = pos \<Longrightarrow> hi_val (b ! pos) \<le> hi_val (b ! i)"
  shows "heap_ok b"
  using assms unfolding heap_ok_def heap_except_def by metis

lemma heap_up_loop_spec:
  assumes "heap_except b pos" and "pos < length b" and "refs_except b refs pos"
    and "\<forall>i < length b. 0 < i \<longrightarrow> heap_parent i = pos \<longrightarrow> hi_val (b ! pos) \<le> hi_val (b ! i)"
    and "a[pos := b ! pos] = b" and "length a = length b" and "t = b ! pos"
  shows "settled b refs (heap_up_loop t a pos refs)"
  using assms
proof (induction pos arbitrary: a b refs rule: less_induct)
  case (less pos)
  let ?q = "heap_parent pos"
  show ?case
  proof (cases "0 < pos \<and> hi_val (b ! ?q) > hi_val (b ! pos)")
    case False
    have "heap_ok b" using less.prems(1,4) False by (intro heap_ok_from_except [of b pos]) auto
    moreover have "heap_up_loop t a pos refs
        = bindr (aset a pos t) (\<lambda>a'. bindr (set_ref refs t pos) (\<lambda>refs'. Inr (a', refs')))"
    proof (cases "pos = 0")
      case no: False
      then have "?q < length a" "a ! ?q = b ! ?q"
        using heap_parent_less [of pos] less.prems(2,6) move_hole(2) [OF less.prems(5,6,2), of ?q] by auto
      then show ?thesis using False no less.prems(7)
        by (simp add: heap_up_loop.simps [of "b ! pos" a])
    qed (simp add: heap_up_loop.simps [of t a])
    ultimately show ?thesis
      using settled_finish [OF _ less.prems(3,2,5,6)] less.prems(7) by simp
  next
    case True
    then have q: "?q < pos" "?q < length b" using heap_parent_less [of pos] less.prems(2) by auto
    note M = move_hole [OF less.prems(5,6,2) q(2)]
    obtain r where r: "hi_ref (b ! ?q) = Some r" "set_ref refs (b ! ?q) pos = Inr (refs(r \<mapsto> of_nat pos))"
        "refs_frame (hi_ref ` set b) refs (refs(r \<mapsto> of_nat pos))"
      using set_ref_at [OF less.prems(3) q(2)] by metis
    have "heap_up_loop t a pos refs = heap_up_loop t (a[pos := b ! ?q]) ?q (refs(r \<mapsto> of_nat pos))"
      using True q less.prems(2,6,7) M(2) r(1,2)
      by (simp add: heap_up_loop.simps [of "b ! pos" a pos])
    moreover have "settled (swap b pos ?q) (refs(r \<mapsto> of_nat pos))
        (heap_up_loop t (a[pos := b ! ?q]) ?q (refs(r \<mapsto> of_nat pos)))"
    proof (rule less.IH [OF q(1)])
      show "heap_except (swap b pos ?q) ?q"
        using True less.prems(1,2) by (intro up_step(1)) auto
      show "refs_except (swap b pos ?q) (refs(r \<mapsto> of_nat pos)) ?q"
        using refs_swap [OF less.prems(3,2) q(2) _ r(1)] q(1) by simp
      show "\<forall>i < length (swap b pos ?q). 0 < i \<longrightarrow> heap_parent i = ?q \<longrightarrow>
          hi_val (swap b pos ?q ! ?q) \<le> hi_val (swap b pos ?q ! i)"
        using up_step(2) [of b pos] True less.prems(1,2) M(3) q(1) by simp
    qed (use M q less.prems(6,7) in auto)
    ultimately show ?thesis
      using settled_step [OF _ mset_swap_heap [OF less.prems(2) q(2)] r(3)] by simp
  qed
qed


lemma min_child_spec:
  assumes "length a = length b" and "\<forall>i. i \<noteq> pos \<longrightarrow> a ! i = b ! i" and "v = hi_val (b ! pos)"
  obtains c where "min_child a pos (length b) v = Inr c"
    and "c = pos \<and> (\<forall>i < length b. 0 < i \<longrightarrow> heap_parent i = pos \<longrightarrow> hi_val (b ! pos) \<le> hi_val (b ! i)) \<or>
      pos < c \<and> c < length b \<and> heap_parent c = pos \<and> hi_val (b ! c) < hi_val (b ! pos) \<and>
      (\<forall>i < length b. 0 < i \<longrightarrow> heap_parent i = pos \<longrightarrow> hi_val (b ! c) \<le> hi_val (b ! i))"
proof -
  let ?l = "heap_left pos" and ?r = "heap_right pos" and ?n = "length b"
  have lr: "pos < ?l" "?l < ?r" by (simp_all add: heap_left_def heap_right_def)
  have eq: "a ! ?l = b ! ?l" "a ! ?r = b ! ?r" using assms(2) lr by auto
  have P: "(\<forall>i < ?n. 0 < i \<longrightarrow> heap_parent i = pos \<longrightarrow> w \<le> hi_val (b ! i)) \<longleftrightarrow>
      (?l < ?n \<longrightarrow> w \<le> hi_val (b ! ?l)) \<and> (?r < ?n \<longrightarrow> w \<le> hi_val (b ! ?r))" for w
    using parent_iff lr by (metis less_nat_zero_code neq0_conv parent_left parent_right)
  define w where "w = (if ?l < ?n \<and> hi_val (b ! ?l) < v then hi_val (b ! ?l) else v)"
  define c where "c = (if ?r < ?n \<and> hi_val (b ! ?r) < w then ?r
     else if ?l < ?n \<and> hi_val (b ! ?l) < v then ?l else pos)"
  have "min_child a pos ?n v = Inr c"
    using assms(1) eq by (simp add: min_child_def Let_def c_def w_def)
  moreover have "c = pos \<and> (\<forall>i < ?n. 0 < i \<longrightarrow> heap_parent i = pos \<longrightarrow> hi_val (b ! pos) \<le> hi_val (b ! i)) \<or>
      pos < c \<and> c < ?n \<and> heap_parent c = pos \<and> hi_val (b ! c) < hi_val (b ! pos) \<and>
      (\<forall>i < ?n. 0 < i \<longrightarrow> heap_parent i = pos \<longrightarrow> hi_val (b ! c) \<le> hi_val (b ! i))"
    unfolding P using lr assms(3) by (auto simp: c_def w_def not_less)
  ultimately show ?thesis using that by blast
qed

lemma heap_down_loop_spec:
  assumes "heap_except b pos" and "pos < length b" and "refs_except b refs pos"
    and "0 < pos \<Longrightarrow> hi_val (b ! heap_parent pos) \<le> hi_val (b ! pos)"
    and "a[pos := b ! pos] = b" and "length a = length b" and "t = b ! pos"
  shows "settled b refs (heap_down_loop t a pos (length b) refs)"
  using assms
proof (induction "length b - pos" arbitrary: a b refs pos rule: less_induct)
  case less
  have same: "\<forall>i. i \<noteq> pos \<longrightarrow> a ! i = b ! i" using less.prems(5) by (metis nth_list_update_neq)
  obtain c where c: "min_child a pos (length b) (hi_val t) = Inr c"
      "c = pos \<and> (\<forall>i < length b. 0 < i \<longrightarrow> heap_parent i = pos \<longrightarrow> hi_val (b ! pos) \<le> hi_val (b ! i)) \<or>
      pos < c \<and> c < length b \<and> heap_parent c = pos \<and> hi_val (b ! c) < hi_val (b ! pos) \<and>
      (\<forall>i < length b. 0 < i \<longrightarrow> heap_parent i = pos \<longrightarrow> hi_val (b ! c) \<le> hi_val (b ! i))"
    using min_child_spec [OF less.prems(6) same] less.prems(7) by metis
  show ?case
  proof (cases "c = pos")
    case True
    then have "heap_ok b" using c(2) less.prems(1,4) by (intro heap_ok_from_except [of b pos]) auto
    then show ?thesis
      using settled_finish [OF _ less.prems(3,2,5,6)] less.prems(7) c(1) True
      by (simp add: heap_down_loop.simps [of "b ! pos" a pos])
  next
    case False
    then have q: "pos < c" "c < length b" "heap_parent c = pos" "hi_val (b ! c) < hi_val (b ! pos)"
        "\<And>i. i < length b \<Longrightarrow> 0 < i \<Longrightarrow> heap_parent i = pos \<Longrightarrow> hi_val (b ! c) \<le> hi_val (b ! i)"
      using c(2) by auto
    note M = move_hole [OF less.prems(5,6,2) q(2)]
    obtain r where r: "hi_ref (b ! c) = Some r" "set_ref refs (b ! c) pos = Inr (refs(r \<mapsto> of_nat pos))"
        "refs_frame (hi_ref ` set b) refs (refs(r \<mapsto> of_nat pos))"
      using set_ref_at [OF less.prems(3) q(2)] by metis
    have "heap_down_loop t a pos (length b) refs
        = heap_down_loop t (a[pos := b ! c]) c (length b) (refs(r \<mapsto> of_nat pos))"
      using False q(2) less.prems(2,6) same c(1) r(1,2)
      by (simp add: heap_down_loop.simps [of t a pos])
    moreover have "settled (swap b pos c) (refs(r \<mapsto> of_nat pos))
        (heap_down_loop t (a[pos := b ! c]) c (length (swap b pos c)) (refs(r \<mapsto> of_nat pos)))"
    proof (rule less.hyps)
      show "heap_except (swap b pos c) c" by (rule down_step [OF less.prems(1) q(1-3,5)])
      show "refs_except (swap b pos c) (refs(r \<mapsto> of_nat pos)) c"
        using refs_swap [OF less.prems(3,2) q(2) _ r(1)] q(1) by simp
      show "hi_val (swap b pos c ! heap_parent c) \<le> hi_val (swap b pos c ! c)"
        using nth_swap [OF less.prems(2) q(2)] q less.prems(2) by simp
    qed (use M q same less.prems(2,6,7) in auto)
    ultimately show ?thesis
      using settled_step [OF _ mset_swap_heap [OF less.prems(2) q(2)] r(3)] by simp
  qed
qed

lemma heap_update_spec:
  assumes "heap_except b pos" and "pos < length b" and "refs_except b refs pos"
  shows "settled b refs (heap_update b pos (length b) refs)"
proof -
  let ?q = "heap_parent pos"
  have q: "0 < pos \<Longrightarrow> ?q < length b" using heap_parent_less [of pos] assms(2) by simp
  obtain r where r: "hi_ref (b ! pos) = Some r" using refs_except_ref [OF assms(3,2)] by blast
  show ?thesis
  proof (cases "0 < pos \<and> hi_val (b ! ?q) > hi_val (b ! pos)")
    case True
    have "hi_val (b ! pos) \<le> hi_val (b ! i)" if "i < length b" "0 < i" "heap_parent i = pos" for i
    proof -
      have "hi_val (b ! ?q) \<le> hi_val (b ! i)" using assms(1) that True by (simp add: heap_except_def)
      then show ?thesis using True by (meson less_imp_le order_trans)
    qed
    then have "settled b refs (heap_up_loop (b ! pos) b pos refs)"
      by (intro heap_up_loop_spec [OF assms]) auto
    then show ?thesis using True q assms(2) r by (simp add: heap_update_def heap_up_def)
  next
    case False
    then have "settled b refs (heap_down_loop (b ! pos) b pos (length b) refs)"
      by (intro heap_down_loop_spec [OF assms]) auto
    then show ?thesis using False q assms(2) r by (auto simp: heap_update_def heap_down_def)
  qed
qed

section \<open>Taking an item out\<close>

lemma heap_remove_spec:
  assumes "heap_ok h" and "refs_ok h refs" and pos: "pos < length h"
  obtains h' refs' where "heap_remove h pos refs = Inr (h', refs')"
    and "heap_ok h'" and "refs_ok h' refs'" and "add_mset (h ! pos) (mset h') = mset h"
    and "refs_frame (hi_ref ` set h') refs refs'"
proof -
  have ne: "h \<noteq> []" using pos by auto
  define lst where "lst = length h - 1"
  have lst: "lst < length h" "last h = h ! lst" using ne by (simp_all add: lst_def last_conv_nth)
  have split: "mset h = add_mset (h ! lst) (mset (butlast h))"
    by (subst append_butlast_last_id [OF ne, symmetric]) (simp add: lst(2) del: append_butlast_last_id)
  have dist: "distinct (map hi_ref h)" using assms(2) by (simp add: refs_ok_def)
  show ?thesis
  proof (cases "pos = lst")
    case True
    have "distinct (map hi_ref (butlast h))" using dist by (simp add: map_butlast distinct_butlast)
    then have "refs_ok (butlast h) refs" using assms(2) by (simp add: refs_ok_def nth_butlast)
    moreover have "heap_remove h pos refs = Inr (butlast h, refs)"
      using ne True by (simp add: heap_remove_def lst_def)
    ultimately show ?thesis using that heap_ok_butlast [OF assms(1)] split True by simp
  next
    case False
    then have p: "pos < length (butlast h)" "pos < lst" using pos by (simp_all add: lst_def)
    define b where "b = (butlast h)[pos := h ! lst]"
    have b: "butlast (h[pos := h ! lst]) = b" "length b = lst"
      using p(2) by (simp_all add: b_def butlast_list_update lst_def)
    have "add_mset (h ! pos) (mset b) = add_mset (h ! lst) (mset (butlast h))"
    proof -
      have "h ! pos \<in># mset (butlast h)" using p(1) by (metis nth_butlast nth_mem_mset)
      then have "add_mset (h ! pos) (mset (butlast h) - {#h ! pos#}) = mset (butlast h)" by simp
      then show ?thesis
        using p(1) by (simp add: b_def mset_update nth_butlast add_mset_commute [of "h ! pos"])
    qed
    then have ms: "add_mset (h ! pos) (mset b) = mset h" using split by simp
    obtain r where r: "hi_ref (h ! lst) = Some r" "refs r = Some (of_nat lst)"
      using assms(2) lst(1) by (auto simp: refs_ok_def)
    let ?refs = "refs(r \<mapsto> of_nat pos)"
    have "mset (map hi_ref h) = add_mset (hi_ref (h ! pos)) (mset (map hi_ref b))"
      using arg_cong [OF ms, of "image_mset hi_ref"] by simp
    then have distb: "distinct (map hi_ref b)"
      using dist by (metis distinct.simps(2) mset.simps(2) mset_eq_imp_distinct_iff)
    have "\<exists>s. hi_ref (b ! i) = Some s \<and> ?refs s = Some (of_nat i)" if i: "i < length b" for i
    proof (cases "i = pos")
      case True
      then show ?thesis using r p(1) by (simp add: b_def)
    next
      case no: False
      then have "b ! i = h ! i" using i b(2) by (simp add: b_def nth_butlast lst_def)
      moreover obtain s where s: "hi_ref (h ! i) = Some s" "refs s = Some (of_nat i)"
        using assms(2) i b(2) lst(1) unfolding refs_ok_def by (meson order.strict_trans)
      moreover have "s \<noteq> r" using refs_inj [OF dist, of i lst] s(1) r(1) i b(2) lst(1) by auto
      ultimately show ?thesis by simp
    qed
    then have "refs_ok b ?refs" using distb by (simp add: refs_ok_def)
    moreover have "heap_except b pos"
      unfolding b_def by (rule heap_except_update [OF heap_ok_butlast [OF assms(1)]])
    ultimately have "settled b ?refs (heap_update b pos (length b) ?refs)"
      using p(2) b(2) by (intro heap_update_spec refs_ok_except) simp_all
    then obtain h' refs' where H: "heap_update b pos (length b) ?refs = Inr (h', refs')" "heap_ok h'"
        "mset h' = mset b" "refs_ok h' refs'" "refs_frame (hi_ref ` set b) ?refs refs'"
      by (auto simp: settled_def)
    have "h ! lst \<in> set b" using p(1) by (auto simp: b_def intro: set_update_memI)
    then have "refs_frame (hi_ref ` set b) refs ?refs"
      using r by (force simp: refs_frame_def)
    then have "refs_frame (hi_ref ` set h') refs refs'"
      using refs_frame_trans H(5) mset_eq_setD [OF H(3)] by simp
    moreover have "set_ref refs (h ! lst) pos = Inr ?refs"
      using r by (simp add: set_ref_def update_Some)
    then have "heap_remove h pos refs = Inr (h', refs')"
      unfolding heap_remove_def Let_def lst_def [symmetric]
      using False p lst(1) b ne H(1) by simp
    ultimately show ?thesis using that H ms by simp
  qed
qed


section \<open>Deadlines\<close>

text \<open>What the heap is for: the deadline of each entry that has one.\<close>

definition deadlines :: "heap \<Rightarrow> addr \<rightharpoonup> u64" where
  "deadlines h ent = map_option hi_val (find (\<lambda>x. hi_ref x = Some ent) h)"

lemma deadlines_Some:
  "distinct (map hi_ref h) \<Longrightarrow>
   deadlines h e = Some v \<longleftrightarrow> (\<exists>x \<in> set h. hi_ref x = Some e \<and> hi_val x = v)"
  by (induction h) (force simp: deadlines_def)+

lemma deadlines_None: "deadlines h e = None \<longleftrightarrow> Some e \<notin> hi_ref ` set h"
  by (force simp: deadlines_def find_None_iff image_iff)

lemma deadlines_mset:
  assumes "mset h' = mset h" and "distinct (map hi_ref h)"
  shows "deadlines h' = deadlines h"
proof
  fix e
  have "distinct (map hi_ref h')" using assms by (metis mset_eq_imp_distinct_iff mset_map)
  then have "deadlines h' e = Some v \<longleftrightarrow> deadlines h e = Some v" for v
    using assms(2) mset_eq_setD [OF assms(1)] by (simp add: deadlines_Some)
  then show "deadlines h' e = deadlines h e" by (metis not_None_eq)
qed

lemma deadlines_remove:
  assumes "add_mset x (mset h') = mset h" and "distinct (map hi_ref h)" and "hi_ref x = Some e"
  shows "deadlines h' = (deadlines h)(e := None)"
proof -
  have "mset (x # h') = mset h" using assms(1) by simp
  note dist = deadlines_mset [OF this assms(2)]
  have d: "distinct (map hi_ref (x # h'))"
    using assms(1,2) by (metis mset.simps(2) mset_eq_imp_distinct_iff mset_map)
  then have "deadlines h' e = None"
    using assms(3) by (simp add: deadlines_None)
  moreover have "deadlines (x # h') f = deadlines h' f" if "f \<noteq> e" for f
    using that assms(3) by (simp add: deadlines_def)
  ultimately show ?thesis using dist by (auto simp: fun_eq_iff)
qed

lemma deadlines_append:
  assumes "Some e \<notin> hi_ref ` set h" and "hi_ref x = Some e"
  shows "deadlines (h @ [x]) = (deadlines h)(e \<mapsto> hi_val x)"
proof -
  have "find (\<lambda>x. hi_ref x = Some e) h = None" using assms(1) by (force simp: find_None_iff image_iff)
  then show ?thesis
    using assms(2) by (auto simp: deadlines_def find_append fun_eq_iff split: option.splits)
qed

lemma deadlines_update:
  assumes "distinct (map hi_ref h)" and "i < length h" and "hi_ref (h ! i) = Some e"
  shows "deadlines (h[i := (h ! i)\<lparr>hi_val := v\<rparr>]) = (deadlines h)(e \<mapsto> v)"
  using assms
proof (induction h arbitrary: i)
  case (Cons y h)
  show ?case
  proof (cases i)
    case 0
    then show ?thesis using Cons.prems by (auto simp: deadlines_def fun_eq_iff)
  next
    case (Suc j)
    then have "j < length h" "hi_ref (h ! j) = Some e" using Cons.prems(2,3) by simp_all
    then have "Some e \<in> set (map hi_ref h)" by (metis length_map nth_map nth_mem)
    then have "hi_ref y \<noteq> Some e" using Cons.prems(1) by auto
    then show ?thesis
      using Cons.IH [of j] Cons.prems Suc by (auto simp: deadlines_def fun_eq_iff)
  qed
qed simp

section \<open>The timers of the entries\<close>

text \<open>
  The state the timers keep: a heap, the index of each entry with a deadline, and \<open>-1\<close> as the index of
  every other entry.
\<close>

definition timers_ok :: "heap \<times> u64 store \<Rightarrow> bool" where
  "timers_ok s \<longleftrightarrow> heap_ok (fst s) \<and> refs_ok (fst s) (snd s) \<and> length (fst s) < 2 ^ 64 - 1 \<and>
     (\<forall>r v. snd s r = Some v \<longrightarrow> Some r \<notin> hi_ref ` set (fst s) \<longrightarrow> v = - 1)"

lemma refs_ok_distinct: "refs_ok h refs \<Longrightarrow> distinct (map hi_ref h)"
  by (simp add: refs_ok_def)

lemma of_nat_not_minus1: "n < 2 ^ 64 - 1 \<Longrightarrow> (of_nat n :: u64) \<noteq> - 1"
proof
  assume n: "n < 2 ^ 64 - 1" and "(of_nat n :: u64) = - 1"
  then have "unat (of_nat n :: u64) = 2 ^ 64 - 1" by (simp add: unsigned_minus_1_eq_mask mask_eq_exp_minus_1)
  then show False using n by (simp add: unat_of_nat take_bit_nat_eq_self_iff)
qed

lemma timers_index:
  assumes "timers_ok (h, refs)" and "refs e = Some v"
  shows "v = - 1 \<and> Some e \<notin> hi_ref ` set h \<or>
    v \<noteq> - 1 \<and> unat v < length h \<and> hi_ref (h ! unat v) = Some e"
proof (cases "Some e \<in> hi_ref ` set h")
  case False
  then show ?thesis using assms by (auto simp: timers_ok_def)
next
  case True
  then obtain i where i: "i < length h" "hi_ref (h ! i) = Some e" by (auto simp: in_set_conv_nth)
  then have "v = of_nat i" using assms by (auto simp: timers_ok_def refs_ok_def)
  moreover have "i < 2 ^ 64 - 1" using i(1) assms(1) by (simp add: timers_ok_def)
  ultimately show ?thesis
    using i of_nat_not_minus1 by (simp add: unat_of_nat take_bit_nat_eq_self_iff)
qed

lemma timers_frame:
  assumes "refs_frame (hi_ref ` set h') refs refs'" and "heap_ok h'" and "refs_ok h' refs'"
    and "length h' < 2 ^ 64 - 1"
    and "\<And>r v. refs r = Some v \<Longrightarrow> Some r \<notin> hi_ref ` set h' \<Longrightarrow> v = - 1"
  shows "timers_ok (h', refs')"
proof -
  have "v = - 1" if "refs' r = Some v" "Some r \<notin> hi_ref ` set h'" for r v
    using that assms(1,5) by (simp add: refs_frame_def)
  then show ?thesis using assms(2-4) by (simp add: timers_ok_def)
qed

lemma timers_okD:
  assumes "timers_ok (h, refs)"
  shows "heap_ok h" and "refs_ok h refs" and "length h < 2 ^ 64 - 1" and "distinct (map hi_ref h)"
    and "refs r = Some v \<Longrightarrow> Some r \<notin> hi_ref ` set h \<Longrightarrow> v = - 1"
  using assms refs_ok_distinct by (auto simp: timers_ok_def)

text \<open>The result of changing the deadline of \<open>e\<close> to \<open>d\<close>.\<close>

definition ttl_done :: "heap \<times> u64 store \<Rightarrow> addr \<Rightarrow> u64 option \<Rightarrow> (heap \<times> u64 store) res \<Rightarrow> bool" where
  "ttl_done s e d res \<longleftrightarrow> (\<exists>s'. res = Inr s' \<and> timers_ok s' \<and>
     deadlines (fst s') = (deadlines (fst s))(e := d) \<and> (\<forall>r. (snd s' r = None) = (snd s r = None)))"

lemma refs_ok_other:
  "refs_ok h refs \<Longrightarrow> Some e \<notin> hi_ref ` set h \<Longrightarrow> refs_ok h (refs(e \<mapsto> v))"
  unfolding refs_ok_def by (metis fun_upd_other image_eqI nth_mem)

lemma ttl_remove:
  assumes ok: "timers_ok (h, refs)" and pos: "pos < length h" "hi_ref (h ! pos) = Some e"
  shows "ttl_done (h, refs) e None
    (bindr (heap_remove h pos refs) (\<lambda>(h', refs'). bindr (update refs' (Some e) (\<lambda>_. - 1)) (\<lambda>refs''.
       Inr (h', refs''))))"
proof -
  note T = timers_okD [OF ok]
  obtain h' refs' where R: "heap_remove h pos refs = Inr (h', refs')" "heap_ok h'" "refs_ok h' refs'"
      "add_mset (h ! pos) (mset h') = mset h" "refs_frame (hi_ref ` set h') refs refs'"
    using heap_remove_spec [OF T(1,2) pos(1)] by blast
  note D = deadlines_remove [OF R(4) T(4) pos(2)]
  have e: "Some e \<notin> hi_ref ` set h'" using fun_cong [OF D, of e] by (simp add: deadlines_None)
  have alive: "refs e \<noteq> None" using T(2) pos by (auto simp: refs_ok_def)
  then have "refs' e \<noteq> None" using R(5) by (simp add: refs_frame_def)
  then obtain w where w: "refs' e = Some w" by auto
  let ?refs = "refs'(e \<mapsto> - 1)"
  have "length h = Suc (length h')" using arg_cong [OF R(4), of size] by simp
  moreover have "v = - 1" if v: "?refs r = Some v" "Some r \<notin> hi_ref ` set h'" for r v
  proof (cases "r = e")
    case False
    have "set h = insert (h ! pos) (set h')" using arg_cong [OF R(4), of set_mset] by simp
    then have "Some r \<notin> hi_ref ` set h" using v(2) False pos(2) by auto
    then show ?thesis using T(5) v R(5) False by (auto simp: refs_frame_def)
  qed (use v in simp)
  ultimately have "timers_ok (h', ?refs)"
    using R(2) refs_ok_other [OF R(3) e] T(3) by (simp add: timers_ok_def)
  then show ?thesis
    using R(1,5) w D alive by (auto simp: ttl_done_def update_Some refs_frame_def)
qed

lemma ttl_settle:
  assumes "settled b refs1 res" and "deadlines b = (deadlines h)(e := d)" and "distinct (map hi_ref b)"
    and "length b < 2 ^ 64 - 1" and "\<And>r v. refs1 r = Some v \<Longrightarrow> Some r \<notin> hi_ref ` set b \<Longrightarrow> v = - 1"
    and "\<forall>r. (refs1 r = None) = (refs r = None)"
  shows "ttl_done (h, refs) e d res"
proof -
  obtain h' refs' where H: "res = Inr (h', refs')" "heap_ok h'" "mset h' = mset b" "refs_ok h' refs'"
      "refs_frame (hi_ref ` set b) refs1 refs'"
    using assms(1) by (auto simp: settled_def)
  have "set h' = set b" "length h' = length b"
    using mset_eq_setD [OF H(3)] mset_eq_length [OF H(3)] by simp_all
  then have "timers_ok (h', refs')"
    using H assms(4,5) by (intro timers_frame [of h' refs1]) simp_all
  then show ?thesis
    using H(1,5) deadlines_mset [OF H(3) assms(3)] assms(2,6)
    by (auto simp: ttl_done_def refs_frame_def)
qed

lemma ttl_change:
  assumes ok: "timers_ok (h, refs)" and pos: "pos < length h" "hi_ref (h ! pos) = Some e"
  shows "ttl_done (h, refs) e (Some d)
    (heap_update (h[pos := (h ! pos)\<lparr>hi_val := d\<rparr>]) pos (length h) refs)"
proof -
  note T = timers_okD [OF ok]
  let ?b = "h[pos := (h ! pos)\<lparr>hi_val := d\<rparr>]"
  have m: "map hi_ref ?b = map hi_ref h"
    using pos(1) by (simp add: map_update) (metis list_update_id map_update)
  have "hi_ref (?b ! i) = hi_ref (h ! i)" if "i < length h" for i
    using arg_cong [OF m, of "\<lambda>l. l ! i"] that by simp
  then have "refs_ok ?b refs" using T(2) m by (simp add: refs_ok_def)
  then have "settled ?b refs (heap_update ?b pos (length ?b) refs)"
    using pos(1) heap_except_update [OF T(1)] refs_ok_except by (intro heap_update_spec) simp_all
  moreover have "hi_ref ` set ?b = hi_ref ` set h" using arg_cong [OF m, of set] by simp
  ultimately show ?thesis
    using deadlines_update [OF T(4) pos] T(3-5) m
    by (intro ttl_settle [of ?b refs]) (simp_all del: set_map)
qed

lemma ttl_new:
  assumes ok: "timers_ok (h, refs)" and e: "Some e \<notin> hi_ref ` set h" "refs e = Some v"
    and room: "length h + 1 < 2 ^ 64 - 1"
  shows "ttl_done (h, refs) e (Some d)
    (heap_update (h @ [\<lparr>hi_val = d, hi_ref = Some e\<rparr>]) (length h) (length h + 1)
       (refs(e \<mapsto> of_nat (length h))))"
proof -
  note T = timers_okD [OF ok]
  let ?b = "h @ [\<lparr>hi_val = d, hi_ref = Some e\<rparr>]" and ?refs = "refs(e \<mapsto> of_nat (length h))"
  have dist: "distinct (map hi_ref ?b)" using T(4) e(1) by auto
  have "heap_except ?b (length h)"
    unfolding heap_except_def
  proof (intro conjI allI impI)
    fix i
    assume i: "i < length ?b" "0 < i" "i \<noteq> length h" "heap_parent i \<noteq> length h"
    then have "i < length h" "heap_parent i < length h" using heap_parent_less [OF i(2)] by simp_all
    then show "hi_val (?b ! heap_parent i) \<le> hi_val (?b ! i)"
      using T(1) i(2) by (simp add: heap_ok_def nth_append)
  next
    fix i
    assume "i < length ?b" "0 < i" "heap_parent i = length h"
    then show "hi_val (?b ! heap_parent (length h)) \<le> hi_val (?b ! i)"
      using heap_parent_less [of i] by simp
  qed
  moreover have "refs_ok ?b ?refs"
    using refs_ok_other [OF T(2) e(1)] dist by (auto simp: refs_ok_def nth_append less_Suc_eq)
  ultimately have "settled ?b ?refs (heap_update ?b (length h) (length ?b) ?refs)"
    by (intro heap_update_spec refs_ok_except) simp_all
  moreover have "w = - 1" if "?refs r = Some w" "Some r \<notin> hi_ref ` set ?b" for r w
    using T(5) [of r w] that by (auto split: if_splits)
  ultimately show ?thesis
    using deadlines_append [OF e(1), of "\<lparr>hi_val = d, hi_ref = Some e\<rparr>"] dist room e(2)
    by (intro ttl_settle [of ?b ?refs]) (auto split: if_splits)
qed

lemma entry_set_ttl_spec:
  assumes ok: "timers_ok (h, refs)" and e: "refs e = Some v" and room: "length h + 1 < 2 ^ 64 - 1"
  shows "ttl_done (h, refs) e (if sint ttl < 0 then None else Some (now + ttl * 1000))
    (entry_set_ttl now e ttl (h, refs))"
proof -
  note I = timers_index [OF ok e]
  show ?thesis
  proof (cases "sint ttl < 0")
    case True
    show ?thesis
    proof (cases "v = - 1")
      case no: True
      then have "deadlines h e = None" using I by (simp add: deadlines_None)
      then have "(deadlines h)(e := None) = deadlines h" by (simp add: fun_upd_idem)
      then show ?thesis
        using True no e ok by (simp add: entry_set_ttl_def load_Some ttl_done_def)
    next
      case False
      then show ?thesis
        using True I e ttl_remove [OF ok, of "unat v" e] by (simp add: entry_set_ttl_def load_Some)
    qed
  next
    case False
    show ?thesis
    proof (cases "v = - 1")
      case True
      then show ?thesis
        using False I e ttl_new [OF ok _ e room, of "now + ttl * 1000"]
        by (simp add: entry_set_ttl_def load_Some update_Some Let_def nth_append list_update_append)
    next
      case no: False
      then show ?thesis
        using False I e ttl_change [OF ok, of "unat v" e "now + ttl * 1000"]
        by (simp add: entry_set_ttl_def load_Some)
    qed
  qed
qed


section \<open>The contract of the timers\<close>

text \<open>
  A timer queue gives every entry at most one deadline; setting one changes no other, and the
  first one is the earliest.
\<close>

locale timer_queue =
  fixes inv :: "'s \<Rightarrow> bool"
    and due :: "'s \<Rightarrow> addr \<rightharpoonup> u64"
    and known :: "'s \<Rightarrow> addr \<Rightarrow> bool"
    and set_ttl :: "u64 \<Rightarrow> addr \<Rightarrow> u64 \<Rightarrow> 's \<Rightarrow> 's res"
    and first :: "'s \<Rightarrow> (addr \<times> u64) option"
  assumes set_law: "inv s \<Longrightarrow> known s e \<Longrightarrow> card (dom (due s)) + 1 < 2 ^ 64 - 1 \<Longrightarrow>
      \<exists>s'. set_ttl now e ttl s = Inr s' \<and> inv s' \<and> known s' = known s \<and>
        due s' = (due s)(e := if sint ttl < 0 then None else Some (now + ttl * 1000))"
    and first_None: "inv s \<Longrightarrow> first s = None \<longleftrightarrow> due s = Map.empty"
    and first_Some: "inv s \<Longrightarrow> first s = Some (e, v) \<Longrightarrow>
      due s e = Some v \<and> (\<forall>e' v'. due s e' = Some v' \<longrightarrow> v \<le> v')"
    and finite_due: "inv s \<Longrightarrow> finite (dom (due s))"

text \<open>A history of the clock's value, an entry and the TTL it is given, and the deadlines it leaves.\<close>

fun due_run :: "(u64 \<times> addr \<times> u64) list \<Rightarrow> (addr \<rightharpoonup> u64) \<Rightarrow> (addr \<rightharpoonup> u64)" where
  "due_run [] M = M"
| "due_run ((now, e, ttl) # ops) M =
     due_run ops (M(e := if sint ttl < 0 then None else Some (now + ttl * 1000)))"

fun ttl_run :: "(u64 \<Rightarrow> addr \<Rightarrow> u64 \<Rightarrow> 's \<Rightarrow> 's res) \<Rightarrow> (u64 \<times> addr \<times> u64) list \<Rightarrow> 's \<Rightarrow> 's res" where
  "ttl_run set_ttl [] s = Inr s"
| "ttl_run set_ttl ((now, e, ttl) # ops) s = bindr (set_ttl now e ttl s) (ttl_run set_ttl ops)"

context timer_queue
begin

lemma run_due:
  assumes "inv s" and "\<forall>(now, e, ttl) \<in> set ops. known s e"
    and "card (dom (due s)) + length ops < 2 ^ 64 - 1"
  shows "\<exists>s'. ttl_run set_ttl ops s = Inr s' \<and> inv s' \<and> due s' = due_run ops (due s)"
  using assms
proof (induction ops arbitrary: s)
  case (Cons op ops)
  obtain now e ttl where op: "op = (now, e, ttl)" by (cases op)
  obtain s' where s': "set_ttl now e ttl s = Inr s'" "inv s'" "known s' = known s"
      "due s' = (due s)(e := if sint ttl < 0 then None else Some (now + ttl * 1000))"
    using set_law [OF Cons.prems(1), of e now ttl] Cons.prems(2,3) op by auto
  have "dom (due s') \<subseteq> insert e (dom (due s))" unfolding s'(4) by (auto split: if_splits)
  then have "card (dom (due s')) \<le> card (insert e (dom (due s)))"
    using finite_due [OF Cons.prems(1)] by (intro card_mono) auto
  then have "card (dom (due s')) \<le> card (dom (due s)) + 1"
    using card_insert_le_m1 [of "card (dom (due s)) + 1" "dom (due s)" e] by simp
  then obtain s'' where "ttl_run set_ttl ops s' = Inr s''" "inv s''" "due s'' = due_run ops (due s')"
    using Cons.IH [OF s'(2)] s'(3) Cons.prems(2,3) op by auto
  then show ?case using s'(1,4) op by simp
qed simp

lemma run_first:
  assumes "inv s" and "\<forall>(now, e, ttl) \<in> set ops. known s e"
    and "card (dom (due s)) + length ops < 2 ^ 64 - 1"
  shows "\<exists>s'. ttl_run set_ttl ops s = Inr s' \<and> inv s' \<and> due s' = due_run ops (due s) \<and>
    (case first s' of
       None \<Rightarrow> due_run ops (due s) = Map.empty
     | Some (e, v) \<Rightarrow> due_run ops (due s) e = Some v \<and>
         (\<forall>e' v'. due_run ops (due s) e' = Some v' \<longrightarrow> v \<le> v'))"
  using run_due [OF assms] first_None first_Some by (fastforce split: option.splits)

end

text \<open>The item \<open>g_data.heap[0]\<close> that \<open>process_timers\<close> looks at.\<close>

definition heap_first :: "heap \<times> u64 store \<Rightarrow> (addr \<times> u64) option" where
  "heap_first s = (case fst s of [] \<Rightarrow> None | x # _ \<Rightarrow> Some (the (hi_ref x), hi_val x))"

lemma deadlines_Some_dom:
  assumes "refs_ok h refs"
  shows "Some ` dom (deadlines h) = hi_ref ` set h"
proof -
  have "\<exists>r. hi_ref x = Some r" if "x \<in> set h" for x
    using assms that by (auto simp: refs_ok_def in_set_conv_nth)
  then show ?thesis using deadlines_None [of h] by (force simp: dom_def image_iff)
qed

lemma card_deadlines:
  assumes "refs_ok h refs"
  shows "card (dom (deadlines h)) = length h" and "finite (dom (deadlines h))"
proof -
  have "card (Some ` dom (deadlines h)) = card (dom (deadlines h))" by (simp add: card_image)
  moreover have "card (hi_ref ` set h) = length h"
    using distinct_card [OF refs_ok_distinct [OF assms]] by simp
  ultimately show "card (dom (deadlines h)) = length h" using deadlines_Some_dom [OF assms] by simp
  have "finite (Some ` dom (deadlines h))" using deadlines_Some_dom [OF assms] by simp
  then show "finite (dom (deadlines h))" by (rule finite_imageD) simp
qed

lemma timers_first:
  assumes "timers_ok s"
  shows "heap_first s = None \<longleftrightarrow> deadlines (fst s) = Map.empty"
    and "heap_first s = Some (e, v) \<Longrightarrow>
      deadlines (fst s) e = Some v \<and> (\<forall>e' v'. deadlines (fst s) e' = Some v' \<longrightarrow> v \<le> v')"
proof -
  obtain h refs where s: "s = (h, refs)" by (cases s)
  note T = timers_okD [OF assms [unfolded s]]
  show "heap_first s = None \<longleftrightarrow> deadlines (fst s) = Map.empty"
    using card_deadlines(1) [OF T(2)] by (cases h) (auto simp: s heap_first_def deadlines_def)
  assume f: "heap_first s = Some (e, v)"
  then obtain x xs where h: "h = x # xs" by (cases h) (auto simp: s heap_first_def)
  then have x: "hi_ref x = Some e" "hi_val x = v"
    using f T(2) by (auto simp: s heap_first_def refs_ok_def)
  have "v \<le> hi_val y" if y: "y \<in> set h" for y
  proof -
    obtain i where "i < length h" "y = h ! i" using y by (auto simp: in_set_conv_nth)
    then show ?thesis using heap_ok_root [OF T(1), of i] x(2) h by simp
  qed
  then show "deadlines (fst s) e = Some v \<and> (\<forall>e' v'. deadlines (fst s) e' = Some v' \<longrightarrow> v \<le> v')"
    using x deadlines_Some [OF T(4)] h by (auto simp: s)
qed

interpretation timers: timer_queue timers_ok "\<lambda>s. deadlines (fst s)" "\<lambda>s e. snd s e \<noteq> None"
  entry_set_ttl heap_first
proof
  fix s e now ttl
  assume s: "timers_ok s" "snd s e \<noteq> None" "card (dom (deadlines (fst s))) + 1 < 2 ^ 64 - 1"
  obtain h refs v where [simp]: "s = (h, refs)" and "refs e = Some v" using s(2) by (cases s) auto
  then obtain s' where s': "entry_set_ttl now e ttl s = Inr s'" "timers_ok s'"
      "deadlines (fst s') = (deadlines (fst s))(e := if sint ttl < 0 then None else Some (now + ttl * 1000))"
      "\<forall>r. (snd s' r = None) = (snd s r = None)"
    using entry_set_ttl_spec [of h refs e v ttl now] s card_deadlines(1) [of h refs]
    by (auto simp: ttl_done_def timers_ok_def)
  then have "(\<lambda>e. snd s' e \<noteq> None) = (\<lambda>e. snd s e \<noteq> None)" by (simp only: fun_eq_iff) simp
  with s' show "\<exists>s'. entry_set_ttl now e ttl s = Inr s' \<and> timers_ok s' \<and>
      (\<lambda>e. snd s' e \<noteq> None) = (\<lambda>e. snd s e \<noteq> None) \<and>
      deadlines (fst s')
        = (deadlines (fst s))(e := if sint ttl < 0 then None else Some (now + ttl * 1000))"
    by blast
next
  fix s assume "timers_ok s"
  then show "finite (dom (deadlines (fst s)))"
    using card_deadlines(2) by (auto simp: timers_ok_def)
qed (use timers_first in blast)+

section \<open>Properties\<close>

text \<open>
  C19.  After the value of one item of a heap has been overwritten, larger or smaller,
  \<open>heap_update\<close> ends, keeps every access inside the array, restores the heap order, keeps the
  same items, and leaves in every entry the position its item has now; no other entry's index
  is written.
\<close>

theorem heap_update_restores:
  assumes "heap_ok h" and "refs_ok h refs" and "pos < length h"
  shows "\<exists>h' refs'. heap_update (h[pos := (h ! pos)\<lparr>hi_val := v\<rparr>]) pos (length h) refs = Inr (h', refs') \<and>
    heap_ok h' \<and> refs_ok h' refs' \<and> mset h' = mset (h[pos := (h ! pos)\<lparr>hi_val := v\<rparr>]) \<and>
    (\<forall>r. Some r \<notin> hi_ref ` set h \<longrightarrow> refs' r = refs r)"
proof -
  let ?b = "h[pos := (h ! pos)\<lparr>hi_val := v\<rparr>]"
  have m: "map hi_ref ?b = map hi_ref h"
    using assms(3) by (simp add: map_update) (metis list_update_id map_update)
  have "hi_ref (?b ! i) = hi_ref (h ! i)" if "i < length h" for i
    using arg_cong [OF m, of "\<lambda>l. l ! i"] that by simp
  then have "refs_ok ?b refs" using assms(2) m by (simp add: refs_ok_def)
  then have "settled ?b refs (heap_update ?b pos (length ?b) refs)"
    using assms(3) heap_except_update [OF assms(1)] refs_ok_except by (intro heap_update_spec) simp_all
  moreover have "hi_ref ` set ?b = hi_ref ` set h" using arg_cong [OF m, of set] by simp
  ultimately show ?thesis by (auto simp: settled_def refs_frame_def)
qed

definition demo_heap :: heap where
  "demo_heap = [\<lparr>hi_val = 10, hi_ref = Some 101\<rparr>, \<lparr>hi_val = 20, hi_ref = Some 102\<rparr>,
     \<lparr>hi_val = 15, hi_ref = Some 103\<rparr>, \<lparr>hi_val = 30, hi_ref = Some 104\<rparr>]"

definition demo_refs :: "u64 store" where
  "demo_refs = [101 \<mapsto> 0, 102 \<mapsto> 1, 103 \<mapsto> 2, 104 \<mapsto> 3, 105 \<mapsto> - 1]"

lemma demo_heap_ok: "heap_ok demo_heap" "refs_ok demo_heap demo_refs" "timers_ok (demo_heap, demo_refs)"
proof -
  have four: "i = 0 \<or> i = 1 \<or> i = 2 \<or> i = 3" if "i < length demo_heap" for i
    using that by (simp add: demo_heap_def) linarith
  have "heap_parent 1 = 0" "heap_parent 2 = 0" "heap_parent 3 = 1" by (simp_all add: heap_parent_def)
  then show h: "heap_ok demo_heap"
    unfolding heap_ok_def using four by (fastforce simp: demo_heap_def)
  show r: "refs_ok demo_heap demo_refs"
    unfolding refs_ok_def
  proof (intro conjI allI impI)
    show "distinct (map hi_ref demo_heap)" by (simp add: demo_heap_def)
    fix i
    assume "i < length demo_heap"
    from four [OF this]
    show "\<exists>r. hi_ref (demo_heap ! i) = Some r \<and> demo_refs r = Some (of_nat i)"
      by (elim disjE) (simp_all add: demo_heap_def demo_refs_def)
  qed
  show "timers_ok (demo_heap, demo_refs)"
    using h r by (auto simp: timers_ok_def demo_heap_def demo_refs_def split: if_splits)
qed

lemma demo_heap_length: "3 < length demo_heap"
  by (simp add: demo_heap_def)

theorem heap_update_restores_witness:
  "\<exists>h' refs'. heap_update (demo_heap[3 := (demo_heap ! 3)\<lparr>hi_val := 5\<rparr>]) 3 (length demo_heap) demo_refs = Inr (h', refs') \<and>
    heap_ok h' \<and> refs_ok h' refs'"
  using heap_update_restores [OF demo_heap_ok(1,2) demo_heap_length, of 5] by blast

text \<open>
  C20.  Taking any item out of a heap, the way expiry and \<open>EXPIRE\<close> with a negative TTL do,
  removes exactly that item; what is left is a heap whose entries know their positions.
\<close>

theorem heap_remove_removes:
  assumes "heap_ok h" and "refs_ok h refs" and "pos < length h"
  shows "\<exists>h' refs'. heap_remove h pos refs = Inr (h', refs') \<and> heap_ok h' \<and> refs_ok h' refs' \<and>
    add_mset (h ! pos) (mset h') = mset h"
  using heap_remove_spec [OF assms] by metis

theorem heap_remove_removes_witness:
  "\<exists>h' refs'. heap_remove demo_heap 0 demo_refs = Inr (h', refs') \<and> heap_ok h' \<and> refs_ok h' refs'"
  using heap_remove_removes [OF demo_heap_ok(1,2), of 0] by (auto simp: demo_heap_def)

text \<open>
  C15.  The timers refine a map from entries to deadlines: after any sequence of
  \<open>entry_set_ttl\<close> calls, with any clock values and TTLs, every entry has the deadline its last
  call gave it (none after a negative TTL), and the root of the heap is an entry whose
  deadline is the earliest; there is no root exactly when there is no deadline.
\<close>

theorem ttl_run_earliest:
  assumes "timers_ok s" and "\<forall>(now, e, ttl) \<in> set ops. snd s e \<noteq> None"
    and "length (fst s) + length ops < 2 ^ 64 - 1"
  shows "\<exists>s'. ttl_run entry_set_ttl ops s = Inr s' \<and> timers_ok s' \<and>
    deadlines (fst s') = due_run ops (deadlines (fst s)) \<and>
    (case heap_first s' of
       None \<Rightarrow> due_run ops (deadlines (fst s)) = Map.empty
     | Some (e, v) \<Rightarrow> due_run ops (deadlines (fst s)) e = Some v \<and>
         (\<forall>e' v'. due_run ops (deadlines (fst s)) e' = Some v' \<longrightarrow> v \<le> v'))"
proof -
  have "card (dom (deadlines (fst s))) = length (fst s)"
    using assms(1) card_deadlines(1) [of "fst s" "snd s"] by (simp add: timers_ok_def)
  then show ?thesis using assms by (intro timers.run_first) simp_all
qed

theorem ttl_run_earliest_witness:
  "\<exists>s'. ttl_run entry_set_ttl [(100, 105, 3), (200, 102, - 1), (300, 101, 2)] (demo_heap, demo_refs) = Inr s' \<and>
    deadlines (fst s') = due_run [(100, 105, 3), (200, 102, - 1), (300, 101, 2)] (deadlines demo_heap)"
  using ttl_run_earliest [OF demo_heap_ok(3), of "[(100, 105, 3), (200, 102, - 1), (300, 101, 2)]"]
  by (auto simp: demo_refs_def demo_heap_def)

text \<open>
  The deadline is computed modulo 2^64: a key given the TTL 2^61 milliseconds, which an
  \<open>int64_t\<close> holds, gets the current time as its deadline and expires at once.
\<close>

theorem huge_ttl_expires_at_once:
  assumes "timers_ok s" and "snd s e \<noteq> None" and "length (fst s) + 1 < 2 ^ 64 - 1"
  shows "\<exists>s'. entry_set_ttl now e (2 ^ 61) s = Inr s' \<and> sint (2 ^ 61 :: u64) = 2 ^ 61 \<and>
    deadlines (fst s') e = Some now"
proof -
  obtain h refs v where s: "s = (h, refs)" "refs e = Some v" using assms(2) by (cases s) auto
  have "(2 ^ 61 :: u64) * 1000 = 0" by simp
  moreover have i: "sint (2 ^ 61 :: u64) = 2 ^ 61" by simp
  ultimately show ?thesis
    using entry_set_ttl_spec [of h refs e v "2 ^ 61" now] assms(1,3) s by (auto simp: ttl_done_def)
qed

theorem huge_ttl_expires_at_once_witness:
  "\<exists>s'. entry_set_ttl 7 105 (2 ^ 61) (demo_heap, demo_refs) = Inr s' \<and> deadlines (fst s') 105 = Some 7"
  using huge_ttl_expires_at_once [OF demo_heap_ok(3), of 105 7] by (auto simp: demo_refs_def demo_heap_def)

end
