(* ===== verification/Idle_List.thy ===== *)
theory Idle_List
  imports Prelude
begin

text \<open>
  \<open>DList.cpp\<close>: a circular doubly linked list through the \<open>idle_list\<close> fields of the connections and a
  head in the global state.  The server keeps its connections in it in the order in which they
  were last active.
\<close>

section \<open>Data and operations\<close>

record DList =
  d_prev :: ptr
  d_next :: ptr

type_synonym dmem = "DList store"

definition dList_init :: "dmem \<Rightarrow> ptr \<Rightarrow> dmem res" where
  "dList_init m node =
     bindr (update m node (\<lambda>n. n\<lparr>d_prev := node\<rparr>)) (\<lambda>m1.
     update m1 node (\<lambda>n. n\<lparr>d_next := node\<rparr>))"

definition dList_empty :: "dmem \<Rightarrow> ptr \<Rightarrow> bool res" where
  "dList_empty m node = bindr (load m node) (\<lambda>n. Inr (d_next n = node \<or> d_next n = None))"

definition dlist_detach :: "dmem \<Rightarrow> ptr \<Rightarrow> dmem res" where
  "dlist_detach m node =
     bindr (load m node) (\<lambda>n.
     let prev = d_prev n; next' = d_next n in
     bindr (update m prev (\<lambda>p. p\<lparr>d_next := next'\<rparr>)) (\<lambda>m1.
     update m1 next' (\<lambda>k. k\<lparr>d_prev := prev\<rparr>)))"

definition list_insert_before :: "dmem \<Rightarrow> ptr \<Rightarrow> ptr \<Rightarrow> dmem res" where
  "list_insert_before m target node =
     bindr (load m target) (\<lambda>t.
     let prev = d_prev t in
     bindr (update m prev (\<lambda>p. p\<lparr>d_next := node\<rparr>)) (\<lambda>m1.
     bindr (update m1 node (\<lambda>n. n\<lparr>d_prev := prev\<rparr>)) (\<lambda>m2.
     bindr (update m2 node (\<lambda>n. n\<lparr>d_next := target\<rparr>)) (\<lambda>m3.
     update m3 target (\<lambda>t. t\<lparr>d_prev := node\<rparr>)))))"

section \<open>Links\<close>

definition nx :: "dmem \<Rightarrow> addr \<Rightarrow> ptr" where
  "nx m a = (case m a of None \<Rightarrow> None | Some n \<Rightarrow> d_next n)"

definition pv :: "dmem \<Rightarrow> addr \<Rightarrow> ptr" where
  "pv m a = (case m a of None \<Rightarrow> None | Some n \<Rightarrow> d_prev n)"

text \<open>Two neighbours.\<close>

definition lk :: "dmem \<Rightarrow> addr \<Rightarrow> addr \<Rightarrow> bool" where
  "lk m a b \<longleftrightarrow> m a \<noteq> None \<and> m b \<noteq> None \<and> nx m a = Some b \<and> pv m b = Some a"

lemma update_next:
  assumes "a \<in> dom m"
  obtains m' where "update m (Some a) (\<lambda>n. n\<lparr>d_next := p\<rparr>) = Inr m'"
    and "nx m' = (nx m)(a := p)" and "pv m' = pv m" and "dom m' = dom m"
  using assms by (intro that [of "m(a \<mapsto> (the (m a))\<lparr>d_next := p\<rparr>)"])
    (auto simp: update_def load_def nx_def pv_def fun_eq_iff)

lemma update_prev:
  assumes "a \<in> dom m"
  obtains m' where "update m (Some a) (\<lambda>n. n\<lparr>d_prev := p\<rparr>) = Inr m'"
    and "nx m' = nx m" and "pv m' = (pv m)(a := p)" and "dom m' = dom m"
  using assms by (intro that [of "m(a \<mapsto> (the (m a))\<lparr>d_prev := p\<rparr>)"])
    (auto simp: update_def load_def nx_def pv_def fun_eq_iff)

lemma load_links: "m a \<noteq> None \<Longrightarrow> \<exists>n. load m (Some a) = Inr n \<and> d_prev n = pv m a \<and> d_next n = nx m a"
  by (auto simp: load_def nx_def pv_def)

text \<open>A stretch of links survives changes that touch its ends only.\<close>

lemma seg_keep:
  assumes "successively (lk m) xs" and "\<forall>a \<in> set (butlast xs). nx m' a = nx m a"
    and "\<forall>b \<in> set (tl xs). pv m' b = pv m b" and "dom m' = dom m"
  shows "successively (lk m') xs"
  using assms
proof (induction xs rule: induct_list012)
  case (3 x y zs)
  then have "lk m' x y" by (auto simp: lk_def)
  moreover have "\<forall>b \<in> set (tl (y # zs)). pv m' b = pv m b" using 3(5) by simp
  ultimately show ?case using 3 by simp
qed simp_all

text \<open>The ring through the head \<open>h\<close> and the nodes \<open>xs\<close>.\<close>

definition ring :: "dmem \<Rightarrow> addr \<Rightarrow> addr list \<Rightarrow> bool" where
  "ring m h xs \<longleftrightarrow> distinct (h # xs) \<and> successively (lk m) (h # xs @ [h])"

lemma successively_alive: "successively (lk m) (xs @ [y]) \<Longrightarrow> xs \<noteq> [] \<Longrightarrow> a \<in> set (xs @ [y]) \<Longrightarrow> m a \<noteq> None"
proof (induction xs)
  case (Cons x xs)
  then show ?case by (cases xs) (auto simp: lk_def)
qed simp

lemma ring_alive: "ring m h xs \<Longrightarrow> a \<in> set (h # xs) \<Longrightarrow> m a \<noteq> None"
  using successively_alive [of m "h # xs" h a] by (auto simp: ring_def)

lemma ring_last: "ring m h xs \<Longrightarrow> lk m (last (h # xs)) h"
  unfolding ring_def append_Cons [symmetric] by (auto simp: successively_append_iff simp del: append_Cons)

lemma ring_first: "ring m h xs \<Longrightarrow> nx m h = Some (hd (xs @ [h]))"
  by (cases xs) (auto simp: ring_def lk_def)

lemma ring_init_spec:
  assumes "m h \<noteq> None"
  obtains m' where "dList_init m (Some h) = Inr m'" and "ring m' h []" and "dom m' = dom m"
proof -
  obtain m1 where m1: "update m (Some h) (\<lambda>n. n\<lparr>d_prev := Some h\<rparr>) = Inr m1" "nx m1 = nx m"
      "pv m1 = (pv m)(h := Some h)" "dom m1 = dom m"
    using update_prev [of h m] assms by blast
  then have "h \<in> dom m1" using assms by auto
  then obtain m2 where m2: "update m1 (Some h) (\<lambda>n. n\<lparr>d_next := Some h\<rparr>) = Inr m2"
      "nx m2 = (nx m1)(h := Some h)" "pv m2 = pv m1" "dom m2 = dom m1"
    using update_next by blast
  then have "m2 h \<noteq> None" using assms m1(4) by (metis domIff)
  then have "ring m2 h []" using m1(2,3) m2(2,3) by (simp add: ring_def lk_def)
  then show ?thesis using that m1 m2 by (simp add: dList_init_def)
qed

lemma ring_empty_spec: "ring m h xs \<Longrightarrow> dList_empty m (Some h) = Inr (xs = [])"
proof -
  assume r: "ring m h xs"
  obtain n where n: "load m (Some h) = Inr n" "d_next n = nx m h"
    using load_links [of m h] ring_alive [OF r, of h] by auto
  moreover have "hd (xs @ [h]) = h \<longleftrightarrow> xs = []"
    using r by (cases xs) (auto simp: ring_def)
  ultimately show ?thesis using ring_first [OF r] by (simp add: dList_empty_def)
qed

lemma ring_insert_spec:
  assumes r: "ring m h xs" and z: "z \<notin> set (h # xs)" "m z \<noteq> None"
  obtains m' where "list_insert_before m (Some h) (Some z) = Inr m'" and "ring m' h (xs @ [z])"
    and "dom m' = dom m"
proof -
  let ?l = "last (h # xs)"
  have h: "m h \<noteq> None" "m ?l \<noteq> None"
    using ring_alive [OF r, of h] ring_alive [OF r last_in_set] by simp_all
  have pv: "pv m h = Some ?l" using ring_last [OF r] by (simp add: lk_def)
  obtain t where t: "load m (Some h) = Inr t" "d_prev t = Some ?l"
    using load_links [of m h] h pv by metis
  obtain m1 where m1: "update m (Some ?l) (\<lambda>n. n\<lparr>d_next := Some z\<rparr>) = Inr m1"
      "nx m1 = (nx m)(?l := Some z)" "pv m1 = pv m" "dom m1 = dom m"
    using update_next [of ?l m] h(2) by blast
  then have "z \<in> dom m1" using z(2) by auto
  then obtain m2 where m2: "update m1 (Some z) (\<lambda>n. n\<lparr>d_prev := Some ?l\<rparr>) = Inr m2"
      "nx m2 = nx m1" "pv m2 = (pv m1)(z := Some ?l)" "dom m2 = dom m1"
    using update_prev by blast
  then have "z \<in> dom m2" using z(2) m1(4) by auto
  then obtain m3 where m3: "update m2 (Some z) (\<lambda>n. n\<lparr>d_next := Some h\<rparr>) = Inr m3"
      "nx m3 = (nx m2)(z := Some h)" "pv m3 = pv m2" "dom m3 = dom m2"
    using update_next by blast
  then have "h \<in> dom m3" using h(1) m1(4) m2(4) by auto
  then obtain m4 where m4: "update m3 (Some h) (\<lambda>n. n\<lparr>d_prev := Some z\<rparr>) = Inr m4"
      "nx m4 = nx m3" "pv m4 = (pv m3)(h := Some z)" "dom m4 = dom m3"
    using update_prev by blast
  have dom: "dom m4 = dom m" using m1(4) m2(4) m3(4) m4(4) by simp
  have alive: "m4 z \<noteq> None" "m4 h \<noteq> None" "m4 ?l \<noteq> None" using z(2) h dom by (metis domIff)+
  have nx: "nx m4 = (nx m)(?l := Some z, z := Some h)" using m1(2) m2(2) m3(2) m4(2) by simp
  have pv': "pv m4 = (pv m)(z := Some ?l, h := Some z)" using m1(3) m2(3) m3(3) m4(3) by simp
  have ne: "z \<noteq> h" "z \<noteq> ?l" "z \<notin> set xs" "z \<notin> set (butlast (h # xs))"
    using z(1) last_in_set [of "h # xs"] in_set_butlastD [of z "h # xs"] by auto
  have dist: "distinct (h # xs)" using r by (simp add: ring_def)
  then have l: "?l \<notin> set (butlast (h # xs))"
    by (metis append_butlast_last_id distinct_append disjoint_iff list.discI list.set_intros(1))
  have seg: "successively (lk m) (h # xs)"
    using r unfolding ring_def append_Cons [symmetric] successively_append_iff by simp
  have "successively (lk m4) (h # xs)"
  proof (rule seg_keep [of m])
    show "\<forall>a \<in> set (butlast (h # xs)). nx m4 a = nx m a"
    proof
      fix a assume that: "a \<in> set (butlast (h # xs))"
      have "a \<noteq> ?l" "a \<noteq> z" using l ne(4) that by metis+
      then show "nx m4 a = nx m a" unfolding nx by simp
    qed
    show "\<forall>b \<in> set (tl (h # xs)). pv m4 b = pv m b"
      using dist ne(3) unfolding pv' by auto
  qed (use seg dom in simp_all)
  moreover have "lk m4 ?l z" "lk m4 z h"
    using alive ne(1,2) by (auto simp: lk_def nx pv' simp del: last.simps)
  ultimately have "successively (lk m4) ((h # xs) @ [z, h])"
    by (simp only: successively_append_iff) simp
  then have "ring m4 h (xs @ [z])" using dist ne by (auto simp: ring_def)
  then show ?thesis
    using that dom t m1(1) m2(1) m3(1) m4(1) by (simp add: list_insert_before_def Let_def)
qed

lemma ring_detach_spec:
  assumes r: "ring m h (ys @ x # zs)"
  obtains m' where "dlist_detach m (Some x) = Inr m'" and "ring m' h (ys @ zs)" and "dom m' = dom m"
proof -
  let ?p = "last (h # ys)" and ?n = "hd (zs @ [h])"
  have dist: "distinct (h # ys @ x # zs)" and succ: "successively (lk m) ((h # ys) @ [x] @ (zs @ [h]))"
    using r by (simp_all add: ring_def)
  have S: "successively (lk m) (h # ys)" "lk m ?p x" "lk m x ?n" "successively (lk m) (zs @ [h])"
    using succ unfolding successively_append_iff by auto
  have alive: "m ?p \<noteq> None" "m x \<noteq> None" "m ?n \<noteq> None" using S(2,3) by (auto simp: lk_def)
  have x: "pv m x = Some ?p" "nx m x = Some ?n" using S(2,3) by (simp_all add: lk_def)
  obtain t where t: "load m (Some x) = Inr t" "d_prev t = Some ?p" "d_next t = Some ?n"
    using load_links [of m x] alive x by metis
  obtain m1 where m1: "update m (Some ?p) (\<lambda>n. n\<lparr>d_next := Some ?n\<rparr>) = Inr m1"
      "nx m1 = (nx m)(?p := Some ?n)" "pv m1 = pv m" "dom m1 = dom m"
    using update_next [of ?p m] alive(1) by blast
  then have "?n \<in> dom m1" using alive(3) by auto
  then obtain m2 where m2: "update m1 (Some ?n) (\<lambda>n. n\<lparr>d_prev := Some ?p\<rparr>) = Inr m2"
      "nx m2 = nx m1" "pv m2 = (pv m1)(?n := Some ?p)" "dom m2 = dom m1"
    using update_prev by blast
  have dom: "dom m2 = dom m" using m1(4) m2(4) by simp
  have nx: "nx m2 = (nx m)(?p := Some ?n)" and pv: "pv m2 = (pv m)(?n := Some ?p)"
    using m1(2,3) m2(2,3) by simp_all
  have p: "?p \<notin> set zs" "?p \<in> set (h # ys)" and n: "?n \<notin> set ys"
    using dist last_in_set [of "h # ys"] by (cases zs; auto)+
  have l: "?p \<notin> set (butlast (h # ys))"
    using dist by (metis append_butlast_last_id distinct.simps(2) distinct_append disjoint_iff
        list.discI list.set_intros(1) append_Cons)
  have "successively (lk m2) (h # ys)"
  proof (rule seg_keep [of m])
    show "\<forall>a \<in> set (butlast (h # ys)). nx m2 a = nx m a"
    proof
      fix a assume that: "a \<in> set (butlast (h # ys))"
      have "a \<noteq> ?p" using l that by metis
      then show "nx m2 a = nx m a" unfolding nx by simp
    qed
    show "\<forall>b \<in> set (tl (h # ys)). pv m2 b = pv m b"
    proof
      fix b assume that: "b \<in> set (tl (h # ys))"
      have "b \<noteq> ?n" using n that by auto
      then show "pv m2 b = pv m b" unfolding pv by simp
    qed
  qed (use S(1) dom in simp_all)
  moreover have n': "?n \<notin> set (tl (zs @ [h]))" using dist by (cases zs) auto
  have "successively (lk m2) (zs @ [h])"
  proof (rule seg_keep [of m])
    show "\<forall>a \<in> set (butlast (zs @ [h])). nx m2 a = nx m a"
    proof
      fix a assume that: "a \<in> set (butlast (zs @ [h]))"
      have "a \<noteq> ?p" using p(1) that by auto
      then show "nx m2 a = nx m a" unfolding nx by simp
    qed
    show "\<forall>b \<in> set (tl (zs @ [h])). pv m2 b = pv m b"
    proof
      fix b assume that: "b \<in> set (tl (zs @ [h]))"
      have "b \<noteq> ?n" using n' that by auto
      then show "pv m2 b = pv m b" unfolding pv by simp
    qed
  qed (use S(4) dom in simp_all)
  moreover have "lk m2 ?p ?n" using alive dom by (auto simp: lk_def nx pv domIff simp del: last.simps)
  ultimately have "successively (lk m2) ((h # ys) @ (zs @ [h]))"
    by (simp only: successively_append_iff) simp
  then have "ring m2 h (ys @ zs)" using dist by (simp add: ring_def)
  then show ?thesis using that dom t m1(1) m2(1) by (simp add: dlist_detach_def Let_def)
qed


section \<open>The contract of the idle list\<close>

text \<open>What the server does with it: a new connection, activity on one, and its end.\<close>

definition idle_head :: addr where
  "idle_head = 0"

definition idle_open :: "addr \<Rightarrow> dmem \<Rightarrow> dmem res" where
  "idle_open c m =
     bindr (dList_init m (Some c)) (\<lambda>m1. list_insert_before m1 (Some idle_head) (Some c))"

definition idle_touch :: "addr \<Rightarrow> dmem \<Rightarrow> dmem res" where
  "idle_touch c m =
     bindr (dlist_detach m (Some c)) (\<lambda>m1. list_insert_before m1 (Some idle_head) (Some c))"

definition idle_close :: "addr \<Rightarrow> dmem \<Rightarrow> dmem res" where
  "idle_close c m = dlist_detach m (Some c)"

definition idle_first :: "dmem \<Rightarrow> ptr res" where
  "idle_first m = bindr (dList_empty m (Some idle_head)) (\<lambda>empty.
     if empty then Inr None else bindr (load m (Some idle_head)) (\<lambda>h. Inr (d_next h)))"

text \<open>
  A queue of connections: a new one goes to the back, one that was active moves to the back,
  and the first is the one at the front.
\<close>

locale idle_queue =
  fixes holds :: "'s \<Rightarrow> addr list \<Rightarrow> bool"
    and known :: "'s \<Rightarrow> addr \<Rightarrow> bool"
    and enter :: "addr \<Rightarrow> 's \<Rightarrow> 's res"
    and touch :: "addr \<Rightarrow> 's \<Rightarrow> 's res"
    and leave :: "addr \<Rightarrow> 's \<Rightarrow> 's res"
    and front :: "'s \<Rightarrow> ptr res"
  assumes enter_law: "holds s xs \<Longrightarrow> known s c \<Longrightarrow> c \<notin> set xs \<Longrightarrow>
      \<exists>s'. enter c s = Inr s' \<and> holds s' (xs @ [c]) \<and> known s' = known s"
    and touch_law: "holds s (xs @ c # ys) \<Longrightarrow>
      \<exists>s'. touch c s = Inr s' \<and> holds s' (xs @ ys @ [c]) \<and> known s' = known s"
    and leave_law: "holds s (xs @ c # ys) \<Longrightarrow>
      \<exists>s'. leave c s = Inr s' \<and> holds s' (xs @ ys) \<and> known s' = known s"
    and front_law: "holds s xs \<Longrightarrow> front s = Inr (case xs of [] \<Rightarrow> None | x # _ \<Rightarrow> Some x)"
    and holds_distinct: "holds s xs \<Longrightarrow> distinct xs"

text \<open>The events of a server with their times, and the list of connections they lead to.\<close>

datatype idle_event = Opened addr | Active addr | Closed addr

fun idle_spec :: "(idle_event \<times> u64) list \<Rightarrow> (addr \<times> u64) list \<Rightarrow> (addr \<times> u64) list" where
  "idle_spec [] L = L"
| "idle_spec ((Opened c, t) # evs) L = idle_spec evs (L @ [(c, t)])"
| "idle_spec ((Active c, t) # evs) L = idle_spec evs (filter (\<lambda>p. fst p \<noteq> c) L @ [(c, t)])"
| "idle_spec ((Closed c, t) # evs) L = idle_spec evs (filter (\<lambda>p. fst p \<noteq> c) L)"

text \<open>A connection is opened at a free address, and is active or closed while it is open.\<close>

fun idle_ok :: "(addr \<Rightarrow> bool) \<Rightarrow> (idle_event \<times> u64) list \<Rightarrow> addr set \<Rightarrow> bool" where
  "idle_ok known [] X \<longleftrightarrow> True"
| "idle_ok known ((Opened c, t) # evs) X \<longleftrightarrow> known c \<and> c \<notin> X \<and> idle_ok known evs (insert c X)"
| "idle_ok known ((Active c, t) # evs) X \<longleftrightarrow> c \<in> X \<and> idle_ok known evs X"
| "idle_ok known ((Closed c, t) # evs) X \<longleftrightarrow> c \<in> X \<and> idle_ok known evs (X - {c})"

fun idle_run ::
  "(addr \<Rightarrow> 's \<Rightarrow> 's res) \<Rightarrow> (addr \<Rightarrow> 's \<Rightarrow> 's res) \<Rightarrow> (addr \<Rightarrow> 's \<Rightarrow> 's res) \<Rightarrow>
   (idle_event \<times> u64) list \<Rightarrow> 's \<Rightarrow> 's res" where
  "idle_run enter touch leave [] s = Inr s"
| "idle_run enter touch leave ((Opened c, t) # evs) s = bindr (enter c s) (idle_run enter touch leave evs)"
| "idle_run enter touch leave ((Active c, t) # evs) s = bindr (touch c s) (idle_run enter touch leave evs)"
| "idle_run enter touch leave ((Closed c, t) # evs) s = bindr (leave c s) (idle_run enter touch leave evs)"

lemma split_entry:
  assumes "c \<in> fst ` set L" and "distinct (map fst L)"
  obtains xs ys where "map fst L = xs @ c # ys" and "map fst (filter (\<lambda>p. fst p \<noteq> c) L) = xs @ ys"
proof -
  obtain A p B where L: "L = A @ p # B" "fst p = c" using assms(1) by (metis imageE split_list)
  then have "c \<notin> fst ` set A" "c \<notin> fst ` set B" using assms(2) by auto
  then have "filter (\<lambda>p. fst p \<noteq> c) A = A" "filter (\<lambda>p. fst p \<noteq> c) B = B"
    by (auto simp: filter_id_conv image_iff)
  then have "filter (\<lambda>p. fst p \<noteq> c) L = A @ B" using L by simp
  then show ?thesis using that [of "map fst A" "map fst B"] L by simp
qed

lemma sorted_filter_snoc:
  assumes "sorted (map snd L)" and "\<forall>p \<in> set L. snd p \<le> (t :: u64)"
  shows "sorted (map snd (filter P L @ [(c, t)]))"
  using assms sorted_filter [of snd L P] by (auto simp: sorted_append)

context idle_queue
begin

lemma run_sorted:
  assumes "holds s (map fst L)" and "idle_ok (known s) evs (fst ` set L)"
    and "sorted (map snd L)" and "sorted (map snd evs)"
    and "\<forall>p \<in> set L. \<forall>e \<in> set evs. snd p \<le> snd e"
  shows "\<exists>s'. idle_run enter touch leave evs s = Inr s' \<and> holds s' (map fst (idle_spec evs L)) \<and>
    sorted (map snd (idle_spec evs L))"
  using assms
proof (induction evs arbitrary: s L)
  case (Cons ev evs)
  have dist: "distinct (map fst L)" by (rule holds_distinct [OF Cons.prems(1)])
  have later: "\<forall>e \<in> set evs. snd ev \<le> snd e" "sorted (map snd evs)" "\<forall>p \<in> set L. snd p \<le> snd ev"
    using Cons.prems(4,5) by auto
  obtain t where t: "snd ev = t" by simp
  show ?case
  proof (cases "fst ev")
    case (Opened c)
    then have ev: "ev = (Opened c, t)" using t by (metis prod.collapse)
    obtain s' where s': "enter c s = Inr s'" "holds s' (map fst L @ [c])" "known s' = known s"
      using enter_law [OF Cons.prems(1), of c] Cons.prems(2) ev by auto
    then show ?thesis
      using Cons.IH [of s' "L @ [(c, t)]"] Cons.prems(2-5) later t ev by (auto simp: sorted_append)
  next
    case (Active c)
    then have ev: "ev = (Active c, t)" using t by (metis prod.collapse)
    obtain xs ys where L: "map fst L = xs @ c # ys" "map fst (filter (\<lambda>p. fst p \<noteq> c) L) = xs @ ys"
      using split_entry [OF _ dist, of c] Cons.prems(2) ev by auto
    obtain s' where s': "touch c s = Inr s'" "holds s' (xs @ ys @ [c])" "known s' = known s"
      using touch_law Cons.prems(1) L(1) by metis
    let ?L = "filter (\<lambda>p. fst p \<noteq> c) L @ [(c, t)]"
    have "fst ` set ?L = fst ` set L" using Cons.prems(2) ev by auto
    then have "idle_ok (known s') evs (fst ` set ?L)" using Cons.prems(2) ev s'(3) by simp
    moreover have "sorted (map snd ?L)"
      using sorted_filter_snoc [OF Cons.prems(3), of t] later(3) t by simp
    ultimately show ?thesis
      using Cons.IH [of s' ?L] s' L(2) later Cons.prems(5) t ev by auto
  next
    case (Closed c)
    then have ev: "ev = (Closed c, t)" using t by (metis prod.collapse)
    obtain xs ys where L: "map fst L = xs @ c # ys" "map fst (filter (\<lambda>p. fst p \<noteq> c) L) = xs @ ys"
      using split_entry [OF _ dist, of c] Cons.prems(2) ev by auto
    obtain s' where s': "leave c s = Inr s'" "holds s' (xs @ ys)" "known s' = known s"
      using leave_law Cons.prems(1) L(1) by metis
    let ?L = "filter (\<lambda>p. fst p \<noteq> c) L"
    have "fst ` set ?L = fst ` set L - {c}" by auto
    then show ?thesis
      using Cons.IH [of s' ?L] s' L(2) later Cons.prems(2,3,5) ev sorted_filter [of snd L] by auto
  qed
qed simp

lemma run_front:
  assumes "holds s []" and "idle_ok (known s) evs {}" and "sorted (map snd evs)"
  shows "\<exists>s'. idle_run enter touch leave evs s = Inr s' \<and> holds s' (map fst (idle_spec evs [])) \<and>
    sorted (map snd (idle_spec evs [])) \<and>
    front s' = Inr (case idle_spec evs [] of [] \<Rightarrow> None | p # _ \<Rightarrow> Some (fst p))"
proof -
  obtain s' where s': "idle_run enter touch leave evs s = Inr s'" "holds s' (map fst (idle_spec evs []))"
      "sorted (map snd (idle_spec evs []))"
    using run_sorted [of s "[]" evs] assms by auto
  then show ?thesis using front_law [OF s'(2)] by (cases "idle_spec evs []") auto
qed

end

section \<open>The list meets its contract\<close>

definition idle_known :: "dmem \<Rightarrow> addr \<Rightarrow> bool" where
  "idle_known m c \<longleftrightarrow> c \<noteq> idle_head \<and> m c \<noteq> None"

lemma idle_known_dom: "dom m' = dom m \<Longrightarrow> idle_known m' = idle_known m"
  by (auto simp: idle_known_def fun_eq_iff dom_def)

lemma ring_others: "ring m h xs \<Longrightarrow> dom m' = dom m \<Longrightarrow> nx m' = (nx m)(c := p) \<Longrightarrow>
    pv m' = (pv m)(c := q) \<Longrightarrow> c \<notin> set (h # xs) \<Longrightarrow> ring m' h xs"
  unfolding ring_def by (auto intro!: seg_keep [of m] dest: in_set_butlastD list.set_sel(2))

lemma idle_open_spec:
  assumes "ring m idle_head xs" and "idle_known m c" and "c \<notin> set xs"
  shows "\<exists>m'. idle_open c m = Inr m' \<and> ring m' idle_head (xs @ [c]) \<and> idle_known m' = idle_known m"
proof -
  have c: "c \<in> dom m" "c \<notin> set (idle_head # xs)" using assms(2,3) by (auto simp: idle_known_def)
  obtain m1 where m1: "update m (Some c) (\<lambda>n. n\<lparr>d_prev := Some c\<rparr>) = Inr m1" "nx m1 = nx m"
      "pv m1 = (pv m)(c := Some c)" "dom m1 = dom m"
    using update_prev [OF c(1)] by blast
  then obtain m2 where m2: "update m1 (Some c) (\<lambda>n. n\<lparr>d_next := Some c\<rparr>) = Inr m2"
      "nx m2 = (nx m1)(c := Some c)" "pv m2 = pv m1" "dom m2 = dom m1"
    using update_next [of c m1] c(1) by metis
  have "ring m2 idle_head xs"
    by (rule ring_others [OF assms(1), where c = c and p = "Some c" and q = "Some c"])
      (use m1 m2 c in simp_all)
  then obtain m' where "list_insert_before m2 (Some idle_head) (Some c) = Inr m'"
      "ring m' idle_head (xs @ [c])" "dom m' = dom m2"
    using ring_insert_spec [of m2 idle_head xs c] c m1(4) m2(4) by (metis domIff)
  then show ?thesis
    using m1 m2 idle_known_dom [of m' m] by (auto simp: idle_open_def dList_init_def)
qed

lemma idle_touch_spec:
  assumes "ring m idle_head (xs @ c # ys)"
  shows "\<exists>m'. idle_touch c m = Inr m' \<and> ring m' idle_head (xs @ ys @ [c]) \<and> idle_known m' = idle_known m"
proof -
  obtain m1 where m1: "dlist_detach m (Some c) = Inr m1" "ring m1 idle_head (xs @ ys)" "dom m1 = dom m"
    using ring_detach_spec [OF assms] by blast
  have c: "c \<notin> set (idle_head # xs @ ys)" using assms by (auto simp: ring_def)
  have "m c \<noteq> None" using ring_alive [OF assms, of c] by simp
  then have "m1 c \<noteq> None" using m1(3) by (metis domIff)
  then obtain m2 where "list_insert_before m1 (Some idle_head) (Some c) = Inr m2"
      "ring m2 idle_head ((xs @ ys) @ [c])" "dom m2 = dom m1"
    using ring_insert_spec [OF m1(2) c] by blast
  then show ?thesis using m1(1,3) idle_known_dom [of m2 m] by (auto simp: idle_touch_def)
qed

lemma idle_close_spec:
  assumes "ring m idle_head (xs @ c # ys)"
  shows "\<exists>m'. idle_close c m = Inr m' \<and> ring m' idle_head (xs @ ys) \<and> idle_known m' = idle_known m"
  using ring_detach_spec [OF assms] idle_known_dom unfolding idle_close_def by metis

lemma idle_first_spec:
  assumes "ring m idle_head xs"
  shows "idle_first m = Inr (case xs of [] \<Rightarrow> None | x # _ \<Rightarrow> Some x)"
proof -
  obtain n where "load m (Some idle_head) = Inr n" "d_next n = nx m idle_head"
    using load_links [of m idle_head] ring_alive [OF assms, of idle_head] by auto
  then show ?thesis
    using ring_empty_spec [OF assms] ring_first [OF assms] by (cases xs) (auto simp: idle_first_def)
qed

interpretation idle: idle_queue "\<lambda>m xs. ring m idle_head xs" idle_known idle_open idle_touch
  idle_close idle_first
  by unfold_locales
    (use idle_open_spec idle_touch_spec idle_close_spec idle_first_spec in \<open>auto simp: ring_def\<close>)

section \<open>Properties\<close>

text \<open>
  C21.  Starting with the empty list \<open>main\<close> makes, after any sequence of connections opened,
  active and closed under a clock that does not go back, no pointer of the list is bad, the ring holds the
  open connections, each once, sorted by the time they were last active, and the one after
  the head, the only one the timers look at, is the one idle for the longest.
\<close>

theorem idle_list_sorted:
  assumes "m idle_head \<noteq> None" and "idle_ok (idle_known m) evs {}" and "sorted (map snd evs)"
  shows "\<exists>m0 m'. dList_init m (Some idle_head) = Inr m0 \<and>
    idle_run idle_open idle_touch idle_close evs m0 = Inr m' \<and>
    ring m' idle_head (map fst (idle_spec evs [])) \<and> distinct (map fst (idle_spec evs [])) \<and>
    sorted (map snd (idle_spec evs [])) \<and>
    idle_first m' = Inr (case idle_spec evs [] of [] \<Rightarrow> None | p # _ \<Rightarrow> Some (fst p))"
proof -
  obtain m0 where m0: "dList_init m (Some idle_head) = Inr m0" "ring m0 idle_head []" "dom m0 = dom m"
    using ring_init_spec [of m, OF assms(1)] by blast
  have "idle_ok (idle_known m0) evs {}" using assms(2) idle_known_dom [OF m0(3)] by simp
  from idle.run_front [OF m0(2) this assms(3)] show ?thesis
    using m0(1) idle.holds_distinct by blast
qed

definition demo_conns :: dmem where
  "demo_conns = (\<lambda>a. if a < 4 then Some \<lparr>d_prev = None, d_next = None\<rparr> else None)"

theorem idle_list_sorted_witness:
  "\<exists>m0 m'. dList_init demo_conns (Some idle_head) = Inr m0 \<and>
    idle_run idle_open idle_touch idle_close
      [(Opened 1, 10), (Opened 2, 20), (Active 1, 30), (Opened 3, 40), (Closed 2, 50)] m0 = Inr m' \<and>
    ring m' idle_head [1, 3] \<and> idle_first m' = Inr (Some 1)"
  using idle_list_sorted [of demo_conns
      "[(Opened 1, 10), (Opened 2, 20), (Active 1, 30), (Opened 3, 40), (Closed 2, 50)]"]
  by (simp add: demo_conns_def idle_known_def idle_head_def)

end
