(* ===== verification/AVL_Tree.thy ===== *)
theory AVL_Tree
  imports Prelude "HOL-Library.Tree"
begin

text \<open>
  \<open>AVL.cpp\<close>: an intrusive AVL tree with parent pointers, on nodes in a store.  Loops and
  recursions that follow pointers are given fuel: \<open>Hang\<close> is the result of a run that has not
  ended when it is used up.
\<close>

section \<open>Data\<close>

record AVLNode =
  a_depth :: u32
  a_count :: u32
  a_left :: ptr
  a_right :: ptr
  a_parent :: ptr

type_synonym amem = "AVLNode store"

definition avl_node :: AVLNode where
  "avl_node = \<lparr>a_depth = 1, a_count = 1, a_left = None, a_right = None, a_parent = None\<rparr>"

section \<open>Operations\<close>

definition avl_init :: "amem \<Rightarrow> ptr \<Rightarrow> amem res" where
  "avl_init m node = update m node (\<lambda>_. avl_node)"

definition avl_depth :: "amem \<Rightarrow> ptr \<Rightarrow> u32 res" where
  "avl_depth m node = (case node of None \<Rightarrow> Inr 0
     | Some _ \<Rightarrow> bindr (load m node) (\<lambda>n. Inr (a_depth n)))"

definition avl_count :: "amem \<Rightarrow> ptr \<Rightarrow> u32 res" where
  "avl_count m node = (case node of None \<Rightarrow> Inr 0
     | Some _ \<Rightarrow> bindr (load m node) (\<lambda>n. Inr (a_count n)))"

definition avl_update :: "amem \<Rightarrow> ptr \<Rightarrow> amem res" where
  "avl_update m node =
     bindr (load m node) (\<lambda>n.
     bindr (avl_depth m (a_left n)) (\<lambda>dl.
     bindr (avl_depth m (a_right n)) (\<lambda>dr.
     bindr (avl_count m (a_left n)) (\<lambda>cl.
     bindr (avl_count m (a_right n)) (\<lambda>cr.
     update m node (\<lambda>n. n\<lparr>a_depth := 1 + max dl dr, a_count := 1 + cl + cr\<rparr>))))))"

text \<open>\<open>if (p) p->parent = q\<close>.\<close>

definition set_parent :: "amem \<Rightarrow> ptr \<Rightarrow> ptr \<Rightarrow> amem res" where
  "set_parent m p q = (case p of None \<Rightarrow> Inr m | Some _ \<Rightarrow> update m p (\<lambda>n. n\<lparr>a_parent := q\<rparr>))"

definition rot_left :: "amem \<Rightarrow> ptr \<Rightarrow> (amem \<times> ptr) res" where
  "rot_left m node =
     bindr (load m node) (\<lambda>n.
     let new_node = a_right n in
     bindr (load m new_node) (\<lambda>k.
     bindr (set_parent m (a_left k) node) (\<lambda>m1.
     bindr (update m1 node (\<lambda>n. n\<lparr>a_right := a_left k\<rparr>)) (\<lambda>m2.
     bindr (update m2 new_node (\<lambda>k. k\<lparr>a_left := node\<rparr>)) (\<lambda>m3.
     bindr (load m3 node) (\<lambda>n3.
     bindr (update m3 new_node (\<lambda>k. k\<lparr>a_parent := a_parent n3\<rparr>)) (\<lambda>m4.
     bindr (update m4 node (\<lambda>n. n\<lparr>a_parent := new_node\<rparr>)) (\<lambda>m5.
     bindr (avl_update m5 node) (\<lambda>m6.
     bindr (avl_update m6 new_node) (\<lambda>m7.
     Inr (m7, new_node)))))))))))"

definition rot_right :: "amem \<Rightarrow> ptr \<Rightarrow> (amem \<times> ptr) res" where
  "rot_right m node =
     bindr (load m node) (\<lambda>n.
     let new_node = a_left n in
     bindr (load m new_node) (\<lambda>k.
     bindr (set_parent m (a_right k) node) (\<lambda>m1.
     bindr (update m1 node (\<lambda>n. n\<lparr>a_left := a_right k\<rparr>)) (\<lambda>m2.
     bindr (update m2 new_node (\<lambda>k. k\<lparr>a_right := node\<rparr>)) (\<lambda>m3.
     bindr (load m3 node) (\<lambda>n3.
     bindr (update m3 new_node (\<lambda>k. k\<lparr>a_parent := a_parent n3\<rparr>)) (\<lambda>m4.
     bindr (update m4 node (\<lambda>n. n\<lparr>a_parent := new_node\<rparr>)) (\<lambda>m5.
     bindr (avl_update m5 node) (\<lambda>m6.
     bindr (avl_update m6 new_node) (\<lambda>m7.
     Inr (m7, new_node)))))))))))"

definition avl_fix_left :: "amem \<Rightarrow> ptr \<Rightarrow> (amem \<times> ptr) res" where
  "avl_fix_left m root =
     bindr (load m root) (\<lambda>r.
     bindr (load m (a_left r)) (\<lambda>k.
     bindr (avl_depth m (a_left k)) (\<lambda>dl.
     bindr (avl_depth m (a_right k)) (\<lambda>dr.
     bindr (if dl < dr
            then bindr (rot_left m (a_left r)) (\<lambda>(m1, new). update m1 root (\<lambda>r. r\<lparr>a_left := new\<rparr>))
            else Inr m) (\<lambda>m1.
     rot_right m1 root)))))"

definition avl_fix_right :: "amem \<Rightarrow> ptr \<Rightarrow> (amem \<times> ptr) res" where
  "avl_fix_right m root =
     bindr (load m root) (\<lambda>r.
     bindr (load m (a_right r)) (\<lambda>k.
     bindr (avl_depth m (a_right k)) (\<lambda>dr.
     bindr (avl_depth m (a_left k)) (\<lambda>dl.
     bindr (if dr < dl
            then bindr (rot_right m (a_right r)) (\<lambda>(m1, new). update m1 root (\<lambda>r. r\<lparr>a_right := new\<rparr>))
            else Inr m) (\<lambda>m1.
     rot_left m1 root)))))"

text \<open>
  The loop climbs by the \<open>parent\<close> of the node a rotation has put in place; the child pointer of
  that parent still leads to the node rotated away.
\<close>

fun avl_fix :: "nat \<Rightarrow> amem \<Rightarrow> ptr \<Rightarrow> (amem \<times> ptr) res" where
  "avl_fix 0 m node = Inl Hang"
| "avl_fix (Suc fuel) m node =
     bindr (avl_update m node) (\<lambda>m1.
     bindr (load m1 node) (\<lambda>n.
     bindr (avl_depth m1 (a_left n)) (\<lambda>l.
     bindr (avl_depth m1 (a_right n)) (\<lambda>r.
     let parent = a_parent n in
     bindr (if l = r + 2 then avl_fix_left m1 node
            else if l + 2 = r then avl_fix_right m1 node
            else Inr (m1, node)) (\<lambda>(m2, node2).
     if parent = None then Inr (m2, node2)
     else bindr (load m2 node2) (\<lambda>n2. avl_fix fuel m2 (a_parent n2)))))))"

text \<open>The \<open>while (victim->left)\<close> loop of \<open>avl_del\<close>.\<close>

fun leftmost :: "nat \<Rightarrow> amem \<Rightarrow> ptr \<Rightarrow> ptr res" where
  "leftmost 0 m victim = Inl Hang"
| "leftmost (Suc fuel) m victim =
     bindr (load m victim) (\<lambda>v. if a_left v = None then Inr victim else leftmost fuel m (a_left v))"

text \<open>\<open>(parent->left == node ? parent->left : parent->right) = new\<close>.\<close>

definition replace_child :: "amem \<Rightarrow> ptr \<Rightarrow> ptr \<Rightarrow> ptr \<Rightarrow> amem res" where
  "replace_child m parent node new =
     update m parent (\<lambda>p. if a_left p = node then p\<lparr>a_left := new\<rparr> else p\<lparr>a_right := new\<rparr>)"

fun avl_del :: "nat \<Rightarrow> amem \<Rightarrow> ptr \<Rightarrow> (amem \<times> ptr) res" where
  "avl_del 0 m node = Inl Hang"
| "avl_del (Suc fuel) m node =
     bindr (load m node) (\<lambda>n.
     if a_right n = None then
       bindr (set_parent m (a_left n) (a_parent n)) (\<lambda>m1.
       if a_parent n \<noteq> None then
         bindr (replace_child m1 (a_parent n) node (a_left n)) (\<lambda>m2.
         avl_fix fuel m2 (a_parent n))
       else Inr (m1, a_left n))
     else
       bindr (leftmost fuel m (a_right n)) (\<lambda>victim.
       bindr (avl_del fuel m victim) (\<lambda>(m1, root).
       bindr (load m1 node) (\<lambda>n1.
       bindr (update m1 victim (\<lambda>_. n1)) (\<lambda>m2.
       bindr (set_parent m2 (a_left n1) victim) (\<lambda>m3.
       bindr (set_parent m3 (a_right n1) victim) (\<lambda>m4.
       bindr (load m4 node) (\<lambda>n4.
       if a_parent n4 \<noteq> None
       then bindr (replace_child m4 (a_parent n4) node victim) (\<lambda>m5. Inr (m5, root))
       else Inr (m4, victim)))))))))"

section \<open>Trees in the store\<close>

text \<open>
  \<open>tree_at m p par t\<close>: from \<open>p\<close> hangs the tree \<open>t\<close> of addresses under the parent \<open>par\<close>, with right
  depths and counts.
\<close>

fun tree_at :: "amem \<Rightarrow> ptr \<Rightarrow> ptr \<Rightarrow> addr tree \<Rightarrow> bool" where
  "tree_at m p par Leaf \<longleftrightarrow> p = None"
| "tree_at m p par (Node l a r) \<longleftrightarrow> p = Some a \<and>
     (\<exists>n. m a = Some n \<and> a_parent n = par \<and>
        a_depth n = of_nat (height (Node l a r)) \<and> a_count n = of_nat (size (Node l a r)) \<and>
        tree_at m (a_left n) (Some a) l \<and> tree_at m (a_right n) (Some a) r)"

text \<open>A node whose children are trees; its own depth and count may be stale.\<close>

definition node_at :: "amem \<Rightarrow> addr \<Rightarrow> ptr \<Rightarrow> addr tree \<Rightarrow> addr tree \<Rightarrow> bool" where
  "node_at m a par l r \<longleftrightarrow> (\<exists>n. m a = Some n \<and> a_parent n = par \<and>
     tree_at m (a_left n) (Some a) l \<and> tree_at m (a_right n) (Some a) r)"

definition root_ptr :: "addr tree \<Rightarrow> ptr" where
  "root_ptr t = (case t of Leaf \<Rightarrow> None | Node l a r \<Rightarrow> Some a)"

lemma root_ptr_simps [simp]: "root_ptr Leaf = None" "root_ptr (Node l a r) = Some a"
  by (simp_all add: root_ptr_def)

lemma tree_at_root: "tree_at m p par t \<Longrightarrow> p = root_ptr t"
  by (cases t) auto

lemma tree_at_cong:
  "\<forall>a \<in> set_tree t. m' a = m a \<Longrightarrow> tree_at m' p par t = tree_at m p par t"
  by (induction t arbitrary: p par) auto

lemma tree_at_off:
  "tree_at m p par t \<Longrightarrow> (\<And>c. c \<notin> X \<Longrightarrow> m' c = m c) \<Longrightarrow> set_tree t \<inter> X = {} \<Longrightarrow> tree_at m' p par t"
  by (subst tree_at_cong [of t m' m]) blast+

lemma avl_depth_at: "tree_at m p par t \<Longrightarrow> avl_depth m p = Inr (of_nat (height t))"
  by (cases t) (auto simp: avl_depth_def load_Some)

lemma avl_count_at: "tree_at m p par t \<Longrightarrow> avl_count m p = Inr (of_nat (size t))"
  by (cases t) (auto simp: avl_count_def load_Some)

lemma set_parent_at:
  assumes "tree_at m p par t" and "distinct (inorder t)"
  obtains m' where "set_parent m p q = Inr m'" and "tree_at m' p q t"
    and "\<forall>b. Some b \<noteq> p \<longrightarrow> m' b = m b"
proof (cases t)
  case Leaf
  then show ?thesis using assms that [of m] by (simp add: set_parent_def)
next
  case (Node l a r)
  with assms(1) obtain n where n: "p = Some a" "m a = Some n"
      "a_depth n = of_nat (height t)" "a_count n = of_nat (size t)"
      "tree_at m (a_left n) (Some a) l" "tree_at m (a_right n) (Some a) r"
    by auto
  let ?m = "m(a \<mapsto> n\<lparr>a_parent := q\<rparr>)"
  have "a \<notin> set_tree l" "a \<notin> set_tree r" using assms(2) Node by simp_all
  then have "tree_at ?m (a_left n) (Some a) l" "tree_at ?m (a_right n) (Some a) r"
    using n(5,6) tree_at_cong [of l ?m m] tree_at_cong [of r ?m m] by auto
  then have "tree_at ?m p q t" using n Node by simp
  moreover have "set_parent m p q = Inr ?m" using n by (simp add: set_parent_def update_Some)
  ultimately show ?thesis using that [of ?m] n(1) by simp
qed

lemma of_nat_max_u32:
  "x < 2 ^ 32 \<Longrightarrow> y < 2 ^ 32 \<Longrightarrow> max (of_nat x :: u32) (of_nat y) = of_nat (max x y)"
  by (simp add: max_def word_le_nat_alt unat_of_nat take_bit_nat_eq_self_iff)

lemma height_small: "size (t :: 'a tree) < 2 ^ 32 \<Longrightarrow> height t < (2 :: nat) ^ 32"
  using height_le_size_tree [of t] by (rule le_less_trans)

lemma avl_update_at:
  assumes "node_at m a par l r" and "a \<notin> set_tree l" "a \<notin> set_tree r"
    and "size l < 2 ^ 32" "size r < 2 ^ 32"
  obtains m' where "avl_update m (Some a) = Inr m'" and "tree_at m' (Some a) par (Node l a r)"
    and "\<forall>b. b \<noteq> a \<longrightarrow> m' b = m b"
proof -
  obtain n where n: "m a = Some n" "a_parent n = par" "tree_at m (a_left n) (Some a) l"
      "tree_at m (a_right n) (Some a) r"
    using assms(1) by (auto simp: node_at_def)
  let ?k = "n\<lparr>a_depth := 1 + max (of_nat (height l)) (of_nat (height r)),
      a_count := 1 + of_nat (size l) + of_nat (size r)\<rparr>"
  let ?m = "m(a \<mapsto> ?k)"
  have "avl_update m (Some a) = Inr ?m"
    using n avl_depth_at [OF n(3)] avl_depth_at [OF n(4)] avl_count_at [OF n(3)] avl_count_at [OF n(4)]
    by (simp add: avl_update_def load_Some update_Some)
  moreover have "tree_at ?m (a_left n) (Some a) l" "tree_at ?m (a_right n) (Some a) r"
    using n(3,4) assms(2,3) tree_at_cong [of l ?m m] tree_at_cong [of r ?m m] by auto
  moreover have "max (of_nat (height l) :: u32) (of_nat (height r)) = of_nat (max (height l) (height r))"
    using assms(4,5) by (intro of_nat_max_u32 height_small)
  ultimately show ?thesis using n(2) by (intro that [of ?m]) simp_all
qed

section \<open>Rotations\<close>

lemma rot_left_at:
  assumes a: "node_at m a par A (Node B b C)"
    and dist: "distinct (inorder A @ a # inorder B @ b # inorder C)"
    and small: "size A + size B + size C + 1 < 2 ^ 32"
  obtains m' where "rot_left m (Some a) = Inr (m', Some b)"
    and "tree_at m' (Some b) par (Node (Node A a B) b C)"
    and "\<forall>c. c \<notin> {a, b} \<union> set_tree B \<longrightarrow> m' c = m c"
proof -
  obtain n k where n: "m a = Some n" "a_parent n = par" "tree_at m (a_left n) (Some a) A"
      "a_right n = Some b"
    and k: "m b = Some k" "tree_at m (a_left k) (Some b) B" "tree_at m (a_right k) (Some b) C"
    using a by (auto simp: node_at_def)
  have ne: "a \<noteq> b" "a \<notin> set_tree A \<union> set_tree B \<union> set_tree C" "b \<notin> set_tree A \<union> set_tree B \<union> set_tree C"
      "set_tree A \<inter> set_tree B = {}" "set_tree C \<inter> set_tree B = {}" "distinct (inorder B)"
    using dist by auto
  obtain m1 where m1: "set_parent m (a_left k) (Some a) = Inr m1" "tree_at m1 (a_left k) (Some a) B"
      "\<forall>c. Some c \<noteq> a_left k \<longrightarrow> m1 c = m c"
    using set_parent_at [OF k(2) ne(6)] by blast
  have keep: "m1 c = m c" if "c \<notin> set_tree B" for c
    using m1(3) that tree_at_root [OF k(2)] by (cases B) auto
  have m1ab: "m1 a = Some n" "m1 b = Some k" using keep [of a] keep [of b] ne n(1) k(1) by auto
  define m5 where "m5 = m1(a \<mapsto> n\<lparr>a_right := a_left k, a_parent := Some b\<rparr>,
      b \<mapsto> k\<lparr>a_left := Some a, a_parent := par\<rparr>)"
  have m5: "m5 c = m1 c" if "c \<noteq> a" "c \<noteq> b" for c using that by (simp add: m5_def)
  have "tree_at m5 (a_left n) (Some a) A"
    using ne m5 keep by (intro tree_at_off [OF n(3), of "{a, b} \<union> set_tree B"]) auto
  moreover have "tree_at m5 (a_left k) (Some a) B"
    using ne m5 by (intro tree_at_off [OF m1(2), of "{a, b}"]) auto
  ultimately have "node_at m5 a (Some b) A B" using ne(1) by (simp add: node_at_def m5_def)
  then obtain m6 where m6: "avl_update m5 (Some a) = Inr m6" "tree_at m6 (Some a) (Some b) (Node A a B)"
      "\<forall>c. c \<noteq> a \<longrightarrow> m6 c = m5 c"
    using ne small by (elim avl_update_at) auto
  have "tree_at m6 (a_right k) (Some b) C"
    using ne m5 keep m6(3) by (intro tree_at_off [OF k(3), of "{a, b} \<union> set_tree B"]) auto
  then have "node_at m6 b par (Node A a B) C"
    using m6(2,3) ne(1) by (simp add: node_at_def m5_def)
  then obtain m7 where m7: "avl_update m6 (Some b) = Inr m7"
      "tree_at m7 (Some b) par (Node (Node A a B) b C)" "\<forall>c. c \<noteq> b \<longrightarrow> m7 c = m6 c"
    using ne small by (elim avl_update_at) auto
  define m2 where "m2 = m1(a \<mapsto> n\<lparr>a_right := a_left k\<rparr>)"
  define m3 where "m3 = m2(b \<mapsto> k\<lparr>a_left := Some a\<rparr>)"
  define m4 where "m4 = m3(b \<mapsto> k\<lparr>a_left := Some a, a_parent := par\<rparr>)"
  have u2: "update m1 (Some a) (\<lambda>n. n\<lparr>a_right := a_left k\<rparr>) = Inr m2"
    unfolding m2_def by (rule update_Some [of m1 a, OF m1ab(1)])
  have "m2 b = Some k" using m1ab(2) ne(1) by (simp add: m2_def)
  then have u3: "update m2 (Some b) (\<lambda>k. k\<lparr>a_left := Some a\<rparr>) = Inr m3"
    unfolding m3_def by (rule update_Some)
  have m3: "m3 a = Some (n\<lparr>a_right := a_left k\<rparr>)" "m3 b = Some (k\<lparr>a_left := Some a\<rparr>)"
    using ne(1) by (simp_all add: m3_def m2_def)
  have u4: "update m3 (Some b) (\<lambda>k. k\<lparr>a_parent := par\<rparr>) = Inr m4"
    using update_Some [of m3 b, OF m3(2)] by (simp add: m4_def)
  have "m4 a = Some (n\<lparr>a_right := a_left k\<rparr>)" using m3(1) ne(1) by (simp add: m4_def)
  from update_Some [of m4 a, OF this]
  have u5: "update m4 (Some a) (\<lambda>n. n\<lparr>a_parent := Some b\<rparr>) = Inr m5"
    using ne(1) by (simp add: m5_def m4_def m3_def m2_def fun_upd_twist)
  have "rot_left m (Some a) = Inr (m7, Some b)"
    by (simp add: rot_left_def load_Some [of m a, OF n(1)] n(2,4) load_Some [of m b, OF k(1)] m1(1) u2 u3
        load_Some [of m3 a, OF m3(1)] u4 u5 m6(1) m7(1) Let_def)
  moreover have "\<forall>c. c \<notin> {a, b} \<union> set_tree B \<longrightarrow> m7 c = m c"
    using m7(3) m6(3) m5 keep by simp
  ultimately show ?thesis using that m7(2) by blast
qed

lemma rot_right_at:
  assumes a: "node_at m a par (Node A b B) C"
    and dist: "distinct (inorder A @ b # inorder B @ a # inorder C)"
    and small: "size A + size B + size C + 1 < 2 ^ 32"
  obtains m' where "rot_right m (Some a) = Inr (m', Some b)"
    and "tree_at m' (Some b) par (Node A b (Node B a C))"
    and "\<forall>c. c \<notin> {a, b} \<union> set_tree B \<longrightarrow> m' c = m c"
proof -
  obtain n k where n: "m a = Some n" "a_parent n = par" "tree_at m (a_right n) (Some a) C"
      "a_left n = Some b"
    and k: "m b = Some k" "tree_at m (a_left k) (Some b) A" "tree_at m (a_right k) (Some b) B"
    using a by (auto simp: node_at_def)
  have ne: "a \<noteq> b" "a \<notin> set_tree A \<union> set_tree B \<union> set_tree C" "b \<notin> set_tree A \<union> set_tree B \<union> set_tree C"
      "set_tree A \<inter> set_tree B = {}" "set_tree C \<inter> set_tree B = {}" "distinct (inorder B)"
    using dist by auto
  obtain m1 where m1: "set_parent m (a_right k) (Some a) = Inr m1" "tree_at m1 (a_right k) (Some a) B"
      "\<forall>c. Some c \<noteq> a_right k \<longrightarrow> m1 c = m c"
    using set_parent_at [OF k(3) ne(6)] by blast
  have keep: "m1 c = m c" if "c \<notin> set_tree B" for c
    using m1(3) that tree_at_root [OF k(3)] by (cases B) auto
  have m1ab: "m1 a = Some n" "m1 b = Some k" using keep [of a] keep [of b] ne n(1) k(1) by auto
  define m5 where "m5 = m1(a \<mapsto> n\<lparr>a_left := a_right k, a_parent := Some b\<rparr>,
      b \<mapsto> k\<lparr>a_right := Some a, a_parent := par\<rparr>)"
  have m5: "m5 c = m1 c" if "c \<noteq> a" "c \<noteq> b" for c using that by (simp add: m5_def)
  have "tree_at m5 (a_right n) (Some a) C"
    using ne m5 keep by (intro tree_at_off [OF n(3), of "{a, b} \<union> set_tree B"]) auto
  moreover have "tree_at m5 (a_right k) (Some a) B"
    using ne m5 by (intro tree_at_off [OF m1(2), of "{a, b}"]) auto
  ultimately have "node_at m5 a (Some b) B C" using ne(1) by (simp add: node_at_def m5_def)
  then obtain m6 where m6: "avl_update m5 (Some a) = Inr m6" "tree_at m6 (Some a) (Some b) (Node B a C)"
      "\<forall>c. c \<noteq> a \<longrightarrow> m6 c = m5 c"
    using ne small by (elim avl_update_at) auto
  have "tree_at m6 (a_left k) (Some b) A"
    using ne m5 keep m6(3) by (intro tree_at_off [OF k(2), of "{a, b} \<union> set_tree B"]) auto
  then have "node_at m6 b par A (Node B a C)"
    using m6(2,3) ne(1) by (simp add: node_at_def m5_def)
  then obtain m7 where m7: "avl_update m6 (Some b) = Inr m7"
      "tree_at m7 (Some b) par (Node A b (Node B a C))" "\<forall>c. c \<noteq> b \<longrightarrow> m7 c = m6 c"
    using ne small by (elim avl_update_at) auto
  define m2 where "m2 = m1(a \<mapsto> n\<lparr>a_left := a_right k\<rparr>)"
  define m3 where "m3 = m2(b \<mapsto> k\<lparr>a_right := Some a\<rparr>)"
  define m4 where "m4 = m3(b \<mapsto> k\<lparr>a_right := Some a, a_parent := par\<rparr>)"
  have u2: "update m1 (Some a) (\<lambda>n. n\<lparr>a_left := a_right k\<rparr>) = Inr m2"
    unfolding m2_def by (rule update_Some [of m1 a, OF m1ab(1)])
  have "m2 b = Some k" using m1ab(2) ne(1) by (simp add: m2_def)
  then have u3: "update m2 (Some b) (\<lambda>k. k\<lparr>a_right := Some a\<rparr>) = Inr m3"
    unfolding m3_def by (rule update_Some)
  have m3: "m3 a = Some (n\<lparr>a_left := a_right k\<rparr>)" "m3 b = Some (k\<lparr>a_right := Some a\<rparr>)"
    using ne(1) by (simp_all add: m3_def m2_def)
  have u4: "update m3 (Some b) (\<lambda>k. k\<lparr>a_parent := par\<rparr>) = Inr m4"
    using update_Some [of m3 b, OF m3(2)] by (simp add: m4_def)
  have "m4 a = Some (n\<lparr>a_left := a_right k\<rparr>)" using m3(1) ne(1) by (simp add: m4_def)
  from update_Some [of m4 a, OF this]
  have u5: "update m4 (Some a) (\<lambda>n. n\<lparr>a_parent := Some b\<rparr>) = Inr m5"
    using ne(1) by (simp add: m5_def m4_def m3_def m2_def fun_upd_twist)
  have "rot_right m (Some a) = Inr (m7, Some b)"
    by (simp add: rot_right_def load_Some [of m a, OF n(1)] n(2,4) load_Some [of m b, OF k(1)] m1(1) u2 u3
        load_Some [of m3 a, OF m3(1)] u4 u5 m6(1) m7(1) Let_def)
  moreover have "\<forall>c. c \<notin> {a, b} \<union> set_tree B \<longrightarrow> m7 c = m c"
    using m7(3) m6(3) m5 keep by simp
  ultimately show ?thesis using that m7(2) by blast
qed

section \<open>Rebalancing one node\<close>

fun avl :: "'a tree \<Rightarrow> bool" where
  "avl Leaf \<longleftrightarrow> True"
| "avl (Node l a r) \<longleftrightarrow> avl l \<and> avl r \<and> height l \<le> height r + 1 \<and> height r \<le> height l + 1"

lemma u32_of_nat_less: "x < 2 ^ 32 \<Longrightarrow> y < 2 ^ 32 \<Longrightarrow> (of_nat x :: u32) < of_nat y \<longleftrightarrow> x < y"
  by (simp add: word_less_nat_alt unat_of_nat take_bit_nat_eq_self_iff)

lemma u32_of_nat_eq: "x < 2 ^ 32 \<Longrightarrow> y < 2 ^ 32 \<Longrightarrow> (of_nat x :: u32) = of_nat y \<longleftrightarrow> x = y"
  by (simp add: word_unat_eq_iff unat_of_nat take_bit_nat_eq_self_iff)

text \<open>The outcome of balancing: a balanced tree with the same nodes in the same order.\<close>

definition balanced_to :: "amem \<Rightarrow> ptr \<Rightarrow> addr tree \<Rightarrow> amem \<Rightarrow> ptr \<Rightarrow> addr tree \<Rightarrow> bool" where
  "balanced_to m par t m' p t' \<longleftrightarrow> tree_at m' p par t' \<and> p \<noteq> None \<and> inorder t' = inorder t \<and> avl t' \<and>
     (\<forall>c. c \<notin> set_tree t \<longrightarrow> m' c = m c)"

lemma tree_node_at: "tree_at m (Some a) par (Node l a r) \<Longrightarrow> node_at m a par l r"
  by (auto simp: node_at_def)

lemma avl_fix_left_at:
  assumes t: "tree_at m (Some a) par (Node L a R)" and h: "height L = height R + 2"
    and avl: "avl L" "avl R" and dist: "distinct (inorder (Node L a R))"
    and small: "size (Node L a R) < 2 ^ 31"
  obtains m' p t' where "avl_fix_left m (Some a) = Inr (m', p)"
    and "balanced_to m par (Node L a R) m' p t'"
proof -
  obtain LL b LR where L: "L = Node LL b LR" using h by (cases L) auto
  obtain n where n: "m a = Some n" "a_parent n = par" "a_left n = Some b" "tree_at m (Some b) (Some a) L"
      "tree_at m (a_right n) (Some a) R"
    using t L by auto
  obtain k where k: "m b = Some k" "tree_at m (a_left k) (Some b) LL" "tree_at m (a_right k) (Some b) LR"
    using n(4) L by auto
  have hs: "height LL < 2 ^ 32" "height LR < 2 ^ 32"
    using small L height_le_size_tree [of LL] height_le_size_tree [of LR] by auto
  have step: "avl_fix_left m (Some a) = bindr (if height LL < height LR
      then bindr (rot_left m (Some b)) (\<lambda>(m1, new). update m1 (Some a) (\<lambda>r. r\<lparr>a_left := new\<rparr>))
      else Inr m) (\<lambda>m1. rot_right m1 (Some a))"
    using load_Some [of m a, OF n(1)] load_Some [of m b, OF k(1)] n(3) avl_depth_at [OF k(2)]
      avl_depth_at [OF k(3)] u32_of_nat_less [OF hs] by (simp add: avl_fix_left_def)
  show ?thesis
  proof (cases "height LL < height LR")
    case False
    have "node_at m a par (Node LL b LR) R" using tree_node_at [OF t] L by simp
    then obtain m' where m': "rot_right m (Some a) = Inr (m', Some b)"
        "tree_at m' (Some b) par (Node LL b (Node LR a R))"
        "\<forall>c. c \<notin> {a, b} \<union> set_tree LR \<longrightarrow> m' c = m c"
      using dist small L by (elim rot_right_at) auto
    have "avl (Node LL b (Node LR a R))" using False h avl L by auto
    then have "balanced_to m par (Node L a R) m' (Some b) (Node LL b (Node LR a R))"
      using m'(2,3) L by (simp add: balanced_to_def)
    then show ?thesis using that False step m'(1) by simp
  next
    case True
    then obtain B c C where LR: "LR = Node B c C" by (cases LR) auto
    have "node_at m b (Some a) LL (Node B c C)" using tree_node_at n(4) L LR by simp
    then obtain m1 where m1: "rot_left m (Some b) = Inr (m1, Some c)"
        "tree_at m1 (Some c) (Some a) (Node (Node LL b B) c C)"
        "\<forall>d. d \<notin> {b, c} \<union> set_tree B \<longrightarrow> m1 d = m d"
      using dist small L LR by (elim rot_left_at) auto
    let ?m2 = "m1(a \<mapsto> n\<lparr>a_left := Some c\<rparr>)"
    have a1: "m1 a = Some n" using m1(3) n(1) dist L LR by auto
    then have u: "update m1 (Some a) (\<lambda>r. r\<lparr>a_left := Some c\<rparr>) = Inr ?m2"
      by (rule update_Some [of m1 a])
    have "tree_at ?m2 (Some c) (Some a) (Node (Node LL b B) c C)"
      using dist L LR by (intro tree_at_off [OF m1(2), of "{a}"]) auto
    moreover have "tree_at ?m2 (a_right n) (Some a) R"
      using dist L LR m1(3) by (intro tree_at_off [OF n(5), of "{a, b, c} \<union> set_tree B"]) auto
    ultimately have "node_at ?m2 a par (Node (Node LL b B) c C) R"
      using n(2) by (simp add: node_at_def)
    then obtain m' where m': "rot_right ?m2 (Some a) = Inr (m', Some c)"
        "tree_at m' (Some c) par (Node (Node LL b B) c (Node C a R))"
        "\<forall>d. d \<notin> {a, c} \<union> set_tree C \<longrightarrow> m' d = ?m2 d"
      using dist small L LR by (elim rot_right_at) auto
    have "avl (Node (Node LL b B) c (Node C a R))" using True h avl L LR by auto
    moreover have "\<forall>d. d \<notin> set_tree (Node L a R) \<longrightarrow> m' d = m d"
      using m'(3) m1(3) L LR by simp
    ultimately have "balanced_to m par (Node L a R) m' (Some c) (Node (Node LL b B) c (Node C a R))"
      using m'(2) L LR by (simp add: balanced_to_def)
    then show ?thesis using that True step m1(1) u m'(1) by simp
  qed
qed

lemma avl_fix_right_at:
  assumes t: "tree_at m (Some a) par (Node L a R)" and h: "height R = height L + 2"
    and avl: "avl L" "avl R" and dist: "distinct (inorder (Node L a R))"
    and small: "size (Node L a R) < 2 ^ 31"
  obtains m' p t' where "avl_fix_right m (Some a) = Inr (m', p)"
    and "balanced_to m par (Node L a R) m' p t'"
proof -
  obtain RL b RR where R: "R = Node RL b RR" using h by (cases R) auto
  obtain n where n: "m a = Some n" "a_parent n = par" "a_right n = Some b" "tree_at m (Some b) (Some a) R"
      "tree_at m (a_left n) (Some a) L"
    using t R by auto
  obtain k where k: "m b = Some k" "tree_at m (a_left k) (Some b) RL" "tree_at m (a_right k) (Some b) RR"
    using n(4) R by auto
  have hs: "height RR < 2 ^ 32" "height RL < 2 ^ 32"
    using small R height_le_size_tree [of RL] height_le_size_tree [of RR] by auto
  have step: "avl_fix_right m (Some a) = bindr (if height RR < height RL
      then bindr (rot_right m (Some b)) (\<lambda>(m1, new). update m1 (Some a) (\<lambda>r. r\<lparr>a_right := new\<rparr>))
      else Inr m) (\<lambda>m1. rot_left m1 (Some a))"
    using load_Some [of m a, OF n(1)] load_Some [of m b, OF k(1)] n(3) avl_depth_at [OF k(2)]
      avl_depth_at [OF k(3)] u32_of_nat_less [OF hs] by (simp add: avl_fix_right_def)
  show ?thesis
  proof (cases "height RR < height RL")
    case False
    have "node_at m a par L (Node RL b RR)" using tree_node_at [OF t] R by simp
    then obtain m' where m': "rot_left m (Some a) = Inr (m', Some b)"
        "tree_at m' (Some b) par (Node (Node L a RL) b RR)"
        "\<forall>c. c \<notin> {a, b} \<union> set_tree RL \<longrightarrow> m' c = m c"
      using dist small R by (elim rot_left_at) auto
    have "avl (Node (Node L a RL) b RR)" using False h avl R by auto
    then have "balanced_to m par (Node L a R) m' (Some b) (Node (Node L a RL) b RR)"
      using m'(2,3) R by (simp add: balanced_to_def)
    then show ?thesis using that False step m'(1) by simp
  next
    case True
    then obtain B c C where RL: "RL = Node B c C" by (cases RL) auto
    have "node_at m b (Some a) (Node B c C) RR" using tree_node_at n(4) R RL by simp
    then obtain m1 where m1: "rot_right m (Some b) = Inr (m1, Some c)"
        "tree_at m1 (Some c) (Some a) (Node B c (Node C b RR))"
        "\<forall>d. d \<notin> {b, c} \<union> set_tree C \<longrightarrow> m1 d = m d"
      using dist small R RL by (elim rot_right_at) auto
    let ?m2 = "m1(a \<mapsto> n\<lparr>a_right := Some c\<rparr>)"
    have a1: "m1 a = Some n" using m1(3) n(1) dist R RL by auto
    then have u: "update m1 (Some a) (\<lambda>r. r\<lparr>a_right := Some c\<rparr>) = Inr ?m2"
      by (rule update_Some [of m1 a])
    have "tree_at ?m2 (Some c) (Some a) (Node B c (Node C b RR))"
      using dist R RL by (intro tree_at_off [OF m1(2), of "{a}"]) auto
    moreover have "tree_at ?m2 (a_left n) (Some a) L"
      using dist R RL m1(3) by (intro tree_at_off [OF n(5), of "{a, b, c} \<union> set_tree C"]) auto
    ultimately have "node_at ?m2 a par L (Node B c (Node C b RR))"
      using n(2) by (simp add: node_at_def)
    then obtain m' where m': "rot_left ?m2 (Some a) = Inr (m', Some c)"
        "tree_at m' (Some c) par (Node (Node L a B) c (Node C b RR))"
        "\<forall>d. d \<notin> {a, c} \<union> set_tree B \<longrightarrow> m' d = ?m2 d"
      using dist small R RL by (elim rot_left_at) auto
    have "avl (Node (Node L a B) c (Node C b RR))" using True h avl R RL by auto
    moreover have "\<forall>d. d \<notin> set_tree (Node L a R) \<longrightarrow> m' d = m d"
      using m'(3) m1(3) R RL by simp
    ultimately have "balanced_to m par (Node L a R) m' (Some c) (Node (Node L a B) c (Node C b RR))"
      using m'(2) R RL by (simp add: balanced_to_def)
    then show ?thesis using that True step m1(1) u m'(1) by simp
  qed
qed


section \<open>The way up\<close>

text \<open>
  Where a subtree hangs: the ancestors from its parent to the root, each with the side it came from
  (\<open>True\<close>: it is the left child) and its other subtree.
\<close>

type_synonym ctx = "(bool \<times> addr \<times> addr tree) list"

definition fill :: "bool \<times> addr \<times> addr tree \<Rightarrow> addr tree \<Rightarrow> addr tree" where
  "fill f t = (case f of (d, p, s) \<Rightarrow> if d then Node t p s else Node s p t)"

fun plug :: "addr tree \<Rightarrow> ctx \<Rightarrow> addr tree" where
  "plug t [] = t"
| "plug t (f # c) = plug (fill f t) c"

fun ctx_at :: "amem \<Rightarrow> ctx \<Rightarrow> addr \<Rightarrow> ptr \<Rightarrow> bool" where
  "ctx_at m [] a par \<longleftrightarrow> par = None"
| "ctx_at m ((d, p, s) # c) a par \<longleftrightarrow> par = Some p \<and>
     (\<exists>n. m p = Some n \<and>
        (if d then a_left n = Some a \<and> tree_at m (a_right n) (Some p) s
         else a_right n = Some a \<and> tree_at m (a_left n) (Some p) s) \<and>
        ctx_at m c p (a_parent n))"

definition ctx_set :: "ctx \<Rightarrow> addr set" where
  "ctx_set c = (\<Union>(d, p, s) \<in> set c. insert p (set_tree s))"

lemma ctx_set_simps [simp]:
  "ctx_set [] = {}" "ctx_set ((d, p, s) # c) = insert p (set_tree s) \<union> ctx_set c"
  by (simp_all add: ctx_set_def)

lemma set_fill [simp]: "set_tree (fill (d, p, s) t) = insert p (set_tree s \<union> set_tree t)"
  by (auto simp: fill_def)

lemma ctx_at_off:
  "ctx_at m c a par \<Longrightarrow> (\<And>b. b \<notin> X \<Longrightarrow> m' b = m b) \<Longrightarrow> ctx_set c \<inter> X = {} \<Longrightarrow> ctx_at m' c a par"
proof (induction c arbitrary: a par)
  case (Cons f c)
  obtain d p s where f: "f = (d, p, s)" by (cases f)
  then have p: "m' p = m p" "set_tree s \<inter> X = {}" "ctx_set c \<inter> X = {}"
    using Cons.prems(2,3) by auto
  obtain n where n: "par = Some p" "m p = Some n" "ctx_at m c p (a_parent n)"
      "if d then a_left n = Some a \<and> tree_at m (a_right n) (Some p) s
       else a_right n = Some a \<and> tree_at m (a_left n) (Some p) s"
    using Cons.prems(1) f by auto
  have "tree_at m' q r s" if "tree_at m q r s" for q r
    using tree_at_off [OF that, of X m'] Cons.prems(2) p(2) by blast
  then show ?case using n p(1) f Cons.IH [OF n(3) Cons.prems(2) p(3)] by auto
qed simp

lemma distinct_plug:
  "distinct (inorder (plug t c)) \<Longrightarrow> distinct (inorder t) \<and> set_tree t \<inter> ctx_set c = {}"
proof (induction c arbitrary: t)
  case (Cons f c)
  obtain d p s where f: "f = (d, p, s)" by (cases f)
  from Cons.IH [of "fill f t"] Cons.prems
  have "distinct (inorder (fill f t))" "set_tree (fill f t) \<inter> ctx_set c = {}" by simp_all
  then show ?case by (cases d) (auto simp: f fill_def)
qed simp

lemma size_plug: "size t \<le> size (plug t c)"
proof (induction c arbitrary: t)
  case (Cons f c)
  have "size t \<le> size (fill f t)" by (auto simp: fill_def split: prod.split)
  then show ?case using Cons [of "fill f t"] by simp
qed simp

text \<open>
  Every node on the way up is balanced, but for the root, which may be off by one rotation.
\<close>

definition bal2 :: "addr tree \<Rightarrow> bool" where
  "bal2 t \<longleftrightarrow> (case t of Leaf \<Rightarrow> False | Node l a r \<Rightarrow>
     avl l \<and> avl r \<and> height l \<le> height r + 2 \<and> height r \<le> height l + 2)"

fun path_ok :: "addr tree \<Rightarrow> ctx \<Rightarrow> bool" where
  "path_ok t [] \<longleftrightarrow> bal2 t"
| "path_ok t (f # c) \<longleftrightarrow> avl t \<and> path_ok (fill f t) c"

lemma avl_fix_node:
  assumes a: "node_at m a par l r" and dist: "distinct (inorder (Node l a r))"
    and small: "size (Node l a r) < 2 ^ 31"
  obtains m1 n where "avl_update m (Some a) = Inr m1" and "m1 a = Some n" and "a_parent n = par"
    and "tree_at m1 (Some a) par (Node l a r)" and "\<forall>b. b \<noteq> a \<longrightarrow> m1 b = m b"
    and "avl_depth m1 (a_left n) = Inr (of_nat (height l))"
    and "avl_depth m1 (a_right n) = Inr (of_nat (height r))"
    and "(of_nat (height l) :: u32) = of_nat (height r) + 2 \<longleftrightarrow> height l = height r + 2"
    and "(of_nat (height l) :: u32) + 2 = of_nat (height r) \<longleftrightarrow> height r = height l + 2"
proof -
  obtain m1 where m1: "avl_update m (Some a) = Inr m1" "tree_at m1 (Some a) par (Node l a r)"
      "\<forall>b. b \<noteq> a \<longrightarrow> m1 b = m b"
    by (rule avl_update_at [OF a]) (use dist small in auto)
  obtain n where n: "m1 a = Some n" "a_parent n = par" "tree_at m1 (a_left n) (Some a) l"
      "tree_at m1 (a_right n) (Some a) r"
    using m1(2) by auto
  have h: "height l + 2 < 2 ^ 32" "height r + 2 < 2 ^ 32"
    using small height_le_size_tree [of l] height_le_size_tree [of r] by simp_all
  have "(of_nat (height l) :: u32) = of_nat (height r + 2) \<longleftrightarrow> height l = height r + 2"
      "(of_nat (height l + 2) :: u32) = of_nat (height r) \<longleftrightarrow> height r = height l + 2"
    using h by (subst u32_of_nat_eq; auto)+
  then show ?thesis
    using that m1 n avl_depth_at [OF n(3)] avl_depth_at [OF n(4)] by (simp add: add.commute)
qed

lemma avl_fix_path:
  assumes "node_at m a par l r" and "ctx_at m c a par" and "path_ok (Node l a r) c"
    and "distinct (inorder (plug (Node l a r) c))" and "size (plug (Node l a r) c) < 2 ^ 31"
    and "length c < fuel"
  shows "\<exists>m' p t'. avl_fix fuel m (Some a) = Inr (m', p) \<and>
    balanced_to m None (plug (Node l a r) c) m' p t'"
  using assms
proof (induction c arbitrary: m a par l r fuel)
  case Nil
  obtain f where f: "fuel = Suc f" using Nil.prems(6) by (cases fuel) auto
  have small: "size (Node l a r) < 2 ^ 31" and dist: "distinct (inorder (Node l a r))"
    and par: "par = None" and bal: "avl l" "avl r" "height l \<le> height r + 2" "height r \<le> height l + 2"
    using Nil.prems by (auto simp: bal2_def)
  obtain m1 n where s: "avl_update m (Some a) = Inr m1" "m1 a = Some n" "a_parent n = par"
      "tree_at m1 (Some a) par (Node l a r)" "\<forall>b. b \<noteq> a \<longrightarrow> m1 b = m b"
      "avl_depth m1 (a_left n) = Inr (of_nat (height l))"
      "avl_depth m1 (a_right n) = Inr (of_nat (height r))"
      "(of_nat (height l) :: u32) = of_nat (height r) + 2 \<longleftrightarrow> height l = height r + 2"
      "(of_nat (height l) :: u32) + 2 = of_nat (height r) \<longleftrightarrow> height r = height l + 2"
    using avl_fix_node [OF Nil.prems(1) dist small] by metis
  have start: "balanced_to m par (Node l a r) m' p t'" if "balanced_to m1 par (Node l a r) m' p t'" for m' p t'
    using that s(5) by (simp add: balanced_to_def)
  consider "height l = height r + 2" | "height r = height l + 2"
    | "height l \<noteq> height r + 2" "height r \<noteq> height l + 2" by blast
  then show ?case
  proof cases
    case 1
    obtain m' p t' where "avl_fix_left m1 (Some a) = Inr (m', p)" "balanced_to m1 par (Node l a r) m' p t'"
      using avl_fix_left_at [OF s(4) 1 bal(1,2) dist small] by blast
    moreover from this have "balanced_to m None (Node l a r) m' p t'" using start par by simp
    ultimately show ?thesis using f s 1 par by (auto simp: load_Some Let_def)
  next
    case 2
    obtain m' p t' where "avl_fix_right m1 (Some a) = Inr (m', p)" "balanced_to m1 par (Node l a r) m' p t'"
      using avl_fix_right_at [OF s(4) 2 bal(1,2) dist small] by blast
    moreover from this have "balanced_to m None (Node l a r) m' p t'" using start par by simp
    moreover have "height l \<noteq> height r + 2" using 2 by simp
    ultimately show ?thesis using f s 2 par by (auto simp: load_Some Let_def)
  next
    case 3
    then have "balanced_to m1 par (Node l a r) m1 (Some a) (Node l a r)"
      using s(4) bal by (simp add: balanced_to_def)
    then have "balanced_to m None (Node l a r) m1 (Some a) (Node l a r)" using start par by simp
    then show ?thesis using f s 3 par by (auto simp: load_Some Let_def)
  qed
next
  case (Cons fr c)
  obtain d p s where fr: "fr = (d, p, s)" by (cases fr)
  obtain f where f: "fuel = Suc f" "length c < f" using Cons.prems(6) by (cases fuel) auto
  note dp = distinct_plug [OF Cons.prems(4)]
  have dist: "distinct (inorder (Node l a r))" and disj: "set_tree (Node l a r) \<inter> ctx_set (fr # c) = {}"
    using dp by blast+
  have "size (Node l a r) \<le> size (plug (Node l a r) (fr # c))" by (rule size_plug)
  then have small: "size (Node l a r) < 2 ^ 31" using Cons.prems(5) by linarith
  have bal: "avl (Node l a r)" "path_ok (fill fr (Node l a r)) c" using Cons.prems(3) by auto
  obtain k where k: "par = Some p" "m p = Some k" "ctx_at m c p (a_parent k)"
      "if d then a_left k = Some a \<and> tree_at m (a_right k) (Some p) s
       else a_right k = Some a \<and> tree_at m (a_left k) (Some p) s"
    using Cons.prems(2) fr by auto
  obtain m1 n where s: "avl_update m (Some a) = Inr m1" "m1 a = Some n" "a_parent n = par"
      "tree_at m1 (Some a) par (Node l a r)" "\<forall>b. b \<noteq> a \<longrightarrow> m1 b = m b"
      "avl_depth m1 (a_left n) = Inr (of_nat (height l))"
      "avl_depth m1 (a_right n) = Inr (of_nat (height r))"
      "(of_nat (height l) :: u32) = of_nat (height r) + 2 \<longleftrightarrow> height l = height r + 2"
      "(of_nat (height l) :: u32) + 2 = of_nat (height r) \<longleftrightarrow> height r = height l + 2"
    using avl_fix_node [OF Cons.prems(1) dist small] by metis
  have "height l \<noteq> height r + 2" "height r \<noteq> height l + 2" using bal(1) by auto
  then have step: "avl_fix fuel m (Some a) = avl_fix f m1 (Some p)"
    using s f k(1) by (simp add: load_Some Let_def)
  have "m1 p = Some k" using s(5) k(2) disj fr by auto
  moreover have "tree_at m1 q par' s" if "tree_at m q par' s" for q par'
    using s(5) disj fr by (intro tree_at_off [OF that, of "{a}"]) auto
  ultimately obtain l' r' where lr: "fill fr (Node l a r) = Node l' p r'" "node_at m1 p (a_parent k) l' r'"
    using k(4) s(4) k(1) by (cases d) (auto simp: node_at_def fill_def fr)
  have "ctx_at m1 c p (a_parent k)"
    using s(5) disj fr by (intro ctx_at_off [OF k(3), of "{a}"]) auto
  from Cons.IH [OF lr(2) this _ _ _ f(2)] obtain m' q t' where
      "avl_fix f m1 (Some p) = Inr (m', q)" "balanced_to m1 None (plug (Node l' p r') c) m' q t'"
    using bal(2) Cons.prems(4,5) lr(1) by auto
  moreover have "a \<in> set_tree (plug (Node l a r) (fr # c))"
  proof -
    have "set_tree t \<subseteq> set_tree (plug t c)" for t c
      by (induction c arbitrary: t) (auto 4 3 simp: subset_iff split: prod.splits)
    then show ?thesis by (metis in_mono tree.set_intros(2))
  qed
  ultimately have "balanced_to m None (plug (Node l a r) (fr # c)) m' q t'"
    using s(5) lr(1) by (auto simp: balanced_to_def)
  then show ?case using step \<open>avl_fix f m1 (Some p) = Inr (m', q)\<close> by auto
qed

section \<open>Unlinking a node without right child\<close>

lemma plug_split: "\<exists>xs ys. \<forall>t. inorder (plug t c) = xs @ inorder t @ ys"
proof (induction c)
  case Nil
  then show ?case by (intro exI [of _ "[]"]) simp
next
  case (Cons f c)
  obtain d p s where f: "f = (d, p, s)" by (cases f)
  obtain xs ys where "\<forall>t. inorder (plug t c) = xs @ inorder t @ ys" using Cons by blast
  then have "inorder (plug t (f # c)) = (if d then xs else xs @ inorder s @ [p]) @ inorder t @
      (if d then p # inorder s @ ys else ys)" for t
    by (simp add: f fill_def)
  then show ?case by blast
qed

lemma avl_del_no_right:
  assumes a: "tree_at m (Some a) par (Node l a Leaf)" and c: "ctx_at m ((d, p, s) # c) a par"
    and ok: "path_ok (fill (d, p, s) l) c"
    and dist: "distinct (inorder (plug (Node l a Leaf) ((d, p, s) # c)))"
    and small: "size (plug (Node l a Leaf) ((d, p, s) # c)) < 2 ^ 31" and fuel: "length c + 1 < fuel"
  obtains m' q t' where "avl_del fuel m (Some a) = Inr (m', q)"
    and "balanced_to m None (plug l ((d, p, s) # c)) m' q t'"
proof -
  obtain f where f: "fuel = Suc f" "length c < f" using fuel by (cases fuel) auto
  obtain n where n: "m a = Some n" "a_parent n = par" "tree_at m (a_left n) (Some a) l" "a_right n = None"
    using a by auto
  obtain k where k: "par = Some p" "m p = Some k" "ctx_at m c p (a_parent k)"
      "if d then a_left k = Some a \<and> tree_at m (a_right k) (Some p) s
       else a_right k = Some a \<and> tree_at m (a_left k) (Some p) s"
    using c by auto
  note dp = distinct_plug [OF dist]
  have distl: "distinct (inorder l)" and al: "a \<notin> set_tree l"
    and disj: "insert a (set_tree l) \<inter> (insert p (set_tree s) \<union> ctx_set c) = {}"
    using dp by auto
  have "set_tree (fill (d, p, s) (Node l a Leaf)) \<inter> ctx_set c = {}" "a \<notin> set_tree s" "p \<notin> set_tree s"
      "distinct (inorder s)"
    using dist distinct_plug [of "fill (d, p, s) (Node l a Leaf)" c] disj
    by (auto simp: fill_def split: if_splits)
  then have pc: "p \<notin> ctx_set c" "set_tree s \<inter> ctx_set c = {}" "p \<notin> set_tree s" by auto
  obtain m1 where m1: "set_parent m (a_left n) (Some p) = Inr m1" "tree_at m1 (a_left n) (Some p) l"
      "\<forall>b. Some b \<noteq> a_left n \<longrightarrow> m1 b = m b"
    using set_parent_at [OF n(3) distl] by blast
  have keep: "m1 b = m b" if "b \<notin> set_tree l" for b
    using m1(3) that tree_at_root [OF n(3)] by (cases l) auto
  let ?k = "if d then k\<lparr>a_left := a_left n\<rparr> else k\<lparr>a_right := a_left n\<rparr>"
  let ?m = "m1(p \<mapsto> ?k)"
  have side: "a_left k = Some a \<longleftrightarrow> d"
  proof (cases d)
    case False
    then have "a_left k = root_ptr s" using k(4) by (auto dest: tree_at_root)
    moreover have "a \<notin> set_tree s" by fact
    ultimately have "a_left k \<noteq> Some a" by (cases s) auto
    then show ?thesis using False by simp
  qed (use k(4) in simp)
  have p1: "m1 p = Some k" using keep [of p] k(2) disj by auto
  have rep: "replace_child m1 (Some p) (Some a) (a_left n) = Inr ?m"
    using update_Some [of m1 p, OF p1] side by (simp add: replace_child_def)
  have off: "?m b = m b" if "b \<notin> insert p (set_tree l)" for b using keep that by simp
  have tl: "tree_at ?m (a_left n) (Some p) l"
    using disj by (intro tree_at_off [OF m1(2), of "{p}"]) auto
  have ts: "tree_at ?m q r s" if "tree_at m q r s" for q r
    using disj pc(3) by (intro tree_at_off [OF that, of "insert p (set_tree l)"]) (use off in auto)
  obtain l' r' where lr: "fill (d, p, s) l = Node l' p r'" "node_at ?m p (a_parent k) l' r'"
    using k(4) tl ts by (cases d) (auto simp: node_at_def fill_def)
  have ctx: "ctx_at ?m c p (a_parent k)"
    using disj pc(1) by (intro ctx_at_off [OF k(3), of "insert p (set_tree l)"]) (use off in auto)
  obtain xs ys where io: "\<forall>t. inorder (plug t ((d, p, s) # c)) = xs @ inorder t @ ys"
    using plug_split by blast
  have sz: "size (plug t ((d, p, s) # c)) = length xs + size t + length ys" for t
    using arg_cong [OF io [rule_format, of t], of length] by (simp del: plug.simps)
  have small': "size (plug (Node l' p r') c) < 2 ^ 31"
    using small sz [of l] sz [of "Node l a Leaf"] lr(1) by simp
  have "distinct (xs @ inorder (Node l a Leaf) @ ys)" using dist io by metis
  then have "distinct (inorder (plug l ((d, p, s) # c)))" unfolding io [rule_format] by simp
  then have dist': "distinct (inorder (plug (Node l' p r') c))" using lr(1) by simp
  obtain m' q t' where F: "avl_fix f ?m (Some p) = Inr (m', q)"
      "balanced_to ?m None (plug (Node l' p r') c) m' q t'"
    using avl_fix_path [OF lr(2) ctx _ dist' small' f(2)] ok lr(1) by auto
  have "set_tree l \<union> {p} \<subseteq> set (inorder (plug l ((d, p, s) # c)))"
  proof -
    obtain us vs where "\<forall>t. inorder (plug t c) = us @ inorder t @ vs" using plug_split by blast
    then show ?thesis by (auto simp: fill_def)
  qed
  then have "balanced_to m None (plug l ((d, p, s) # c)) m' q t'"
    using F(2) lr(1) off by (auto simp: balanced_to_def)
  moreover have "avl_del fuel m (Some a) = Inr (m', q)"
    using f n(2,4) k(1) load_Some [of m a, OF n(1)] m1(1) rep F(1) by simp
  ultimately show ?thesis using that by blast
qed

section \<open>Properties\<close>

text \<open>
  A left rotation turns the subtree at a node into the rotated tree in the store, with right
  parent pointers, depths and counts everywhere in it, and a right rotation of the result
  restores the original; the order of the nodes never changes.
\<close>

theorem avl_rotations:
  assumes "tree_at m (Some a) par (Node A a (Node B b C))"
    and "distinct (inorder (Node A a (Node B b C)))" and "size (Node A a (Node B b C)) < 2 ^ 32"
  shows "\<exists>m1 m2. rot_left m (Some a) = Inr (m1, Some b) \<and>
    tree_at m1 (Some b) par (Node (Node A a B) b C) \<and>
    rot_right m1 (Some b) = Inr (m2, Some a) \<and> tree_at m2 (Some a) par (Node A a (Node B b C)) \<and>
    inorder (Node (Node A a B) b C) = inorder (Node A a (Node B b C))"
proof -
  obtain m1 where m1: "rot_left m (Some a) = Inr (m1, Some b)"
      "tree_at m1 (Some b) par (Node (Node A a B) b C)"
    by (rule rot_left_at [OF tree_node_at [OF assms(1)]]) (use assms in auto)
  moreover obtain m2 where "rot_right m1 (Some b) = Inr (m2, Some a)"
      "tree_at m2 (Some a) par (Node A a (Node B b C))"
    by (rule rot_right_at [OF tree_node_at [OF m1(2)]]) (use assms in auto)
  ultimately show ?thesis by simp
qed

text \<open>A tree of three nodes in a row, and one whose last node is new.\<close>

definition demo_row :: amem where
  "demo_row = [1 \<mapsto> \<lparr>a_depth = 3, a_count = 3, a_left = None, a_right = Some 2, a_parent = None\<rparr>,
     2 \<mapsto> \<lparr>a_depth = 2, a_count = 2, a_left = None, a_right = Some 3, a_parent = Some 1\<rparr>,
     3 \<mapsto> \<lparr>a_depth = 1, a_count = 1, a_left = None, a_right = None, a_parent = Some 2\<rparr>]"

lemma demo_row_at: "tree_at demo_row (Some 1) None (Node Leaf 1 (Node Leaf 2 (Node Leaf 3 Leaf)))"
  by (simp add: demo_row_def)

theorem avl_rotations_witness:
  "\<exists>m1 m2. rot_left demo_row (Some 1) = Inr (m1, Some 2) \<and> rot_right m1 (Some 2) = Inr (m2, Some 1)"
  using avl_rotations [OF demo_row_at] by auto

text \<open>
  \<open>avl_fix\<close>, started at a node whose children are trees, climbs to the root and leaves a
  balanced tree of the same nodes in the same order, with right depths, counts and parents, when
  every node on the way is within one and only the root may need a rotation.
\<close>

theorem avl_fix_rebalances:
  assumes "node_at m a par l r" and "ctx_at m c a par" and "path_ok (Node l a r) c"
    and "distinct (inorder (plug (Node l a r) c))" and "size (plug (Node l a r) c) < 2 ^ 31"
    and "length c < fuel"
  shows "\<exists>m' p t. avl_fix fuel m (Some a) = Inr (m', p) \<and> tree_at m' p None t \<and> avl t \<and>
    inorder t = inorder (plug (Node l a r) c)"
  using avl_fix_path [OF assms] by (auto simp: balanced_to_def)

theorem avl_fix_rebalances_witness:
  "\<exists>m' p t. avl_fix 5 demo_row (Some 3) = Inr (m', p) \<and> tree_at m' p None t \<and> avl t \<and>
    inorder t = [1, 2, 3]"
  using avl_fix_rebalances [of demo_row 3 "Some 2" Leaf Leaf "[(False, 2, Leaf), (False, 1, Leaf)]" 5]
  by (simp add: demo_row_def node_at_def fill_def bal2_def)

text \<open>
  \<open>avl_del\<close> of a node that has a parent and no right child removes exactly this node and
  leaves the rest a balanced tree in the same order, under the same condition on the nodes above.
\<close>

theorem avl_del_removes:
  assumes "tree_at m (Some a) par (Node l a Leaf)" and "ctx_at m ((d, p, s) # c) a par"
    and "path_ok (fill (d, p, s) l) c" and "distinct (inorder (plug (Node l a Leaf) ((d, p, s) # c)))"
    and "size (plug (Node l a Leaf) ((d, p, s) # c)) < 2 ^ 31" and "length c + 1 < fuel"
  shows "\<exists>m' q t. avl_del fuel m (Some a) = Inr (m', q) \<and> tree_at m' q None t \<and> avl t \<and>
    (\<exists>xs ys. inorder (plug (Node l a Leaf) ((d, p, s) # c)) = xs @ a # ys \<and> inorder t = xs @ ys)"
proof -
  obtain xs ys where io: "\<forall>t. inorder (plug t ((d, p, s) # c)) = xs @ inorder t @ ys"
    using plug_split by blast
  then have "inorder (plug (Node l a Leaf) ((d, p, s) # c)) = (xs @ inorder l) @ a # ys" by simp
  moreover obtain m' q t where "avl_del fuel m (Some a) = Inr (m', q)"
      "balanced_to m None (plug l ((d, p, s) # c)) m' q t"
    using avl_del_no_right [OF assms] by blast
  ultimately show ?thesis
    using io unfolding balanced_to_def by (metis append_assoc)
qed

theorem avl_del_removes_witness:
  "\<exists>m' q t. avl_del 5 demo_row (Some 3) = Inr (m', q) \<and> tree_at m' q None t \<and> avl t"
  using avl_del_removes [of demo_row 3 "Some 2" Leaf False 2 Leaf "[(False, 1, Leaf)]" 5]
  by (auto simp: demo_row_def fill_def bal2_def)

text \<open>The nodes reachable from a pointer, from left to right.\<close>

fun reachable :: "nat \<Rightarrow> amem \<Rightarrow> ptr \<Rightarrow> addr list" where
  "reachable 0 m p = []"
| "reachable (Suc fuel) m p = (case p of None \<Rightarrow> [] | Some a \<Rightarrow> (case m a of None \<Rightarrow> []
     | Some n \<Rightarrow> reachable fuel m (a_left n) @ a # reachable fuel m (a_right n)))"

definition demo_five :: amem where
  "demo_five = [1 \<mapsto> \<lparr>a_depth = 1, a_count = 1, a_left = None, a_right = None, a_parent = Some 2\<rparr>,
     2 \<mapsto> \<lparr>a_depth = 3, a_count = 4, a_left = Some 1, a_right = Some 3, a_parent = None\<rparr>,
     3 \<mapsto> \<lparr>a_depth = 2, a_count = 2, a_left = None, a_right = Some 4, a_parent = Some 2\<rparr>,
     4 \<mapsto> \<lparr>a_depth = 1, a_count = 1, a_left = None, a_right = Some 5, a_parent = Some 3\<rparr>,
     5 \<mapsto> \<lparr>a_depth = 1, a_count = 1, a_left = None, a_right = None, a_parent = Some 4\<rparr>]"

text \<open>
  A rotation below the root loses nodes: in a balanced tree of four nodes to which a fifth
  has just been linked in order, \<open>avl_fix\<close> rotates at the third node, whose parent keeps pointing at it,
  and in the tree it returns the fourth and the fifth can no longer be reached.
\<close>

theorem avl_fix_loses_nodes:
  "reachable 9 demo_five (Some 2) = [1, 2, 3, 4, 5] \<and>
   (\<exists>m'. avl_fix 9 demo_five (Some 5) = Inr (m', Some 2) \<and> reachable 9 m' (Some 2) = [1, 2, 3])"
proof -
  have "case avl_fix 9 demo_five (Some 5) of Inl _ \<Rightarrow> False
      | Inr (m', p) \<Rightarrow> p = Some 2 \<and> reachable 9 m' p = [1, 2, 3]"
    by code_simp
  moreover have "reachable 9 demo_five (Some 2) = [1, 2, 3, 4, 5]" by code_simp
  ultimately show ?thesis by (auto split: sum.splits)
qed

end
