(* ===== verification/Numbers.thy ===== *)
theory Numbers
  imports Prelude
begin

text \<open>
  The numbers in the arguments of commands: \<open>str2int\<close> of \<open>common.cpp\<close>, and what it and the commands use
  of the C++ library, \<open>strtoll\<close>, \<open>std::stoll\<close> and \<open>std::stod\<close>, in the C locale and with the choices of glibc
  where the standard leaves one.
\<close>

unbundle bit_operations_syntax

section \<open>Integers\<close>

definition is_space :: "u8 \<Rightarrow> bool" where
  "is_space c \<longleftrightarrow> c = 32 \<or> 9 \<le> c \<and> c \<le> 13"

definition is_digit :: "u8 \<Rightarrow> bool" where
  "is_digit c \<longleftrightarrow> 48 \<le> c \<and> c \<le> 57"

definition digit :: "u8 \<Rightarrow> int" where
  "digit c = uint (c - 48)"

definition dec_val :: "bytes \<Rightarrow> int" where
  "dec_val ds = foldl (\<lambda>n c. 10 * n + digit c) 0 ds"

text \<open>The optional sign: whether it is a minus, and how many bytes it takes.\<close>

definition read_sign :: "bytes \<Rightarrow> bool \<times> nat" where
  "read_sign s = (case s of c # _ \<Rightarrow> if c = 45 then (True, 1) else if c = 43 then (False, 1) else (False, 0)
     | [] \<Rightarrow> (False, 0))"

definition int64_min :: int where
  "int64_min = - (2 ^ 63)"

definition int64_max :: int where
  "int64_max = 2 ^ 63 - 1"

text \<open>
  \<open>strtoll(s, &end, 10)\<close>: the value, the number of bytes before \<open>end\<close>, and whether \<open>errno\<close> becomes
  \<open>ERANGE\<close>.  Without a digit \<open>end\<close> is \<open>s\<close> and \<open>errno\<close> is not set.
\<close>

definition strtoll :: "bytes \<Rightarrow> int \<times> nat \<times> bool" where
  "strtoll s =
     (let sp = length (takeWhile is_space s);
          (neg, sg) = read_sign (drop sp s);
          ds = takeWhile is_digit (drop (sp + sg) s);
          n = (if neg then - dec_val ds else dec_val ds) in
      if ds = [] then (0, 0, False)
      else if n < int64_min then (int64_min, sp + sg + length ds, True)
      else if n > int64_max then (int64_max, sp + sg + length ds, True)
      else (n, sp + sg + length ds, False))"

definition str2int :: "bytes \<Rightarrow> u64 option" where
  "str2int s = (case strtoll s of (val, stop, erange) \<Rightarrow>
     if erange \<or> stop \<noteq> length s then None else Some (word_of_int val))"

text \<open>\<open>std::stoll\<close>, whose exceptions are \<open>None\<close>.\<close>

definition stoll :: "bytes \<Rightarrow> u64 option" where
  "stoll s = (case strtoll s of (val, stop, erange) \<Rightarrow>
     if stop = 0 \<or> erange then None else Some (word_of_int val))"

section \<open>Doubles\<close>

text \<open>
  A \<open>double\<close> is the 64 bits of its IEEE 754 encoding.  The comparisons the program makes read them as a
  sign and a magnitude; zeros of both signs are equal and a NaN is unordered.
\<close>

type_synonym dbl = u64

definition dbl_nan :: "dbl \<Rightarrow> bool" where
  "dbl_nan x \<longleftrightarrow> x AND 0x7FFFFFFFFFFFFFFF > 0x7FF0000000000000"

definition dbl_val :: "dbl \<Rightarrow> int" where
  "dbl_val x = (if x AND 0x8000000000000000 = 0 then uint (x AND 0x7FFFFFFFFFFFFFFF)
     else - uint (x AND 0x7FFFFFFFFFFFFFFF))"

definition dbl_less :: "dbl \<Rightarrow> dbl \<Rightarrow> bool" where
  "dbl_less x y \<longleftrightarrow> \<not> dbl_nan x \<and> \<not> dbl_nan y \<and> dbl_val x < dbl_val y"

definition dbl_eq :: "dbl \<Rightarrow> dbl \<Rightarrow> bool" where
  "dbl_eq x y \<longleftrightarrow> \<not> dbl_nan x \<and> \<not> dbl_nan y \<and> dbl_val x = dbl_val y"

text \<open>
  Rounding the positive number \<open>n / d\<close> to the nearest \<open>double\<close>, ties to even: \<open>e\<close> is the exponent of its
  leading bit, and the significand is \<open>n / d\<close> in units of \<open>2 ^ (e - 52)\<close>.  The result is \<open>None\<close> where \<open>strtod\<close>
  reports a range error, on overflow and on an inexact result below the normal numbers.
\<close>

function bit_len :: "int \<Rightarrow> int" where
  "bit_len n = (if n \<le> 0 then 0 else 1 + bit_len (n div 2))"
  by pat_completeness auto
termination
  by (relation "measure nat") auto

declare bit_len.simps [simp del]

definition exponent :: "int \<Rightarrow> int \<Rightarrow> int" where
  "exponent n d =
     (let k = bit_len n - bit_len d in
      if (if k \<ge> 0 then n < d * 2 ^ nat k else n * 2 ^ nat (- k) < d) then k - 1 else k)"

definition round_dbl :: "int \<Rightarrow> int \<Rightarrow> dbl option" where
  "round_dbl n d =
     (let e0 = exponent n d;
          e = max e0 (- 1022);
          sh = 52 - e;
          num = (if sh \<ge> 0 then n * 2 ^ nat sh else n);
          den = (if sh \<ge> 0 then d else d * 2 ^ nat (- sh));
          q = num div den;
          r = num mod den;
          q' = (if 2 * r > den \<or> 2 * r = den \<and> odd q then q + 1 else q);
          bits = (e + 1022) * 2 ^ 52 + q' in
      if bits \<ge> 0x7FF * 2 ^ 52 \<or> e0 < - 1022 \<and> r \<noteq> 0 then None else Some (word_of_int bits))"

text \<open>The digits of a significand: integer and fraction part, and what is left.\<close>

definition hex_digit :: "u8 \<Rightarrow> int option" where
  "hex_digit c = (if is_digit c then Some (digit c)
     else if 97 \<le> c \<and> c \<le> 102 then Some (uint (c - 87))
     else if 65 \<le> c \<and> c \<le> 70 then Some (uint (c - 55)) else None)"

definition base_digit :: "int \<Rightarrow> u8 \<Rightarrow> int option" where
  "base_digit b c = (if b = 16 then hex_digit c else if is_digit c then Some (digit c) else None)"

definition significand :: "int \<Rightarrow> bytes \<Rightarrow> (int \<times> nat \<times> nat \<times> bytes)" where
  "significand b s =
     (let isd = (\<lambda>c. base_digit b c \<noteq> None);
          ip = takeWhile isd s;
          rest = dropWhile isd s;
          fp = (case rest of c # t \<Rightarrow> if c = 46 then takeWhile isd t else [] | [] \<Rightarrow> []);
          left = (case rest of c # t \<Rightarrow>
                    if c = 46 \<and> ip @ fp \<noteq> [] then dropWhile isd t else rest | [] \<Rightarrow> []) in
      (foldl (\<lambda>n c. b * n + the (base_digit b c)) 0 (ip @ fp), length (ip @ fp), length fp, left))"

text \<open>The optional exponent after the letter \<open>c\<close>; without a digit there is none.\<close>

definition read_exp :: "u8 \<Rightarrow> bytes \<Rightarrow> int" where
  "read_exp l s = (case s of
       c # t \<Rightarrow>
         if c = l \<or> c = l - 32 then
           let (neg, sg) = read_sign t; ds = takeWhile is_digit (drop sg t) in
           if neg then - dec_val ds else dec_val ds
         else 0
     | [] \<Rightarrow> 0)"

definition scaled :: "int \<Rightarrow> int \<Rightarrow> int \<Rightarrow> dbl option" where
  "scaled n b e =
     (if n = 0 then Some 0 else if e \<ge> 0 then round_dbl (n * b ^ nat e) 1 else round_dbl n (b ^ nat (- e)))"

definition lower :: "u8 \<Rightarrow> u8" where
  "lower c = (if 65 \<le> c \<and> c \<le> 90 then c + 32 else c)"

text \<open>
  The unsigned part of what \<open>strtod\<close> reads: \<open>inf\<close> and \<open>nan\<close> in any case, a hexadecimal or a decimal
  number.  The outer \<open>None\<close> is no conversion, the inner one a range error.  A NaN has no payload.
\<close>

definition strtod_abs :: "bytes \<Rightarrow> dbl option option" where
  "strtod_abs s =
     (let pre = map lower (take 3 s) in
      if pre = [105, 110, 102] then Some (Some 0x7FF0000000000000)
      else if pre = [110, 97, 110] then Some (Some 0x7FF8000000000000)
      else
        let hex = (map lower (take 2 s) = [48, 120]);
            (hn, hk, hf, hrest) = significand 16 (drop 2 s);
            (n, k, f, rest) = significand 10 s in
        if hex \<and> hk > 0 then Some (scaled hn 2 (read_exp 112 hrest - 4 * int hf))
        else if k > 0 then Some (scaled n 10 (read_exp 101 rest - int f))
        else None)"

text \<open>\<open>std::stod\<close>: \<open>None\<close> is a thrown \<open>invalid_argument\<close> or \<open>out_of_range\<close>.\<close>

definition stod :: "bytes \<Rightarrow> dbl option" where
  "stod s =
     (let t = dropWhile is_space s;
          (neg, sg) = read_sign t in
      case strtod_abs (drop sg t) of
        Some (Some v) \<Rightarrow> Some (if neg then v OR 0x8000000000000000 else v)
      | _ \<Rightarrow> None)"

section \<open>What an integer argument is\<close>

text \<open>White space, an optional sign and digits; the signed value.\<close>

definition int_text :: "bytes \<Rightarrow> bytes \<Rightarrow> bytes \<Rightarrow> bool" where
  "int_text sp sg ds \<longleftrightarrow> (\<forall>c \<in> set sp. is_space c) \<and> (sg = [] \<or> sg = [45] \<or> sg = [43]) \<and>
     ds \<noteq> [] \<and> (\<forall>c \<in> set ds. is_digit c)"

definition int_value :: "bytes \<Rightarrow> bytes \<Rightarrow> int" where
  "int_value sg ds = (if sg = [45] then - dec_val ds else dec_val ds)"

lemma digit_not_other: "is_digit c \<Longrightarrow> \<not> is_space c \<and> c \<noteq> 43 \<and> c \<noteq> 45"
  by (auto simp: is_digit_def is_space_def word_le_nat_alt)

lemma not_space_sign: "\<not> is_space 43" "\<not> is_space 45" "\<not> is_digit 43" "\<not> is_digit 45"
  by (simp_all add: is_space_def is_digit_def)

lemma strtoll_text:
  assumes "int_text sp sg ds" and "int64_min \<le> int_value sg ds" and "int_value sg ds \<le> int64_max"
  shows "strtoll (sp @ sg @ ds) = (int_value sg ds, length (sp @ sg @ ds), False)"
proof -
  have T: "\<forall>c \<in> set sp. is_space c" "sg = [] \<or> sg = [45] \<or> sg = [43]" "ds \<noteq> []" "\<forall>c \<in> set ds. is_digit c"
    using assms(1) by (auto simp: int_text_def)
  have "\<not> is_space (hd (sg @ ds))"
    using T(2-4) digit_not_other [of "hd ds"] not_space_sign by (cases ds) auto
  then have sp: "takeWhile is_space (sp @ sg @ ds) = sp"
    using T(1,3) by (cases "sg @ ds") (auto simp: takeWhile_append2)
  have sign: "read_sign (sg @ ds) = (sg = [45], length sg)"
    using T(2-4) digit_not_other [of "hd ds"] by (cases ds) (auto simp: read_sign_def)
  have ds: "takeWhile is_digit ds = ds" using T(4) by (simp add: takeWhile_eq_all_conv)
  show ?thesis
    using assms(2,3) T(3) by (auto simp: strtoll_def sp sign ds Let_def int_value_def)
qed

lemma strtoll_whole:
  assumes "strtoll s = (v, length s, False)" and "s \<noteq> []"
  shows "\<exists>sp sg ds. s = sp @ sg @ ds \<and> int_text sp sg ds \<and> v = int_value sg ds \<and>
    int64_min \<le> v \<and> v \<le> int64_max"
proof -
  define sp where "sp = takeWhile is_space s"
  define t where "t = drop (length sp) s"
  obtain neg sg where sg: "read_sign t = (neg, sg)" by fastforce
  define ds where "ds = takeWhile is_digit (drop sg t)"
  define n where "n = (if neg then - dec_val ds else dec_val ds)"
  have run: "strtoll s = (if ds = [] then (0, 0, False)
      else if n < int64_min then (int64_min, length sp + sg + length ds, True)
      else if n > int64_max then (int64_max, length sp + sg + length ds, True)
      else (n, length sp + sg + length ds, False))"
    using sg by (simp add: strtoll_def Let_def sp_def t_def ds_def n_def ac_simps)
  have R: "ds \<noteq> []" "length s = length sp + sg + length ds" "v = n" "int64_min \<le> v" "v \<le> int64_max"
    using assms run by (simp_all split: if_splits)
  have sgn: "take sg t = [] \<and> \<not> neg \<or> take sg t = [45] \<and> neg \<or> take sg t = [43] \<and> \<not> neg"
    using sg by (auto simp: read_sign_def split: list.splits if_splits)
  have s: "s = sp @ t" by (simp add: sp_def t_def) (metis append_take_drop_id takeWhile_eq_take)
  have "drop sg t = ds @ dropWhile is_digit (drop sg t)" by (simp add: ds_def)
  moreover have "length (drop sg t) = length ds" using R(2) s by simp
  ultimately have "drop sg t = ds" by (metis append_eq_conv_conj take_all_iff order_refl)
  then have "s = sp @ take sg t @ ds" using s by (metis append_take_drop_id)
  moreover have "int_text sp (take sg t) ds"
    using sgn R(1) by (auto simp: int_text_def sp_def ds_def dest: set_takeWhileD)
  moreover have "v = int_value (take sg t) ds" using sgn R(3) by (auto simp: int_value_def n_def)
  ultimately show ?thesis using R(4,5) by (intro exI conjI)
qed

section \<open>Properties\<close>

text \<open>
  C34.  \<open>str2int\<close> accepts exactly the decimal integers in the range of \<open>int64_t\<close>, after white space and with
  an optional sign and nothing behind them, and gives their value; the empty string, too, is taken
  for a 0.
\<close>

theorem str2int_exact:
  "str2int s = Some v \<longleftrightarrow> s = [] \<and> v = 0 \<or>
     (\<exists>sp sg ds. s = sp @ sg @ ds \<and> int_text sp sg ds \<and> int64_min \<le> int_value sg ds \<and>
        int_value sg ds \<le> int64_max \<and> v = word_of_int (int_value sg ds))"
proof (cases "s = []")
  case True
  then show ?thesis
    by (auto simp: str2int_def strtoll_def read_sign_def Let_def int_text_def)
next
  case False
  have run: "str2int s = Some v \<longleftrightarrow> (\<exists>n. strtoll s = (n, length s, False) \<and> v = word_of_int n)"
    by (auto simp: str2int_def split: prod.splits)
  show ?thesis (is "_ \<longleftrightarrow> _ \<or> ?text")
  proof
    assume "str2int s = Some v"
    then obtain n where "strtoll s = (n, length s, False)" "v = word_of_int n" using run by blast
    with strtoll_whole [OF this(1) False] have ?text by fast
    then show "s = [] \<and> v = 0 \<or> ?text" ..
  next
    assume "s = [] \<and> v = 0 \<or> ?text"
    then obtain sp sg ds where T: "s = sp @ sg @ ds" "int_text sp sg ds" "int64_min \<le> int_value sg ds"
        "int_value sg ds \<le> int64_max" "v = word_of_int (int_value sg ds)" using False by fast
    from strtoll_text [OF T(2-4)] show "str2int s = Some v" using T(1,5) run by simp
  qed
qed

end
