(* ===== verification/Objects.thy ===== *)
theory Objects
  imports Numbers Hashtable AVL_Tree
begin

text \<open>
  The objects of the server's heap: entries of the database (\<open>common.h\<close>), sorted sets and their nodes
  (\<open>zset.h\<close>), and the store that holds them with their embedded hash and tree nodes.  An
  embedded node shares the address of its object, and reading an object of one type at the
  address of another is a fault.
\<close>

unbundle bit_operations_syntax

section \<open>Objects\<close>

text \<open>The tree and hash nodes of a \<open>ZNode\<close> are in stores of their own; \<open>len\<close> is the length of the name.\<close>

record ZNode =
  zn_score :: dbl
  zn_name :: bytes

record ZSet =
  zs_tree :: ptr
  zs_hmap :: HMap

text \<open>The hash node of an \<open>Entry\<close> and its \<open>heap_idx\<close> are in stores of their own.\<close>

record Entry =
  e_key :: bytes
  e_val :: bytes
  e_type :: u32
  e_zset :: ptr

record objs =
  o_h :: hmem
  o_t :: amem
  o_z :: "ZNode store"
  o_s :: "ZSet store"
  o_e :: "Entry store"
  o_idx :: "u64 store"

text \<open>Every loop over a linked structure gets more turns than there are objects.\<close>

definition o_fuel :: "objs \<Rightarrow> nat" where
  "o_fuel M = Suc (Suc (2 * h_brk (o_h M)))"

text \<open>The next free address, handed out by \<open>new\<close> and \<open>malloc\<close>.\<close>

definition fresh :: "objs \<Rightarrow> addr" where
  "fresh M = h_brk (o_h M)"

text \<open>
  \<open>entry_eq\<close> of \<open>common.cpp\<close> compares the keys of two entries.  The right one is the key looked
  for: an \<open>Entry\<close> on the stack, whose key is known, or an object of the heap.
\<close>

definition entry_eq :: "objs \<Rightarrow> bytes res \<Rightarrow> addr \<Rightarrow> bool res" where
  "entry_eq M re_key lhs =
     bindr (load (o_e M) (Some lhs)) (\<lambda>le. bindr re_key (\<lambda>k. Inr (e_key le = k)))"

definition heap_key :: "objs \<Rightarrow> ptr \<Rightarrow> bytes res" where
  "heap_key M rhs = bindr (load (o_e M) rhs) (\<lambda>re. Inr (e_key re))"

end
