(* ===== verification/ZSets.thy ===== *)
theory ZSets
  imports Objects Hash_Map
begin

text \<open>
  \<open>zset.cpp\<close>: a sorted set keeps its members in a tree ordered by score and name, and in a hash map by
  name.  The operations are on the store of all objects, the sorted set given by its address.
\<close>

unbundle bit_operations_syntax

section \<open>Order and construction\<close>

text \<open>The sign of \<open>memcmp(a, b, n)\<close>.\<close>

fun memcmp :: "bytes \<Rightarrow> bytes \<Rightarrow> nat \<Rightarrow> int" where
  "memcmp (a # as) (b # bs) (Suc n) = (if a < b then - 1 else if b < a then 1 else memcmp as bs n)"
| "memcmp as bs n = 0"

definition zless_nodes :: "ZNode \<Rightarrow> ZNode \<Rightarrow> bool" where
  "zless_nodes za zb =
     (if \<not> dbl_eq (zn_score za) (zn_score zb) then dbl_less (zn_score za) (zn_score zb)
      else let la = length (zn_name za); lb = length (zn_name zb);
               min_len = (if la < lb then la else lb);
               cmp = memcmp (zn_name za) (zn_name zb) min_len in
        if cmp \<noteq> 0 then cmp < 0 else la < lb)"

definition zless :: "objs \<Rightarrow> ptr \<Rightarrow> ptr \<Rightarrow> bool res" where
  "zless M a b =
     bindr (load (o_z M) a) (\<lambda>za. bindr (load (o_z M) b) (\<lambda>zb. Inr (zless_nodes za zb)))"

definition znode_new :: "objs \<Rightarrow> bytes \<Rightarrow> dbl \<Rightarrow> objs \<times> addr" where
  "znode_new M name score =
     (let a = fresh M; h = o_h M in
      (M\<lparr>o_h := h\<lparr>h_nodes := (h_nodes h)(a \<mapsto> \<lparr>h_next = None, h_code = str_hash name\<rparr>), h_brk := a + 1\<rparr>,
         o_t := (o_t M)(a \<mapsto> avl_node),
         o_z := (o_z M)(a \<mapsto> \<lparr>zn_score = score, zn_name = name\<rparr>)\<rparr>, a))"

text \<open>\<open>hcmp\<close>: the name of a node against the key of a lookup.\<close>

definition hcmp :: "objs \<Rightarrow> bytes \<Rightarrow> addr \<Rightarrow> bool res" where
  "hcmp M name node = bindr (load (o_z M) (Some node)) (\<lambda>z.
     Inr (length (zn_name z) = length name \<and> memcmp (zn_name z) name (length name) = 0))"

section \<open>Operations\<close>

definition zset_lookup :: "objs \<Rightarrow> ptr \<Rightarrow> bytes \<Rightarrow> (objs \<times> ptr) res" where
  "zset_lookup M zset name =
     bindr (load (o_s M) zset) (\<lambda>zs.
     if zs_tree zs = None then Inr (M, None)
     else
       bindr (hm_lookup (o_h M) (zs_hmap zs) (str_hash name) (hcmp M name)) (\<lambda>(h, hm, node).
       Inr (M\<lparr>o_h := h, o_s := (o_s M)(the zset \<mapsto> zs\<lparr>zs_hmap := hm\<rparr>)\<rparr>, node)))"

text \<open>An \<open>AVLNode **\<close>: the root pointer of a sorted set or a child pointer of a node.\<close>

datatype tloc = TreeOf addr | LeftOf addr | RightOf addr

definition get_tloc :: "objs \<Rightarrow> tloc \<Rightarrow> ptr res" where
  "get_tloc M l = (case l of
       TreeOf z \<Rightarrow> bindr (load (o_s M) (Some z)) (\<lambda>zs. Inr (zs_tree zs))
     | LeftOf a \<Rightarrow> bindr (load (o_t M) (Some a)) (\<lambda>n. Inr (a_left n))
     | RightOf a \<Rightarrow> bindr (load (o_t M) (Some a)) (\<lambda>n. Inr (a_right n)))"

definition set_tloc :: "objs \<Rightarrow> tloc \<Rightarrow> ptr \<Rightarrow> objs res" where
  "set_tloc M l p = (case l of
       TreeOf z \<Rightarrow> bindr (update (o_s M) (Some z) (\<lambda>zs. zs\<lparr>zs_tree := p\<rparr>)) (\<lambda>s. Inr (M\<lparr>o_s := s\<rparr>))
     | LeftOf a \<Rightarrow> bindr (update (o_t M) (Some a) (\<lambda>n. n\<lparr>a_left := p\<rparr>)) (\<lambda>t. Inr (M\<lparr>o_t := t\<rparr>))
     | RightOf a \<Rightarrow> bindr (update (o_t M) (Some a) (\<lambda>n. n\<lparr>a_right := p\<rparr>)) (\<lambda>t. Inr (M\<lparr>o_t := t\<rparr>)))"

text \<open>The \<open>while\<close> loop of \<open>tree_add\<close>: where the node goes, and under which parent.\<close>

fun tree_find :: "nat \<Rightarrow> objs \<Rightarrow> ptr \<Rightarrow> ptr \<Rightarrow> tloc \<Rightarrow> (ptr \<times> tloc) res" where
  "tree_find 0 M node cur from = Inl Hang"
| "tree_find (Suc fuel) M node cur from =
     bindr (get_tloc M from) (\<lambda>p. case p of
       None \<Rightarrow> Inr (cur, from)
     | Some c \<Rightarrow> bindr (zless M node p) (\<lambda>lt.
         tree_find fuel M node p (if lt then LeftOf c else RightOf c)))"

definition set_tree_root :: "objs \<Rightarrow> ptr \<Rightarrow> ptr \<Rightarrow> objs res" where
  "set_tree_root M zset p = bindr (update (o_s M) zset (\<lambda>zs. zs\<lparr>zs_tree := p\<rparr>)) (\<lambda>s. Inr (M\<lparr>o_s := s\<rparr>))"

definition tree_add :: "objs \<Rightarrow> ptr \<Rightarrow> ptr \<Rightarrow> objs res" where
  "tree_add M zset node =
     bindr (load (o_s M) zset) (\<lambda>_.
     bindr (tree_find (o_fuel M) M node None (TreeOf (the zset))) (\<lambda>(cur, from).
     bindr (set_tloc M from node) (\<lambda>M1.
     bindr (update (o_t M1) node (\<lambda>n. n\<lparr>a_parent := cur\<rparr>)) (\<lambda>t2.
     bindr (avl_fix (o_fuel M) t2 node) (\<lambda>(t3, root).
     set_tree_root (M1\<lparr>o_t := t3\<rparr>) zset root)))))"

definition zset_update :: "objs \<Rightarrow> ptr \<Rightarrow> ptr \<Rightarrow> dbl \<Rightarrow> objs res" where
  "zset_update M zset node score =
     bindr (load (o_z M) node) (\<lambda>z.
     if dbl_eq (zn_score z) score then Inr M
     else
       bindr (avl_del (o_fuel M) (o_t M) node) (\<lambda>(t1, root).
       bindr (set_tree_root (M\<lparr>o_t := t1\<rparr>) zset root) (\<lambda>M1.
       bindr (update (o_z M1) node (\<lambda>z. z\<lparr>zn_score := score\<rparr>)) (\<lambda>z1.
       bindr (avl_init (o_t M1) node) (\<lambda>t2.
       tree_add (M1\<lparr>o_z := z1, o_t := t2\<rparr>) zset node)))))"

definition zset_add :: "objs \<Rightarrow> ptr \<Rightarrow> bytes \<Rightarrow> dbl \<Rightarrow> (objs \<times> bool) res" where
  "zset_add M zset name score =
     bindr (zset_lookup M zset name) (\<lambda>(M1, node).
     if node \<noteq> None then bindr (zset_update M1 zset node score) (\<lambda>M2. Inr (M2, False))
     else
       let (M2, a) = znode_new M1 name score in
       bindr (load (o_s M2) zset) (\<lambda>zs.
       bindr (hm_insert (o_h M2) (zs_hmap zs) (Some a)) (\<lambda>(h, hm).
       bindr (tree_add (M2\<lparr>o_h := h, o_s := (o_s M2)(the zset \<mapsto> zs\<lparr>zs_hmap := hm\<rparr>)\<rparr>) zset (Some a)) (\<lambda>M3.
       Inr (M3, True)))))"

text \<open>\<open>hm_delete\<close> compares with \<open>entry_eq\<close>, which takes the node of the set for an \<open>Entry\<close>.\<close>

definition zset_pop :: "objs \<Rightarrow> ptr \<Rightarrow> bytes \<Rightarrow> (objs \<times> ptr) res" where
  "zset_pop M zset name =
     bindr (zset_lookup M zset name) (\<lambda>(M1, node).
     if node = None then Inr (M1, None)
     else
       bindr (avl_del (o_fuel M1) (o_t M1) node) (\<lambda>(t1, root).
       bindr (set_tree_root (M1\<lparr>o_t := t1\<rparr>) zset root) (\<lambda>M2.
       bindr (load (o_s M2) zset) (\<lambda>zs.
       bindr (load (h_nodes (o_h M2)) node) (\<lambda>n.
       bindr (hm_delete (o_h M2) (zs_hmap zs) (h_code n) (entry_eq M2 (heap_key M2 node))) (\<lambda>(h, hm, _).
       Inr (M2\<lparr>o_h := h, o_s := (o_s M2)(the zset \<mapsto> zs\<lparr>zs_hmap := hm\<rparr>)\<rparr>, node)))))))"

text \<open>\<open>free\<close> of a node frees its embedded nodes with it; freeing \<open>NULL\<close> does nothing.\<close>

definition znode_del :: "objs \<Rightarrow> ptr \<Rightarrow> objs res" where
  "znode_del M node = (case node of
       None \<Rightarrow> Inr M
     | Some a \<Rightarrow> bindr (load (o_z M) node) (\<lambda>_.
         Inr (M\<lparr>o_h := (o_h M)\<lparr>h_nodes := (h_nodes (o_h M))(a := None)\<rparr>,
                o_t := (o_t M)(a := None), o_z := (o_z M)(a := None)\<rparr>)))"

text \<open>
  \<open>zset_query\<close> copies the name into the \<open>name[0]\<close> of a \<open>ZNode\<close> on the stack, which has room for
  nothing.
\<close>

fun query_loop :: "nat \<Rightarrow> objs \<Rightarrow> ZNode \<Rightarrow> ptr \<Rightarrow> ptr \<Rightarrow> ptr res" where
  "query_loop 0 M temp cur best = Inl Hang"
| "query_loop (Suc fuel) M temp cur best = (case cur of
       None \<Rightarrow> Inr best
     | Some c \<Rightarrow>
         bindr (load (o_z M) cur) (\<lambda>z.
         bindr (load (o_t M) cur) (\<lambda>n.
         if zless_nodes z temp then query_loop fuel M temp (a_right n) best
         else query_loop fuel M temp (a_left n) cur)))"

definition zset_query :: "objs \<Rightarrow> ptr \<Rightarrow> dbl \<Rightarrow> bytes \<Rightarrow> ptr res" where
  "zset_query M zset score name =
     bindr (checkr OutOfBounds (length name = 0)) (\<lambda>_.
     bindr (load (o_s M) zset) (\<lambda>zs.
     query_loop (o_fuel M) M \<lparr>zn_score = score, zn_name = name\<rparr> (zs_tree zs) None))"

text \<open>
  \<open>avl_offset\<close> walks \<open>offset\<close> places in the order.  Its \<open>double\<close> is an \<open>int64_t\<close> of the caller and \<open>pos\<close>
  stays within the number of nodes, where the comparisons are those of integers.
\<close>

fun avl_offset :: "nat \<Rightarrow> amem \<Rightarrow> ptr \<Rightarrow> int \<Rightarrow> int \<Rightarrow> ptr res" where
  "avl_offset 0 m node pos offset = Inl Hang"
| "avl_offset (Suc fuel) m node pos offset =
     (if pos = offset then Inr node
      else
        bindr (load m node) (\<lambda>n.
        bindr (avl_count m (a_right n)) (\<lambda>cr.
        if pos < offset \<and> pos + uint cr \<ge> offset then
          bindr (load m (a_right n)) (\<lambda>k.
          bindr (avl_count m (a_left k)) (\<lambda>c.
          avl_offset fuel m (a_right n) (pos + uint (c + 1)) offset))
        else
          bindr (avl_count m (a_left n)) (\<lambda>cl.
          if pos > offset \<and> pos - uint cl \<le> offset then
            bindr (load m (a_left n)) (\<lambda>k.
            bindr (avl_count m (a_right k)) (\<lambda>c.
            avl_offset fuel m (a_left n) (pos - uint (c + 1)) offset))
          else (case a_parent n of
              None \<Rightarrow> Inr None
            | Some p \<Rightarrow>
                bindr (load m (Some p)) (\<lambda>k.
                avl_offset fuel m (Some p)
                  (if a_right k = node then pos - uint (cl + 1) else pos + uint (cr + 1)) offset))))))"

definition znode_offset :: "objs \<Rightarrow> ptr \<Rightarrow> int \<Rightarrow> ptr res" where
  "znode_offset M node offset =
     (if node = None then Inr None else avl_offset (2 * o_fuel M) (o_t M) node 0 offset)"

text \<open>The destructor: every node of the tree is freed, children first.\<close>

fun free_avl_nodes :: "nat \<Rightarrow> objs \<Rightarrow> ptr \<Rightarrow> objs res" where
  "free_avl_nodes 0 M node = Inl Hang"
| "free_avl_nodes (Suc fuel) M node = (case node of
       None \<Rightarrow> Inr M
     | Some a \<Rightarrow>
         bindr (load (o_t M) node) (\<lambda>n.
         bindr (free_avl_nodes fuel M (a_left n)) (\<lambda>M1.
         bindr (load (o_t M1) node) (\<lambda>n1.
         bindr (free_avl_nodes fuel M1 (a_right n1)) (\<lambda>M2.
         znode_del M2 node)))))"

definition zset_destroy :: "objs \<Rightarrow> ptr \<Rightarrow> objs res" where
  "zset_destroy M zset =
     bindr (load (o_s M) zset) (\<lambda>zs.
     bindr (free_avl_nodes (o_fuel M) M (zs_tree zs)) (\<lambda>M1.
     set_tree_root M1 zset None))"

end
