(* ===== verification/ZSet_Order.thy ===== *)
theory ZSet_Order
  imports ZSets
begin

text \<open>
  The order of a sorted set: \<open>zless\<close> is a strict order on members with ordinary scores, \<open>tree_add\<close> puts a
  member in its place, \<open>zset_query\<close> finds the first member not below a score, and \<open>znode_offset\<close> counts
  along the order.
\<close>

section \<open>The order of members\<close>

definition name_less :: "bytes \<Rightarrow> bytes \<Rightarrow> bool" where
  "name_less a b = (let la = length a; lb = length b; min_len = (if la < lb then la else lb);
     cmp = memcmp a b min_len in if cmp \<noteq> 0 then cmp < 0 else la < lb)"

lemma name_less_lexordp: "name_less a b \<longleftrightarrow> ord_class.lexordp a b"
proof (induction a arbitrary: b)
  case Nil
  then show ?case by (cases b) (auto simp: name_less_def)
next
  case (Cons x xs)
  show ?case
  proof (cases b)
    case (Cons y ys)
    then show ?thesis using Cons.IH [of ys] by (auto simp: name_less_def Let_def split: if_splits)
  qed (simp add: name_less_def)
qed

lemma zless_nodes_eq:
  "\<not> dbl_nan (zn_score a) \<Longrightarrow> \<not> dbl_nan (zn_score b) \<Longrightarrow>
   zless_nodes a b \<longleftrightarrow> dbl_val (zn_score a) < dbl_val (zn_score b) \<or>
     dbl_val (zn_score a) = dbl_val (zn_score b) \<and> ord_class.lexordp (zn_name a) (zn_name b)"
  by (auto simp: zless_nodes_def dbl_eq_def dbl_less_def name_less_lexordp [symmetric] name_less_def Let_def)

section \<open>Walking along the order\<close>

text \<open>
  The walk of \<open>avl_offset\<close> in a tree with right counts: down to any place inside the subtree of
  the node, and up when the place is outside it.
\<close>

lemma uint_count: "size (t :: addr tree) < 2 ^ 32 \<Longrightarrow> uint (of_nat (size t) :: u32) = int (size t)"
  by (simp add: unsigned_of_nat take_bit_nat_eq_self_iff)

lemma uint_Suc_count: "size (t :: addr tree) + 1 < 2 ^ 32 \<Longrightarrow> uint (of_nat (size t) + 1 :: u32) = int (size t) + 1"
  using uint_count [of "Node t undefined Leaf"] by (simp add: add.commute)

text \<open>The place \<open>i\<close> in a list, with \<open>i\<close> any integer.\<close>

definition place :: "addr list \<Rightarrow> int \<Rightarrow> ptr" where
  "place xs i = (if 0 \<le> i \<and> i < int (length xs) then Some (xs ! nat i) else None)"

lemma place_left: "i < int (length xs) \<Longrightarrow> 0 \<le> i \<Longrightarrow> place (xs @ ys) i = place xs i"
  by (simp add: place_def nth_append nat_less_iff)

lemma place_right: "int (length xs) \<le> i \<Longrightarrow> place (xs @ ys) i = place ys (i - int (length xs))"
  by (auto simp: place_def nth_append nat_diff_distrib)

lemma avl_offset_down:
  assumes "tree_at m (Some a) par (Node l a r)" and "size (Node l a r) < 2 ^ 31"
    and "- int (size l) \<le> off - pos" and "off - pos \<le> int (size r)" and "height (Node l a r) \<le> fuel"
  shows "avl_offset fuel m (Some a) pos off
    = Inr (place (inorder (Node l a r)) (int (size l) + (off - pos)))"
  using assms
proof (induction "Node l a r" arbitrary: l a r par pos fuel rule: measure_induct_rule [where f = size])
  case less
  obtain f where fuel: "fuel = Suc f" using less.prems(5) by (cases fuel) auto
  obtain n where n: "m a = Some n" "tree_at m (a_left n) (Some a) l" "tree_at m (a_right n) (Some a) r"
    using less.prems(1) by auto
  have cl: "avl_count m (a_left n) = Inr (of_nat (size l))" "uint (of_nat (size l) :: u32) = int (size l)"
    using avl_count_at [OF n(2)] uint_count [of l] less.prems(2) by simp_all
  have cr: "avl_count m (a_right n) = Inr (of_nat (size r))" "uint (of_nat (size r) :: u32) = int (size r)"
    using avl_count_at [OF n(3)] uint_count [of r] less.prems(2) by simp_all
  consider "off = pos" | "pos < off" | "off < pos" by linarith
  then show ?case
  proof cases
    case 1
    then show ?thesis by (simp add: fuel place_def nth_append)
  next
    case 2
    then obtain rl b rr where r: "r = Node rl b rr" using less.prems(4) by (cases r) auto
    then have b: "a_right n = Some b" "tree_at m (Some b) (Some a) (Node rl b rr)" using n(3) by auto
    then obtain k where k: "m b = Some k" "tree_at m (a_left k) (Some b) rl" by auto
    have c: "avl_count m (a_left k) = Inr (of_nat (size rl))"
        "uint (of_nat (size rl) + 1 :: u32) = int (size rl) + 1"
      using avl_count_at [OF k(2)] uint_Suc_count [of rl] less.prems(2) r by simp_all
    have "avl_offset fuel m (Some a) pos off = avl_offset f m (Some b) (pos + (int (size rl) + 1)) off"
      using 2 less.prems(4) n(1) cr b(1) k(1) c by (simp add: fuel load_Some)
    also have "\<dots> = Inr (place (inorder (Node rl b rr)) (int (size rl) + (off - (pos + (int (size rl) + 1)))))"
      using less.prems(2-5) 2 r fuel by (intro less.hyps [OF _ b(2)]) auto
    also have "place (inorder (Node rl b rr)) (int (size rl) + (off - (pos + (int (size rl) + 1))))
        = place (inorder (Node l a r)) (int (size l) + (off - pos))"
      using place_right [of "inorder l @ [a]" "int (size l) + (off - pos)" "inorder r"] 2 r
      by (simp add: algebra_simps)
    finally show ?thesis .
  next
    case 3
    then obtain ll b lr where l: "l = Node ll b lr" using less.prems(3) by (cases l) auto
    then have b: "a_left n = Some b" "tree_at m (Some b) (Some a) (Node ll b lr)" using n(2) by auto
    then obtain k where k: "m b = Some k" "tree_at m (a_right k) (Some b) lr" by auto
    have c: "avl_count m (a_right k) = Inr (of_nat (size lr))"
        "uint (of_nat (size lr) + 1 :: u32) = int (size lr) + 1"
      using avl_count_at [OF k(2)] uint_Suc_count [of lr] less.prems(2) l by simp_all
    have "avl_offset fuel m (Some a) pos off = avl_offset f m (Some b) (pos - (int (size lr) + 1)) off"
      using 3 less.prems(3) n(1) cr cl b(1) k(1) c by (simp add: fuel load_Some)
    also have "\<dots> = Inr (place (inorder (Node ll b lr)) (int (size ll) + (off - (pos - (int (size lr) + 1)))))"
      using less.prems(2-5) 3 l fuel by (intro less.hyps [OF _ b(2)]) auto
    also have "place (inorder (Node ll b lr)) (int (size ll) + (off - (pos - (int (size lr) + 1))))
        = place (inorder (Node l a r)) (int (size l) + (off - pos))"
      using place_left [of "int (size l) + (off - pos)" "inorder l" "a # inorder r"] 3 l less.prems(3)
      by (simp add: algebra_simps)
    finally show ?thesis .
  qed
qed

text \<open>How many nodes come before a subtree.\<close>

fun rank_ctx :: "ctx \<Rightarrow> nat" where
  "rank_ctx [] = 0"
| "rank_ctx ((d, p, s) # c) = (if d then 0 else size s + 1) + rank_ctx c"

lemma place_plug:
  "0 \<le> i \<Longrightarrow> i < int (size t) \<Longrightarrow>
   place (inorder (plug t c)) (int (rank_ctx c) + i) = place (inorder t) i"
proof (induction c arbitrary: t i)
  case (Cons f c)
  obtain d p s where f: "f = (d, p, s)" by (cases f)
  show ?case
  proof (cases d)
    case True
    then show ?thesis
      using Cons.IH [of i "fill f t"] Cons.prems place_left [of i "inorder t" "p # inorder s"]
      by (simp add: f fill_def)
  next
    case False
    then show ?thesis
      using Cons.IH [of "int (size s) + 1 + i" "fill f t"] Cons.prems
        place_right [of "inorder s @ [p]" "int (size s) + 1 + i" "inorder t"]
      by (simp add: f fill_def ac_simps)
  qed
qed simp

lemma rank_ctx_size: "rank_ctx c + size t \<le> size (plug t c)"
proof (induction c arbitrary: t)
  case (Cons f c)
  show ?case using Cons [of "fill f t"] by (cases f) (auto simp: fill_def split: if_splits)
qed simp

lemma height_plug: "height t \<le> height (plug t c)"
proof (induction c arbitrary: t)
  case (Cons f c)
  have "height t \<le> height (fill f t)" by (auto simp: fill_def split: prod.split)
  then show ?case using Cons [of "fill f t"] by simp
qed simp

text \<open>The node at the hole of a context.\<close>

lemma tree_at_hole:
  "tree_at m p None (plug (Node l a r) c) \<Longrightarrow>
   \<exists>par. tree_at m (Some a) par (Node l a r) \<and> ctx_at m c a par"
proof (induction c arbitrary: l a r)
  case (Cons f c)
  obtain d q s where f: "f = (d, q, s)" by (cases f)
  show ?case
  proof (cases d)
    case True
    then obtain par where "tree_at m (Some q) par (Node (Node l a r) q s)" "ctx_at m c q par"
      using Cons.IH [of "Node l a r" q s] Cons.prems by (auto simp: f fill_def)
    then show ?thesis using True by (auto simp: f)
  next
    case False
    then obtain par where "tree_at m (Some q) par (Node s q (Node l a r))" "ctx_at m c q par"
      using Cons.IH [of s q "Node l a r"] Cons.prems by (auto simp: f fill_def)
    then show ?thesis using False by (auto simp: f)
  qed
qed auto

lemma avl_offset_within:
  assumes "tree_at m p None (plug (Node l a r) c)" and "size (plug (Node l a r) c) < 2 ^ 31"
    and "height (plug (Node l a r) c) \<le> fuel" and "- int (size l) \<le> off - pos" and "off - pos \<le> int (size r)"
  shows "avl_offset fuel m (Some a) pos off
    = Inr (place (inorder (plug (Node l a r) c)) (int (rank_ctx c + size l) + (off - pos)))"
proof -
  let ?t = "Node l a r"
  obtain par where at: "tree_at m (Some a) par ?t" using tree_at_hole [OF assms(1)] by blast
  have "height ?t \<le> fuel" "size ?t < 2 ^ 31"
    using height_plug [of ?t c] size_plug [of ?t c] assms(2,3) by simp_all
  then have "avl_offset fuel m (Some a) pos off = Inr (place (inorder ?t) (int (size l) + (off - pos)))"
    using assms(4,5) by (intro avl_offset_down [OF at]) auto
  then show ?thesis
    using place_plug [of "int (size l) + (off - pos)" ?t c] assms(4,5) by (simp add: ac_simps)
qed

lemma avl_offset_climb:
  assumes "tree_at m (Some a) par (Node l a r)" and "size (Node l a r) < 2 ^ 31"
    and "\<not> (- int (size l) \<le> off - pos \<and> off - pos \<le> int (size r))"
  shows "avl_offset (Suc f) m (Some a) pos off = (case par of None \<Rightarrow> Inr None
     | Some q \<Rightarrow> bindr (load m (Some q)) (\<lambda>k. avl_offset f m (Some q)
         (if a_right k = Some a then pos - (int (size l) + 1) else pos + (int (size r) + 1)) off))"
proof -
  obtain n where n: "m a = Some n" "a_parent n = par" "tree_at m (a_left n) (Some a) l"
      "tree_at m (a_right n) (Some a) r"
    using assms(1) by auto
  have "avl_count m (a_left n) = Inr (of_nat (size l))" "avl_count m (a_right n) = Inr (of_nat (size r))"
    using avl_count_at n(3,4) by simp_all
  moreover have "uint (of_nat (size l) :: u32) = int (size l)" "uint (of_nat (size r) :: u32) = int (size r)"
      "uint (of_nat (size l) + 1 :: u32) = int (size l) + 1" "uint (of_nat (size r) + 1 :: u32) = int (size r) + 1"
    using uint_count uint_Suc_count assms(2) by simp_all
  ultimately show ?thesis
    using n(1,2) assms(3) by (auto simp: load_Some split: option.splits intro!: bindr_cong)
qed

lemma avl_offset_up:
  assumes "tree_at m p None (plug (Node l a r) c)"
    and "distinct (inorder (plug (Node l a r) c))" and "size (plug (Node l a r) c) < 2 ^ 31"
    and "length c + height (plug (Node l a r) c) \<le> fuel"
  shows "avl_offset fuel m (Some a) pos off
    = Inr (place (inorder (plug (Node l a r) c)) (int (rank_ctx c + size l) + (off - pos)))"
  using assms
proof (induction c arbitrary: l a r pos fuel)
  case (Nil l a r pos fuel)
  obtain f where f: "fuel = Suc f" using Nil.prems(4) by (cases fuel) auto
  show ?case
  proof (cases "- int (size l) \<le> off - pos \<and> off - pos \<le> int (size r)")
    case True
    then show ?thesis using Nil.prems by (intro avl_offset_within [of m p]) auto
  next
    case False
    then have "place (inorder (Node l a r)) (int (size l) + (off - pos)) = None"
      by (auto simp: place_def)
    then show ?thesis
      using avl_offset_climb [of m a None l r off pos f] Nil.prems False f by (auto simp: tree_at_root)
  qed
next
  case (Cons g c l a r pos fuel)
  let ?t = "Node l a r" and ?T = "plug (Node l a r) (g # c)"
  obtain d q s where g: "g = (d, q, s)" by (cases g)
  obtain f where f: "fuel = Suc f" "length c + height ?T \<le> f"
    using Cons.prems(4) by (cases fuel) auto
  obtain par where at: "tree_at m (Some a) par ?t" "ctx_at m (g # c) a par"
    using tree_at_hole [OF Cons.prems(1)] by blast
  then obtain k where k: "par = Some q" "m q = Some k"
      "if d then a_left k = Some a \<and> tree_at m (a_right k) (Some q) s
       else a_right k = Some a \<and> tree_at m (a_left k) (Some q) s"
    by (auto simp: g)
  have sz: "size ?t < 2 ^ 31" using size_plug [of ?t "g # c"] Cons.prems(3) by simp
  show ?case
  proof (cases "- int (size l) \<le> off - pos \<and> off - pos \<le> int (size r)")
    case True
    then show ?thesis using Cons.prems by (intro avl_offset_within [of m p]) auto
  next
    case False
    have "a \<notin> set_tree s" using distinct_plug [OF Cons.prems(2)] by (simp add: g)
    then have side: "a_right k = Some a \<longleftrightarrow> \<not> d"
      using k(3) by (cases s) (auto split: if_splits)
    have step: "avl_offset fuel m (Some a) pos off = avl_offset f m (Some q)
        (if d then pos + (int (size r) + 1) else pos - (int (size l) + 1)) off"
      using avl_offset_climb [OF at(1) sz False, of f] k(1,2) side f(1) by (simp add: load_Some)
    show ?thesis
    proof (cases d)
      case True
      then show ?thesis
        using step Cons.IH [of ?t q s f "pos + (int (size r) + 1)"] Cons.prems f(2) g
        by (simp add: fill_def algebra_simps)
    next
      case left: False
      then show ?thesis
        using step Cons.IH [of s q ?t f "pos - (int (size l) + 1)"] Cons.prems f(2) g
        by (simp add: fill_def algebra_simps)
    qed
  qed
qed

text \<open>Every node of a tree is at some hole, with its index as the rank.\<close>

lemma hole_exists: "a \<in> set_tree t \<Longrightarrow> \<exists>l r c'. plug t c = plug (Node l a r) c'"
proof (induction t arbitrary: c)
  case (Node l b r)
  consider "a = b" | "a \<in> set_tree l" | "a \<in> set_tree r" using Node.prems by auto
  then show ?case
  proof cases
    case 1
    then show ?thesis by blast
  next
    case 2
    then show ?thesis using Node.IH(1) [of "(True, b, r) # c"] by (simp add: fill_def)
  next
    case 3
    then show ?thesis using Node.IH(2) [of "(False, b, l) # c"] by (simp add: fill_def)
  qed
qed simp

lemma length_ctx: "length c + size t \<le> size (plug t c)"
proof (induction c arbitrary: t)
  case (Cons f c)
  have "size t < size (fill f t)" by (auto simp: fill_def split: prod.split)
  then show ?case using Cons [of "fill f t"] by simp
qed simp

lemma hole_at:
  assumes "distinct (inorder t)" and "i < size t"
  obtains l r c where "t = plug (Node l (inorder t ! i) r) c" and "rank_ctx c + size l = i"
proof -
  let ?a = "inorder t ! i"
  have "?a \<in> set_tree t" using assms(2) by (metis length_inorder nth_mem set_inorder)
  then obtain l r c where t: "t = plug (Node l ?a r) c" using hole_exists [of ?a t "[]"] by auto
  let ?j = "rank_ctx c + size l"
  have "place (inorder t) (int ?j) = Some ?a"
    using place_plug [of "int (size l)" "Node l ?a r" c] t by (simp add: place_def nth_append)
  then have "inorder t ! ?j = ?a" "?j < size t" by (auto simp: place_def nat_int_add split: if_splits)
  then have "?j = i" using assms by (simp add: nth_eq_iff_index_eq)
  then show ?thesis using that t by blast
qed

lemma avl_offset_place:
  assumes "tree_at m p None t" and "distinct (inorder t)" and "size t < 2 ^ 31" and "i < size t"
    and "2 * size t \<le> fuel"
  shows "avl_offset fuel m (Some (inorder t ! i)) 0 k = Inr (place (inorder t) (int i + k))"
proof -
  obtain l r c where t: "t = plug (Node l (inorder t ! i) r) c" "rank_ctx c + size l = i"
    using hole_at [OF assms(2,4)] by blast
  have "length c + size (Node l (inorder t ! i) r) \<le> size t"
    using length_ctx [of c "Node l (inorder t ! i) r"] t(1) by metis
  then have "length c + height t \<le> fuel" using assms(5) height_le_size_tree [of t] by simp
  then show ?thesis
    using avl_offset_up [of m p l "inorder t ! i" r c fuel 0 k] assms(1-3) t by simp
qed

text \<open>The nodes of a tree are among the addresses handed out, so that the fuel is enough.\<close>

lemma tree_fuel:
  assumes "distinct (inorder t)" and "\<forall>a \<in> set_tree t. a < h_brk (o_h M)"
  shows "size t < o_fuel M"
  using distinct_bounded_length [OF assms(1), of "h_brk (o_h M)"] assms(2)
  by (simp add: o_fuel_def less_Suc_eq_le)

section \<open>Properties\<close>

text \<open>
  C33.  Among members whose scores are not NaN, \<open>zless\<close> is the order by the value of the score and, for equal values, by the
  bytes of the name as unsigned numbers, the first byte first and a prefix before a longer name.  It is a strict order:
  irreflexive, asymmetric, transitive, and total up to members with equal score and the same name.
\<close>

theorem zless_strict_order:
  assumes "\<not> dbl_nan (zn_score a)" and "\<not> dbl_nan (zn_score b)" and "\<not> dbl_nan (zn_score c)"
  shows "(zless_nodes a b \<longleftrightarrow> dbl_val (zn_score a) < dbl_val (zn_score b) \<or>
      dbl_val (zn_score a) = dbl_val (zn_score b) \<and>
      ((\<exists>v. v \<noteq> [] \<and> zn_name b = zn_name a @ v) \<or>
       (\<exists>u x y v w. zn_name a = u @ x # v \<and> zn_name b = u @ y # w \<and> unat x < unat y))) \<and>
    \<not> zless_nodes a a \<and> (zless_nodes a b \<longrightarrow> \<not> zless_nodes b a) \<and>
    (zless_nodes a b \<longrightarrow> zless_nodes b c \<longrightarrow> zless_nodes a c) \<and>
    (zless_nodes a b \<or> zless_nodes b a \<or> dbl_eq (zn_score a) (zn_score b) \<and> zn_name a = zn_name b)"
proof -
  have "ord_class.lexordp (zn_name a) (zn_name b) \<longleftrightarrow> (\<exists>v. v \<noteq> [] \<and> zn_name b = zn_name a @ v) \<or>
      (\<exists>u x y v w. zn_name a = u @ x # v \<and> zn_name b = u @ y # w \<and> unat x < unat y)"
    unfolding lexordp_iff word_less_nat_alt by (metis neq_Nil_conv)
  then have "zless_nodes a b \<longleftrightarrow> dbl_val (zn_score a) < dbl_val (zn_score b) \<or>
      dbl_val (zn_score a) = dbl_val (zn_score b) \<and>
      ((\<exists>v. v \<noteq> [] \<and> zn_name b = zn_name a @ v) \<or>
       (\<exists>u x y v w. zn_name a = u @ x # v \<and> zn_name b = u @ y # w \<and> unat x < unat y))"
    using zless_nodes_eq [OF assms(1,2)] by simp
  moreover have "\<not> zless_nodes a a \<and> (zless_nodes a b \<longrightarrow> \<not> zless_nodes b a) \<and>
      (zless_nodes a b \<longrightarrow> zless_nodes b c \<longrightarrow> zless_nodes a c) \<and>
      (zless_nodes a b \<or> zless_nodes b a \<or> dbl_eq (zn_score a) (zn_score b) \<and> zn_name a = zn_name b)"
    using assms lexordp_linear [of "zn_name a" "zn_name b"]
    by (auto simp: zless_nodes_eq dbl_eq_def lexordp_irreflexive dest: lexordp_trans lexordp_antisym)
  ultimately show ?thesis by blast
qed

definition demo_znode :: "u64 \<Rightarrow> bytes \<Rightarrow> ZNode" where
  "demo_znode score name = \<lparr>zn_score = score, zn_name = name\<rparr>"

theorem zless_strict_order_witness:
  "zless_nodes (demo_znode 0 [97]) (demo_znode 0x3FF0000000000000 [97]) \<and>
   zless_nodes (demo_znode 0 [97]) (demo_znode 0x3FF0000000000000 [97, 98]) \<and>
   (\<exists>v. v \<noteq> [] \<and> zn_name (demo_znode 0x3FF0000000000000 [97, 98]) = zn_name (demo_znode 0x3FF0000000000000 [97]) @ v)"
proof -
  let ?a = "demo_znode 0 [97]" and ?b = "demo_znode 0x3FF0000000000000 [97]" and ?c = "demo_znode 0x3FF0000000000000 [97, 98]"
  have run: "zless_nodes ?a ?b" "zless_nodes ?b ?c" by code_simp+
  have nan: "\<not> dbl_nan (zn_score ?a)" "\<not> dbl_nan (zn_score ?b)" "\<not> dbl_nan (zn_score ?c)" by code_simp+
  have "zless_nodes ?a ?c" using zless_strict_order [OF nan] run by blast
  moreover have "\<exists>v. v \<noteq> [] \<and> zn_name ?c = zn_name ?b @ v"
    using zless_strict_order [OF nan(2,3,3)] run(2) by (auto simp: demo_znode_def)
  ultimately show ?thesis using run(1) by blast
qed

text \<open>
  C31.  \<open>znode_offset\<close> is indexing: in a tree with right counts and parents, \<open>k\<close> places from the
  node with index \<open>i\<close> in the order, to either side, is the node with index \<open>i + k\<close>, and nothing when
  there is no such index.  The walk always ends.
\<close>

theorem znode_offset_nth:
  assumes "tree_at (o_t M) p None t" and "distinct (inorder t)" and "size t < 2 ^ 31" and "i < size t"
    and "\<forall>a \<in> set_tree t. a < h_brk (o_h M)"
  shows "znode_offset M (Some (inorder t ! i)) k
    = Inr (if 0 \<le> int i + k \<and> int i + k < int (size t) then Some (inorder t ! nat (int i + k)) else None)"
  using avl_offset_place [OF assms(1-4), of "2 * o_fuel M" k] tree_fuel [OF assms(2,5)]
  by (simp add: znode_offset_def place_def)

definition demo_row_objs :: objs where
  "demo_row_objs = \<lparr>o_h = \<lparr>h_arrs = Map.empty, h_nodes = Map.empty, h_brk = 4\<rparr>, o_t = demo_row,
     o_z = [1 \<mapsto> \<lparr>zn_score = 0x3FF0000000000000, zn_name = [97]\<rparr>,
            2 \<mapsto> \<lparr>zn_score = 0x3FF0000000000000, zn_name = [98]\<rparr>,
            3 \<mapsto> \<lparr>zn_score = 0x4000000000000000, zn_name = [97]\<rparr>],
     o_s = [9 \<mapsto> \<lparr>zs_tree = Some 1, zs_hmap = empty_map\<rparr>], o_e = Map.empty, o_idx = Map.empty\<rparr>"

lemma demo_row_objs_at:
  "tree_at (o_t demo_row_objs) (Some 1) None (Node Leaf 1 (Node Leaf 2 (Node Leaf 3 Leaf)))"
  by (simp add: demo_row_objs_def demo_row_def)

theorem znode_offset_nth_witness:
  "znode_offset demo_row_objs (Some 3) (- 2) = Inr (Some 1) \<and> znode_offset demo_row_objs (Some 3) 1 = Inr None"
  using znode_offset_nth [OF demo_row_objs_at, of 2 "- 2"] znode_offset_nth [OF demo_row_objs_at, of 2 1]
  by (simp add: demo_row_objs_def)

section \<open>Searching\<close>

text \<open>What each member of a tree is.\<close>

definition members_at :: "objs \<Rightarrow> (addr \<Rightarrow> ZNode) \<Rightarrow> addr set \<Rightarrow> bool" where
  "members_at M sc A \<longleftrightarrow> (\<forall>a \<in> A. o_z M a = Some (sc a))"

abbreviation below :: "(addr \<Rightarrow> ZNode) \<Rightarrow> addr \<Rightarrow> addr \<Rightarrow> bool" where
  "below sc a b \<equiv> zless_nodes (sc a) (sc b)"

lemma query_loop_spec:
  assumes "tree_at (o_t M) cur par t" and "members_at M sc (set_tree t)" and "height t < fuel"
    and "sorted_wrt (\<lambda>a b. zless_nodes (sc b) x \<longrightarrow> zless_nodes (sc a) x) (inorder t)"
  shows "query_loop fuel M x cur best = Inr (case find (\<lambda>b. \<not> zless_nodes (sc b) x) (inorder t) of
      None \<Rightarrow> best | Some b \<Rightarrow> Some b)"
  using assms
proof (induction t arbitrary: cur par fuel best)
  case Leaf
  then show ?case by (cases fuel) auto
next
  case (Node l a r)
  obtain f n where f: "fuel = Suc f" "cur = Some a" "o_t M a = Some n" "o_z M a = Some (sc a)"
      "tree_at (o_t M) (a_left n) (Some a) l" "tree_at (o_t M) (a_right n) (Some a) r"
    using Node.prems(1-3) by (cases fuel) (auto simp: members_at_def)
  have S: "sorted_wrt (\<lambda>a b. zless_nodes (sc b) x \<longrightarrow> zless_nodes (sc a) x) (inorder l)"
      "sorted_wrt (\<lambda>a b. zless_nodes (sc b) x \<longrightarrow> zless_nodes (sc a) x) (inorder r)"
      "\<forall>b \<in> set_tree l. zless_nodes (sc a) x \<longrightarrow> zless_nodes (sc b) x"
    using Node.prems(4) by (auto simp: sorted_wrt_append)
  have IH: "query_loop f M x (a_left n) best' = Inr (case find (\<lambda>b. \<not> zless_nodes (sc b) x) (inorder l) of
        None \<Rightarrow> best' | Some b \<Rightarrow> Some b)"
      "query_loop f M x (a_right n) best' = Inr (case find (\<lambda>b. \<not> zless_nodes (sc b) x) (inorder r) of
        None \<Rightarrow> best' | Some b \<Rightarrow> Some b)" for best'
    using Node.IH(1) [OF f(5) _ _ S(1)] Node.IH(2) [OF f(6) _ _ S(2)] Node.prems(2,3) f(1)
    by (auto simp: members_at_def)
  show ?case
  proof (cases "zless_nodes (sc a) x")
    case True
    then have "find (\<lambda>b. \<not> zless_nodes (sc b) x) (inorder l) = None"
      using S(3) by (auto simp: find_None_iff)
    then show ?thesis using True f IH by (simp add: load_Some find_append)
  next
    case False
    then show ?thesis using f IH by (auto simp: load_Some find_append split: option.splits)
  qed
qed

lemma sorted_below:
  assumes "sorted_wrt (below sc) xs" and "\<forall>a \<in> set xs. \<not> dbl_nan (zn_score (sc a))" and "\<not> dbl_nan (zn_score x)"
  shows "sorted_wrt (\<lambda>a b. zless_nodes (sc b) x \<longrightarrow> zless_nodes (sc a) x) xs"
    and "sorted_wrt (\<lambda>a b. zless_nodes x (sc a) \<longrightarrow> zless_nodes x (sc b)) xs"
proof -
  have tr: "zless_nodes u w" if "zless_nodes u v" "zless_nodes v w" "\<not> dbl_nan (zn_score u)"
      "\<not> dbl_nan (zn_score v)" "\<not> dbl_nan (zn_score w)" for u v w
    using that by (auto simp: zless_nodes_eq dest: lexordp_trans)
  show "sorted_wrt (\<lambda>a b. zless_nodes (sc b) x \<longrightarrow> zless_nodes (sc a) x) xs"
    by (rule sorted_wrt_mono_rel [OF _ assms(1)]) (use assms(2,3) tr in blast)
  show "sorted_wrt (\<lambda>a b. zless_nodes x (sc a) \<longrightarrow> zless_nodes x (sc b)) xs"
    by (rule sorted_wrt_mono_rel [OF _ assms(1)]) (use assms(2,3) tr in blast)
qed

section \<open>Adding a member\<close>

text \<open>The hole where a search ends.\<close>

fun search_ctx :: "(addr \<Rightarrow> bool) \<Rightarrow> addr tree \<Rightarrow> ctx \<Rightarrow> ctx" where
  "search_ctx lt Leaf c = c"
| "search_ctx lt (Node l b r) c =
     (if lt b then search_ctx lt l ((True, b, r) # c) else search_ctx lt r ((False, b, l) # c))"

fun hole_loc :: "addr \<Rightarrow> ctx \<Rightarrow> tloc" where
  "hole_loc z [] = TreeOf z"
| "hole_loc z ((d, p, s) # c) = (if d then LeftOf p else RightOf p)"

fun hole_par :: "ctx \<Rightarrow> ptr" where
  "hole_par [] = None"
| "hole_par ((d, p, s) # c) = Some p"

lemma search_ctx_plug: "plug Leaf (search_ctx lt t c) = plug t c"
  by (induction t arbitrary: c) (auto simp: fill_def)

lemma search_ctx_inorder:
  assumes "sorted_wrt (\<lambda>a b. lt a \<longrightarrow> lt b) (inorder t)" and "\<And>v. inorder (plug v c) = pre @ inorder v @ post"
  shows "inorder (plug u (search_ctx lt t c))
    = pre @ takeWhile (\<lambda>b. \<not> lt b) (inorder t) @ inorder u @ dropWhile (\<lambda>b. \<not> lt b) (inorder t) @ post"
  using assms
proof (induction t arbitrary: c pre post)
  case (Node l b r)
  have S: "sorted_wrt (\<lambda>a b. lt a \<longrightarrow> lt b) (inorder l)" "sorted_wrt (\<lambda>a b. lt a \<longrightarrow> lt b) (inorder r)"
      "\<forall>a \<in> set_tree l. lt a \<longrightarrow> lt b"
    using Node.prems(1) unfolding inorder.simps sorted_wrt_append sorted_wrt.simps set_append set_simps set_inorder
    by blast+
  show ?case
  proof (cases "lt b")
    case True
    have "inorder (plug v ((True, b, r) # c)) = pre @ inorder v @ (b # inorder r @ post)" for v
      using Node.prems(2) by (simp add: fill_def)
    from Node.IH(1) [OF S(1) this] show ?thesis
      using True by (simp add: takeWhile_tail dropWhile_append)
  next
    case False
    then have l: "\<forall>a \<in> set (inorder l). \<not> lt a" using S(3) by auto
    have "inorder (plug v ((False, b, l) # c)) = (pre @ inorder l @ [b]) @ inorder v @ post" for v
      using Node.prems(2) by (simp add: fill_def)
    from Node.IH(2) [OF S(2) this] show ?thesis
      using False l by (simp add: takeWhile_append dropWhile_append)
  qed
qed simp

lemma tree_find_spec:
  assumes "get_tloc M (hole_loc z c) = Inr q" and "tree_at (o_t M) q (hole_par c) t"
    and "members_at M sc (insert a (set_tree t))" and "height t < fuel"
  shows "tree_find fuel M (Some a) (hole_par c) (hole_loc z c)
    = Inr (hole_par (search_ctx (below sc a) t c), hole_loc z (search_ctx (below sc a) t c))"
  using assms
proof (induction t arbitrary: c q fuel)
  case Leaf
  then show ?case by (cases fuel) auto
next
  case (Node l b r)
  obtain f n where f: "fuel = Suc f" "q = Some b" "o_t M b = Some n"
      "tree_at (o_t M) (a_left n) (Some b) l" "tree_at (o_t M) (a_right n) (Some b) r"
    using Node.prems(2,4) by (cases fuel) auto
  have z: "o_z M a = Some (sc a)" "o_z M b = Some (sc b)"
    using Node.prems(3) by (auto simp: members_at_def)
  have lt: "zless M (Some a) (Some b) = Inr (below sc a b)" using z by (simp add: zless_def load_Some)
  show ?case
  proof (cases "below sc a b")
    case True
    have "get_tloc M (hole_loc z ((True, b, r) # c)) = Inr (a_left n)"
      using f(3) by (simp add: get_tloc_def load_Some)
    from Node.IH(1) [OF this] f(4) Node.prems(3,4) f(1) show ?thesis
      using Node.prems(1) f(1,2) lt True by (simp add: members_at_def)
  next
    case False
    have "get_tloc M (hole_loc z ((False, b, l) # c)) = Inr (a_right n)"
      using f(3) by (simp add: get_tloc_def load_Some)
    from Node.IH(2) [OF this] f(5) Node.prems(3,4) f(1) show ?thesis
      using Node.prems(1) f(1,2) lt False by (simp add: members_at_def)
  qed
qed

lemma set_plug: "set_tree (plug t c) = set_tree t \<union> ctx_set c"
proof (induction c arbitrary: t)
  case (Cons f c)
  then show ?case by (cases f) auto
qed simp

text \<open>Linking a new node into a hole.\<close>

lemma link_new:
  assumes "tree_at m q None (plug Leaf ((d, p, s) # c))" and "distinct (inorder (plug Leaf ((d, p, s) # c)))"
    and "a \<notin> set_tree (plug Leaf ((d, p, s) # c))" and "m p = Some n"
  defines "m1 \<equiv> m(p \<mapsto> if d then n\<lparr>a_left := Some a\<rparr> else n\<lparr>a_right := Some a\<rparr>)"
  shows "ctx_at (m1(a \<mapsto> x)) ((d, p, s) # c) a (Some p)"
proof -
  obtain par where at: "tree_at m (Some p) par (fill (d, p, s) Leaf)" "ctx_at m c p par"
    using tree_at_hole [of m q "if d then Leaf else s" p "if d then s else Leaf" c] assms(1)
    by (auto simp: fill_def split: if_splits)
  have a: "a \<noteq> p" "a \<notin> set_tree s" "a \<notin> ctx_set c"
    using assms(3) by (auto simp: set_plug)
  have p: "p \<notin> set_tree s" "p \<notin> ctx_set c"
    using distinct_plug [of "fill (d, p, s) Leaf" c] assms(2) by (auto simp: fill_def split: if_splits)
  have off: "(m1(a \<mapsto> x)) b = m b" if "b \<notin> {a, p}" for b using that by (simp add: m1_def)
  have "tree_at (m1(a \<mapsto> x)) r (Some p) s" if "tree_at m r (Some p) s" for r
    by (rule tree_at_off [where X = "{a, p}", OF that off]) (use a(2) p(1) in auto)
  moreover have "ctx_at (m1(a \<mapsto> x)) c p par"
    by (rule ctx_at_off [where X = "{a, p}", OF at(2) off]) (use a(3) p(2) in auto)
  ultimately show ?thesis
    using at(1) a(1) assms(4) by (cases d) (auto simp: m1_def fill_def)
qed

text \<open>The node hangs where the search ends, and \<open>avl_fix\<close> starts there.\<close>

lemma tree_add_links:
  assumes zs: "o_s M z = Some zs" and tr: "tree_at (o_t M) (zs_tree zs) None t"
    and a: "o_t M a = Some avl_node" "a \<notin> set_tree t" and sc: "members_at M sc (insert a (set_tree t))"
    and dist: "distinct (inorder t)" and brk: "\<forall>b \<in> insert a (set_tree t). b < h_brk (o_h M)"
    and c: "search_ctx (below sc a) t [] = c"
  obtains m2 where "tree_add M (Some z) (Some a) = bindr (avl_fix (o_fuel M) m2 (Some a)) (\<lambda>(m, p).
      Inr (M\<lparr>o_t := m, o_s := (o_s M)(z \<mapsto> zs\<lparr>zs_tree := p\<rparr>)\<rparr>))"
    and "ctx_at m2 c a (hole_par c)" and "node_at m2 a (hole_par c) Leaf Leaf"
    and "\<forall>b. b \<notin> insert a (set_tree t) \<longrightarrow> m2 b = o_t M b" and "size t < o_fuel M"
proof -
  have pl: "plug Leaf c = t" unfolding c [symmetric] by (simp add: search_ctx_plug)
  have fuel: "size t < o_fuel M" using brk by (intro tree_fuel [OF dist]) simp
  then have hf: "height t < o_fuel M" using height_le_size_tree [of t] by simp
  have tf: "tree_find (o_fuel M) M (Some a) None (TreeOf z) = Inr (hole_par c, hole_loc z c)"
    using tree_find_spec [of M z "[]" "zs_tree zs" t sc a "o_fuel M"] zs tr sc hf
    by (simp add: get_tloc_def load_Some c)
  obtain M1 where M1: "set_tloc M (hole_loc z c) (Some a) = Inr M1" "o_t M1 a = Some avl_node"
      "ctx_at ((o_t M1)(a \<mapsto> avl_node\<lparr>a_parent := hole_par c\<rparr>)) c a (hole_par c)"
      "\<forall>b. b \<notin> insert a (set_tree t) \<longrightarrow> o_t M1 b = o_t M b"
      "\<And>m p. set_tree_root (M1\<lparr>o_t := m\<rparr>) (Some z) p
         = Inr (M\<lparr>o_t := m, o_s := (o_s M)(z \<mapsto> zs\<lparr>zs_tree := p\<rparr>)\<rparr>)"
  proof (cases c)
    case Nil
    then show ?thesis
      using that [of "M\<lparr>o_s := (o_s M)(z \<mapsto> zs\<lparr>zs_tree := Some a\<rparr>)\<rparr>"] zs a(1)
      by (simp add: set_tloc_def set_tree_root_def update_Some)
  next
    case (Cons f c0)
    obtain d p s where f: "f = (d, p, s)" by (cases f)
    have at: "tree_at (o_t M) (zs_tree zs) None (plug Leaf ((d, p, s) # c0))" using tr pl Cons f by simp
    then obtain n where n: "o_t M p = Some n"
      using tree_at_hole [of "o_t M" "zs_tree zs" "if d then Leaf else s" p "if d then s else Leaf" c0]
      by (auto simp: fill_def split: if_splits)
    have p: "a \<noteq> p" "p \<in> set_tree t"
      using a(2) set_plug [of Leaf c] pl unfolding Cons f by auto
    let ?m = "(o_t M)(p \<mapsto> if d then n\<lparr>a_left := Some a\<rparr> else n\<lparr>a_right := Some a\<rparr>)"
    have "ctx_at (?m(a \<mapsto> avl_node\<lparr>a_parent := Some p\<rparr>)) ((d, p, s) # c0) a (Some p)"
      using at dist a(2) pl Cons f n by (intro link_new [of "o_t M" "zs_tree zs"]) auto
    moreover have "set_tloc M (hole_loc z c) (Some a) = Inr (M\<lparr>o_t := ?m\<rparr>)"
      using n by (simp add: Cons f set_tloc_def update_Some)
    moreover have "set_tree_root (M\<lparr>o_t := ?m, o_t := m\<rparr>) (Some z) q
         = Inr (M\<lparr>o_t := m, o_s := (o_s M)(z \<mapsto> zs\<lparr>zs_tree := q\<rparr>)\<rparr>)" for m q
      using zs by (simp add: set_tree_root_def update_Some)
    ultimately show ?thesis
      using that [of "M\<lparr>o_t := ?m\<rparr>"] a(1) p by (simp add: Cons f del: ctx_at.simps hole_loc.simps)
  qed
  let ?m2 = "(o_t M1)(a \<mapsto> avl_node\<lparr>a_parent := hole_par c\<rparr>)"
  have "node_at ?m2 a (hole_par c) Leaf Leaf" by (simp add: node_at_def avl_node_def)
  moreover have "tree_add M (Some z) (Some a) = bindr (avl_fix (o_fuel M) ?m2 (Some a)) (\<lambda>(m, p).
      Inr (M\<lparr>o_t := m, o_s := (o_s M)(z \<mapsto> zs\<lparr>zs_tree := p\<rparr>)\<rparr>))"
    using zs tf M1(1,2,5)
    by (cases "avl_fix (o_fuel M) ?m2 (Some a)") (auto simp: tree_add_def load_Some update_Some)
  ultimately show ?thesis using that [of ?m2] M1(3,4) fuel by simp
qed

lemma tree_add_spec:
  assumes zs: "o_s M z = Some zs" and tr: "tree_at (o_t M) (zs_tree zs) None t"
    and a: "o_t M a = Some avl_node" "a \<notin> set_tree t" and sc: "members_at M sc (insert a (set_tree t))"
    and dist: "distinct (inorder t)" and small: "size t < 2 ^ 30"
    and brk: "\<forall>b \<in> insert a (set_tree t). b < h_brk (o_h M)"
    and ok: "path_ok (Node Leaf a Leaf) (search_ctx (below sc a) t [])"
    and sort: "sorted_wrt (\<lambda>b b'. below sc a b \<longrightarrow> below sc a b') (inorder t)"
  shows "\<exists>m p t'. tree_add M (Some z) (Some a)
      = Inr (M\<lparr>o_t := m, o_s := (o_s M)(z \<mapsto> zs\<lparr>zs_tree := p\<rparr>)\<rparr>) \<and> tree_at m p None t' \<and> avl t' \<and>
    inorder t' = takeWhile (\<lambda>b. \<not> below sc a b) (inorder t) @ a # dropWhile (\<lambda>b. \<not> below sc a b) (inorder t) \<and>
    (\<forall>b. b \<notin> insert a (set_tree t) \<longrightarrow> m b = o_t M b)"
proof -
  let ?c = "search_ctx (below sc a) t []" and ?new = "Node Leaf a Leaf"
  have pl: "plug Leaf ?c = t" by (simp add: search_ctx_plug)
  have io: "inorder (plug ?new ?c)
      = takeWhile (\<lambda>b. \<not> below sc a b) (inorder t) @ a # dropWhile (\<lambda>b. \<not> below sc a b) (inorder t)"
    using search_ctx_inorder [OF sort, of "[]" "[]" "[]" ?new] by simp
  have mid: "distinct (xs @ ys) \<Longrightarrow> a \<notin> set (xs @ ys) \<Longrightarrow> distinct (xs @ a # ys)" for xs ys by auto
  have d: "distinct (inorder (plug ?new ?c))"
    unfolding io by (rule mid) (use dist a(2) in simp_all)
  have "size (plug ?new ?c) = Suc (size t)"
    using arg_cong [OF io, of length] arg_cong [OF takeWhile_dropWhile_id [of "\<lambda>b. \<not> below sc a b" "inorder t"], of length]
    by (simp only: length_inorder length_append list.size)
  then have sz: "size (plug ?new ?c) < 2 ^ 31" using small by simp
  obtain m2 where M: "tree_add M (Some z) (Some a) = bindr (avl_fix (o_fuel M) m2 (Some a)) (\<lambda>(m, p).
        Inr (M\<lparr>o_t := m, o_s := (o_s M)(z \<mapsto> zs\<lparr>zs_tree := p\<rparr>)\<rparr>))"
      "ctx_at m2 ?c a (hole_par ?c)" "node_at m2 a (hole_par ?c) Leaf Leaf"
      "\<forall>b. b \<notin> insert a (set_tree t) \<longrightarrow> m2 b = o_t M b" "size t < o_fuel M"
    by (rule tree_add_links [OF zs tr a sc dist brk refl])
  have len: "length ?c < o_fuel M" using length_ctx [of ?c Leaf] pl M(5) by simp
  from avl_fix_path [OF M(3,2) ok d sz len] obtain m p t' where
      fx: "avl_fix (o_fuel M) m2 (Some a) = Inr (m, p)" "balanced_to m2 None (plug ?new ?c) m p t'"
    by blast
  have "m b = o_t M b" if "b \<notin> insert a (set_tree t)" for b
    using fx(2) M(4) that set_plug [of ?new ?c] set_plug [of Leaf ?c] pl by (simp add: balanced_to_def)
  then show ?thesis
    using fx M(1) io by (intro exI [of _ m] exI [of _ p] exI [of _ t']) (simp add: balanced_to_def)
qed

text \<open>A new element among sorted ones: after those not above it.\<close>

lemma sorted_insert:
  assumes "sorted_wrt (below sc) xs" and "\<forall>b \<in> insert a (set xs). \<not> dbl_nan (zn_score (sc b))"
    and "\<forall>b \<in> set xs. zn_name (sc b) \<noteq> zn_name (sc a)"
  shows "sorted_wrt (below sc) (takeWhile (\<lambda>b. \<not> below sc a b) xs @ a # dropWhile (\<lambda>b. \<not> below sc a b) xs)"
proof -
  let ?lt = "below sc a" and ?xs = "takeWhile (\<lambda>b. \<not> below sc a b) xs"
    and ?ys = "dropWhile (\<lambda>b. \<not> below sc a b) xs"
  have up: "sorted_wrt (\<lambda>b b'. ?lt b \<longrightarrow> ?lt b') xs"
    using assms(1,2) by (intro sorted_below(2)) simp_all
  have "below sc b a" if "b \<in> set ?xs" for b
    using set_takeWhileD [OF that] assms(2,3) lexordp_linear [of "zn_name (sc a)" "zn_name (sc b)"]
    by (auto simp: zless_nodes_eq)
  moreover have "?lt b" if b: "b \<in> set ?ys" for b
  proof -
    obtain c cs where c: "?ys = c # cs" using b by (cases ?ys) auto
    then have "?lt c" using hd_dropWhile [of "\<lambda>b. \<not> ?lt b" xs] by simp
    moreover have "sorted_wrt (\<lambda>b b'. ?lt b \<longrightarrow> ?lt b') (?xs @ c # cs)"
      using up takeWhile_dropWhile_id [of "\<lambda>b. \<not> ?lt b" xs] c by simp
    then have "\<forall>b' \<in> set cs. ?lt c \<longrightarrow> ?lt b'" unfolding sorted_wrt_append sorted_wrt.simps by blast
    moreover have "b = c \<or> b \<in> set cs" using b unfolding c by simp
    ultimately show ?thesis by blast
  qed
  moreover have "sorted_wrt (below sc) (?xs @ ?ys)" using assms(1) by simp
  ultimately show ?thesis
    unfolding sorted_wrt_append sorted_wrt.simps set_simps by blast
qed

section \<open>Properties, continued\<close>

text \<open>
  C32.  \<open>zset_query\<close> with the empty name returns the first member, in the order of the set, that is not
  below the given score, and none when all are below; its loop takes no more turns than the tree is high, and one to
  stop.  With any other name it writes outside the node on its stack.
\<close>

theorem zset_query_first:
  assumes "o_s M z = Some zs" and "tree_at (o_t M) (zs_tree zs) None t" and "members_at M sc (set_tree t)"
    and "distinct (inorder t)" and "\<forall>a \<in> set_tree t. a < h_brk (o_h M)"
    and "sorted_wrt (\<lambda>a b. zless_nodes (sc a) (sc b)) (inorder t)"
    and "\<forall>a \<in> set_tree t. \<not> dbl_nan (zn_score (sc a))" and "\<not> dbl_nan score"
  shows "zset_query M (Some z) score name =
    (if name = [] then Inr (find (\<lambda>b. \<not> zless_nodes (sc b) \<lparr>zn_score = score, zn_name = []\<rparr>) (inorder t))
     else Inl OutOfBounds) \<and>
    query_loop (height t + 1) M \<lparr>zn_score = score, zn_name = []\<rparr> (zs_tree zs) None =
      Inr (find (\<lambda>b. \<not> zless_nodes (sc b) \<lparr>zn_score = score, zn_name = []\<rparr>) (inorder t))"
proof -
  let ?x = "\<lparr>zn_score = score, zn_name = []\<rparr>"
  have "sorted_wrt (\<lambda>a b. zless_nodes (sc b) ?x \<longrightarrow> zless_nodes (sc a) ?x) (inorder t)"
    using assms(6-8) by (intro sorted_below(1)) simp_all
  then have loop: "query_loop fuel M ?x (zs_tree zs) None = Inr (find (\<lambda>b. \<not> zless_nodes (sc b) ?x) (inorder t))"
    if "height t < fuel" for fuel
    using query_loop_spec [OF assms(2,3) that] by (simp split: option.splits)
  have "height t < o_fuel M" using tree_fuel [OF assms(4,5)] height_le_size_tree [of t] by simp
  from loop [OF this] have "name = [] \<Longrightarrow> zset_query M (Some z) score name = Inr (find (\<lambda>b. \<not> zless_nodes (sc b) ?x) (inorder t))"
    using assms(1) by (simp add: zset_query_def load_Some)
  moreover have "name \<noteq> [] \<Longrightarrow> zset_query M (Some z) score name = Inl OutOfBounds" by (simp add: zset_query_def)
  ultimately show ?thesis using loop [of "height t + 1"] by simp
qed

abbreviation demo_row_tree :: "addr tree" where
  "demo_row_tree \<equiv> Node Leaf 1 (Node Leaf 2 (Node Leaf 3 Leaf))"

lemma demo_row_members:
  "members_at demo_row_objs (\<lambda>a. the (o_z demo_row_objs a)) (set_tree demo_row_tree)"
  "sorted_wrt (\<lambda>a b. zless_nodes (the (o_z demo_row_objs a)) (the (o_z demo_row_objs b))) (inorder demo_row_tree)"
  "\<forall>a \<in> set_tree demo_row_tree. \<not> dbl_nan (zn_score (the (o_z demo_row_objs a)))"
proof -
  have "zless_nodes (the (o_z demo_row_objs 1)) (the (o_z demo_row_objs 2))"
       "zless_nodes (the (o_z demo_row_objs 1)) (the (o_z demo_row_objs 3))"
       "zless_nodes (the (o_z demo_row_objs 2)) (the (o_z demo_row_objs 3))" by code_simp+
  then show "sorted_wrt (\<lambda>a b. zless_nodes (the (o_z demo_row_objs a)) (the (o_z demo_row_objs b))) (inorder demo_row_tree)"
    by simp
  have "\<not> dbl_nan 0x3FF0000000000000" "\<not> dbl_nan 0x4000000000000000" by code_simp+
  then show "\<forall>a \<in> set_tree demo_row_tree. \<not> dbl_nan (zn_score (the (o_z demo_row_objs a)))"
    by (simp add: demo_row_objs_def)
qed (simp add: members_at_def demo_row_objs_def)

theorem zset_query_first_witness:
  "zset_query demo_row_objs (Some 9) 0x4000000000000000 [] = Inr (Some 3) \<and>
   zset_query demo_row_objs (Some 9) 0x4000000000000000 [97] = Inl OutOfBounds"
proof -
  let ?sc = "\<lambda>a. the (o_z demo_row_objs a)"
  have f: "find (\<lambda>b. \<not> zless_nodes (?sc b) \<lparr>zn_score = 0x4000000000000000, zn_name = []\<rparr>) [1, 2, 3] = Some 3"
    by code_simp
  have nan: "\<not> dbl_nan 0x4000000000000000" by code_simp
  have zs: "o_s demo_row_objs 9 = Some \<lparr>zs_tree = Some 1, zs_hmap = empty_map\<rparr>" by (simp add: demo_row_objs_def)
  have at: "tree_at (o_t demo_row_objs) (zs_tree \<lparr>zs_tree = Some 1, zs_hmap = empty_map\<rparr>) None demo_row_tree"
    using demo_row_objs_at by simp
  note Q = zset_query_first [OF zs at demo_row_members(1) _ _ demo_row_members(2,3) nan]
  show ?thesis using Q [of "[]"] Q [of "[97]"] f by (simp add: demo_row_objs_def del: query_loop.simps)
qed

text \<open>
  C30.  \<open>tree_add\<close> puts a new member in its place: into a set ordered by \<open>zless\<close>, whose names differ
  from the new one and whose scores are no NaN, it links the node so that the set stays ordered and
  holds exactly the old members and the new one, and leaves a balanced tree; when every node on
  the way to its place is balanced and only the root needs a rotation.
\<close>

theorem tree_add_places:
  assumes "o_s M z = Some zs" and "tree_at (o_t M) (zs_tree zs) None t"
    and "o_t M a = Some avl_node" and "a \<notin> set_tree t" and "members_at M sc (insert a (set_tree t))"
    and "distinct (inorder t)" and "size t < 2 ^ 30" and "\<forall>b \<in> insert a (set_tree t). b < h_brk (o_h M)"
    and "sorted_wrt (\<lambda>a b. zless_nodes (sc a) (sc b)) (inorder t)"
    and "\<forall>b \<in> insert a (set_tree t). \<not> dbl_nan (zn_score (sc b))"
    and "\<forall>b \<in> set_tree t. zn_name (sc b) \<noteq> zn_name (sc a)"
    and "path_ok (Node Leaf a Leaf) (search_ctx (\<lambda>b. zless_nodes (sc a) (sc b)) t [])"
  shows "\<exists>m p t'. tree_add M (Some z) (Some a)
      = Inr (M\<lparr>o_t := m, o_s := (o_s M)(z \<mapsto> zs\<lparr>zs_tree := p\<rparr>)\<rparr>) \<and> tree_at m p None t' \<and> avl t' \<and>
    sorted_wrt (\<lambda>a b. zless_nodes (sc a) (sc b)) (inorder t') \<and> mset (inorder t') = add_mset a (mset (inorder t))"
proof -
  have up: "sorted_wrt (\<lambda>b b'. below sc a b \<longrightarrow> below sc a b') (inorder t)"
    using assms(9,10) by (intro sorted_below(2)) simp_all
  obtain m p t' where T: "tree_add M (Some z) (Some a)
      = Inr (M\<lparr>o_t := m, o_s := (o_s M)(z \<mapsto> zs\<lparr>zs_tree := p\<rparr>)\<rparr>)" "tree_at m p None t'" "avl t'"
      "inorder t' = takeWhile (\<lambda>b. \<not> below sc a b) (inorder t) @ a # dropWhile (\<lambda>b. \<not> below sc a b) (inorder t)"
    using tree_add_spec [OF assms(1-8,12) up] by blast
  moreover have "sorted_wrt (below sc) (inorder t')"
    using assms(9-11) unfolding T(4) by (intro sorted_insert) simp_all
  moreover have "mset (inorder t')
      = add_mset a (mset (takeWhile (\<lambda>b. \<not> below sc a b) (inorder t) @ dropWhile (\<lambda>b. \<not> below sc a b) (inorder t)))"
    unfolding T(4) by (simp del: takeWhile_dropWhile_id)
  then have "mset (inorder t') = add_mset a (mset (inorder t))" by simp
  ultimately show ?thesis by blast
qed

text \<open>Three members and a fourth, not yet linked, that goes to the end.\<close>

definition demo_add_objs :: objs where
  "demo_add_objs = demo_row_objs
     \<lparr>o_t := [1 \<mapsto> \<lparr>a_depth = 1, a_count = 1, a_left = None, a_right = None, a_parent = Some 2\<rparr>,
        2 \<mapsto> \<lparr>a_depth = 2, a_count = 3, a_left = Some 1, a_right = Some 3, a_parent = None\<rparr>,
        3 \<mapsto> \<lparr>a_depth = 1, a_count = 1, a_left = None, a_right = None, a_parent = Some 2\<rparr>, 4 \<mapsto> avl_node],
      o_h := \<lparr>h_arrs = Map.empty, h_nodes = Map.empty, h_brk = 5\<rparr>,
      o_z := (o_z demo_row_objs)(4 \<mapsto> \<lparr>zn_score = 0x4010000000000000, zn_name = [100]\<rparr>),
      o_s := [9 \<mapsto> \<lparr>zs_tree = Some 2, zs_hmap = empty_map\<rparr>]\<rparr>"

abbreviation demo_add_tree :: "addr tree" where
  "demo_add_tree \<equiv> Node (Node Leaf 1 Leaf) 2 (Node Leaf 3 Leaf)"

abbreviation demo_sc :: "addr \<Rightarrow> ZNode" where
  "demo_sc a \<equiv> the (o_z demo_add_objs a)"

lemma demo_add_at: "tree_at (o_t demo_add_objs) (Some 2) None demo_add_tree"
  by (simp add: demo_add_objs_def demo_row_objs_def)

lemma demo_add_members:
  "members_at demo_add_objs demo_sc (insert 4 (set_tree demo_add_tree))"
  "sorted_wrt (below demo_sc) (inorder demo_add_tree)"
  "\<forall>b \<in> insert 4 (set_tree demo_add_tree). \<not> dbl_nan (zn_score (demo_sc b))"
  "\<forall>b \<in> set_tree demo_add_tree. zn_name (demo_sc b) \<noteq> zn_name (demo_sc 4)"
  "path_ok (Node Leaf 4 Leaf) (search_ctx (below demo_sc 4) demo_add_tree [])"
proof -
  have "below demo_sc 1 2" "below demo_sc 1 3" "below demo_sc 2 3" "\<not> below demo_sc 4 2" "\<not> below demo_sc 4 3"
    by code_simp+
  then show "sorted_wrt (below demo_sc) (inorder demo_add_tree)"
      "path_ok (Node Leaf 4 Leaf) (search_ctx (below demo_sc 4) demo_add_tree [])"
    by (simp_all add: fill_def bal2_def)
  have "\<not> dbl_nan 0x3FF0000000000000" "\<not> dbl_nan 0x4000000000000000" "\<not> dbl_nan 0x4010000000000000"
    by code_simp+
  then show "\<forall>b \<in> insert 4 (set_tree demo_add_tree). \<not> dbl_nan (zn_score (demo_sc b))"
    by (simp add: demo_add_objs_def demo_row_objs_def)
qed (simp_all add: members_at_def demo_add_objs_def demo_row_objs_def)

theorem tree_add_places_witness:
  "\<exists>m p t'. tree_add demo_add_objs (Some 9) (Some 4) = Inr (demo_add_objs\<lparr>o_t := m,
       o_s := (o_s demo_add_objs)(9 \<mapsto> \<lparr>zs_tree = p, zs_hmap = empty_map\<rparr>)\<rparr>) \<and>
     tree_at m p None t' \<and> avl t' \<and> mset (inorder t') = add_mset 4 (mset (inorder demo_add_tree))"
proof -
  have zs: "o_s demo_add_objs 9 = Some \<lparr>zs_tree = Some 2, zs_hmap = empty_map\<rparr>"
    by (simp add: demo_add_objs_def)
  have at: "tree_at (o_t demo_add_objs) (zs_tree \<lparr>zs_tree = Some 2, zs_hmap = empty_map\<rparr>) None demo_add_tree"
    using demo_add_at by simp
  have p: "o_t demo_add_objs 4 = Some avl_node" "4 \<notin> set_tree demo_add_tree" "distinct (inorder demo_add_tree)"
      "size demo_add_tree < 2 ^ 30" "\<forall>b \<in> insert 4 (set_tree demo_add_tree). b < h_brk (o_h demo_add_objs)"
    by (simp_all add: demo_add_objs_def)
  from tree_add_places [OF zs at p(1,2) demo_add_members(1) p(3-5) demo_add_members(2-5)]
  show ?thesis unfolding ZSet.update_convs by blast
qed

end
