(* ===== verification/ZSet_Members.thy ===== *)
theory ZSet_Members
  imports ZSets
begin

text \<open>
  What the members of a sorted set need of the hash map: the comparison of names in \<open>hcmp\<close>, and a deletion whose
  comparison faults.
\<close>

section \<open>Comparing names\<close>

lemma memcmp_eq: "length a = length b \<Longrightarrow> memcmp a b (length b) = 0 \<longleftrightarrow> a = b"
proof (induction a arbitrary: b)
  case (Cons x xs)
  then show ?case by (cases b) auto
qed simp

section \<open>A deletion whose comparison faults\<close>

lemma hwalk_fault:
  assumes "get_loc m loc = Inr p" and "chain m p ys" and "length ys < fuel"
    and "\<exists>y \<in> set ys. code_at m y = code" and "\<forall>y \<in> set ys. code_at m y = code \<longrightarrow> eq y = Inl e"
  shows "hwalk fuel m code eq loc = Inl e"
  using assms
proof (induction ys arbitrary: fuel loc p)
  case (Cons y ys)
  then obtain f n where f: "fuel = Suc f" "length ys < f" and n: "p = Some y" "h_nodes m y = Some n"
      "chain m (h_next n) ys"
    by (cases fuel) auto
  have "get_loc m (NextOf y) = Inr (h_next n)" using n(2) by (simp add: get_loc_def load_Some)
  from Cons.IH [OF this n(3) f(2)] show ?case
    using Cons.prems(1,4,5) f(1) n by (auto simp: load_Some)
qed simp

lemma hlookup_fault:
  assumes "tab_shape m ht bs" and "x \<in> set (concat bs)" and "code_at m x = code"
    and "\<forall>y \<in> set (concat bs). code_at m y = code \<longrightarrow> eq y = Inl e"
  shows "hlookup m ht code eq = Inl e"
proof -
  have "tab ht \<noteq> None" using assms(1,2) tab_shape_None by fastforce
  then obtain a where a: "tab ht = Some a" by auto
  let ?i = "bucket ht code"
  have i: "?i < length bs" using assms(1) a by (intro bucket_less) auto
  obtain ps where slot: "get_loc m (Slot a ?i) = Inr (ps ! ?i)" "chain m (ps ! ?i) (bs ! ?i)"
    using tab_shape_slot [OF assms(1) i] a by auto
  have "distinct (bs ! ?i)" using tab_shape_distinct [OF assms(1)] by (simp add: concat_nth_split [OF i])
  then have "length (bs ! ?i) < Suc (h_brk m)"
    using distinct_bounded_length [of "bs ! ?i" "h_brk m"] tab_shape_brk [OF assms(1) i]
    by (simp add: less_Suc_eq_le)
  moreover have "x \<in> set (bs ! ?i)" using tab_shape_in_bucket [OF assms(1,2)] assms(3) by simp
  moreover have "\<forall>y \<in> set (bs ! ?i). code_at m y = code \<longrightarrow> eq y = Inl e"
    using assms(4) nth_in_concat [OF i] by blast
  ultimately have "hwalk (Suc (h_brk m)) m code eq (Slot a ?i) = Inl e"
    using assms(3) by (intro hwalk_fault [OF slot]) auto
  then show ?thesis using a by (simp add: hlookup_def)
qed

lemma hm_delete_fault:
  assumes "hm_ok m hm bs1 bs2" and "x \<in> set (nodes_of bs1 bs2)" and "code_at m x = code"
    and "\<forall>y \<in> set (nodes_of bs1 bs2). eq y = Inl e"
  shows "hm_delete m hm code eq = Inl e"
proof -
  have "hm_rep m hm bs1 bs2" "load_pre bs1 bs2" using assms(1) load_ok_pre by (auto simp: hm_ok_def)
  then obtain m1 hm1 c1 c2 where H: "hm_help_resizing m hm = Inr (m1, hm1)" "hm_ok m1 hm1 c1 c2"
      "mset (nodes_of c1 c2) = mset (nodes_of bs1 bs2)" "frame (set (nodes_of bs1 bs2)) (tabs hm) m m1"
    using hm_help_resizing_ok by metis
  have "hm_shape m1 hm1 c1 c2" using H(2) by (auto simp: hm_ok_def hm_rep_def)
  note S = hm_shapeD [OF this]
  have nodes: "set (concat c1) \<union> set (concat c2) = set (nodes_of bs1 bs2)"
    using mset_eq_setD [OF H(3)] by simp
  have code: "code_at m1 = code_at m" using frame_code [OF H(4)] by (simp add: fun_eq_iff)
  have eq: "\<forall>y \<in> set (concat c1). eq y = Inl e" "\<forall>y \<in> set (concat c2). eq y = Inl e"
    using assms(4) nodes by blast+
  show ?thesis
  proof (cases "\<exists>y \<in> set (concat c1). code_at m1 y = code")
    case True
    then obtain y where "y \<in> set (concat c1)" "code_at m1 y = code" by blast
    then have "hlookup m1 (ht1 hm1) code eq = Inl e" using eq(1) by (intro hlookup_fault [OF S(1)]) auto
    then show ?thesis using H(1) by (simp add: hm_delete_def)
  next
    case False
    then have "hlookup m1 (ht1 hm1) code eq = Inr None"
      using hlookup_find [OF S(1), of code eq "\<lambda>_. False"] by (auto simp: matches_def find_None_iff find_Some_iff)
    moreover have "x \<notin> set (concat c1)" using False assms(3) code by metis
    then have "x \<in> set (concat c2)" using assms(2) nodes by blast
    then have "hlookup m1 (ht2 hm1) code eq = Inl e"
      using eq(2) assms(3) code by (intro hlookup_fault [OF S(2)]) auto
    ultimately show ?thesis using H(1) by (simp add: hm_delete_def)
  qed
qed

end
