(* ===== verification/Commands.thy ===== *)
theory Commands
  imports ZSets Timer_Heap Serialisation Protocol
begin

text \<open>
  The commands of the server (\<open>do_request\<close> and the \<open>do_*\<close> functions of \<open>common.cpp\<close>) on its global state.
  A command appends its reply to \<open>out\<close> and returns a result code; a C++ exception that nobody
  catches is the fault \<open>Uncaught\<close>.
\<close>

unbundle bit_operations_syntax

section \<open>Global state\<close>

text \<open>
  The part of \<open>g_data\<close> the commands work on: the objects, the database, the timer heap (the indices
  its items refer to are with the objects), and the entries queued for the thread pool.  \<open>g_clock\<close>
  holds the readings of \<open>CLOCK_MONOTONIC\<close> in microseconds, \<open>g_tick\<close> how many have been taken.
\<close>

record gdata =
  g_M :: objs
  g_db :: HMap
  g_heap :: heap
  g_jobs :: "addr list"
  g_clock :: "nat \<Rightarrow> u64"
  g_tick :: nat

definition get_monotonic_usec :: "gdata \<Rightarrow> u64 \<times> gdata" where
  "get_monotonic_usec g = (g_clock g (g_tick g), g\<lparr>g_tick := g_tick g + 1\<rparr>)"

definition RES_OK :: u32 where
  "RES_OK = 0"

definition RES_ERR :: u32 where
  "RES_ERR = 1"

definition RES_NX :: u32 where
  "RES_NX = 2"

text \<open>A string literal of the code.\<close>

definition lit :: "string \<Rightarrow> bytes" where
  "lit s = map of_char s"

type_synonym cmd_res = "(gdata \<times> u32 \<times> bytes) res"

section \<open>Entries\<close>

definition entry_new :: "objs \<Rightarrow> Entry \<Rightarrow> u64 \<Rightarrow> objs \<times> addr" where
  "entry_new M e code =
     (let a = fresh M; h = o_h M in
      (M\<lparr>o_h := h\<lparr>h_nodes := (h_nodes h)(a \<mapsto> \<lparr>h_next = None, h_code = code\<rparr>), h_brk := a + 1\<rparr>,
         o_e := (o_e M)(a \<mapsto> e), o_idx := (o_idx M)(a \<mapsto> - 1)\<rparr>, a))"

definition zset_new :: "objs \<Rightarrow> objs \<times> addr" where
  "zset_new M =
     (let a = fresh M in
      (M\<lparr>o_h := (o_h M)\<lparr>h_brk := a + 1\<rparr>,
         o_s := (o_s M)(a \<mapsto> \<lparr>zs_tree = None, zs_hmap = empty_map\<rparr>)\<rparr>, a))"

definition entry_free :: "objs \<Rightarrow> addr \<Rightarrow> objs res" where
  "entry_free M ent =
     bindr (load (o_e M) (Some ent)) (\<lambda>_.
     Inr (M\<lparr>o_h := (o_h M)\<lparr>h_nodes := (h_nodes (o_h M))(ent := None)\<rparr>,
            o_e := (o_e M)(ent := None), o_idx := (o_idx M)(ent := None)\<rparr>))"

definition threaded_zset_destructor :: "objs \<Rightarrow> addr \<Rightarrow> objs res" where
  "threaded_zset_destructor M ent =
     bindr (load (o_e M) (Some ent)) (\<lambda>e.
     if e_zset e \<noteq> None then
       bindr (zset_destroy M (e_zset e)) (\<lambda>M1.
       let M2 = M1\<lparr>o_s := (o_s M1)(the (e_zset e) := None)\<rparr> in
       bindr (update (o_e M2) (Some ent) (\<lambda>e. e\<lparr>e_zset := None\<rparr>)) (\<lambda>es.
       entry_free (M2\<lparr>o_e := es\<rparr>) ent))
     else entry_free M ent)"

definition entry_del :: "gdata \<Rightarrow> addr \<Rightarrow> gdata res" where
  "entry_del g ent =
     bindr (load (o_e (g_M g)) (Some ent)) (\<lambda>e.
     if e_type e = 1 \<and> e_zset e \<noteq> None then Inr (g\<lparr>g_jobs := g_jobs g @ [ent]\<rparr>)
     else bindr (entry_free (g_M g) ent) (\<lambda>M. Inr (g\<lparr>g_M := M\<rparr>)))"

text \<open>The lines every command starts with: a key on the stack, its hash, the lookup in the database.\<close>

definition db_lookup :: "gdata \<Rightarrow> bytes \<Rightarrow> (gdata \<times> ptr) res" where
  "db_lookup g key =
     bindr (hm_lookup (o_h (g_M g)) (g_db g) (str_hash key) (entry_eq (g_M g) (Inr key))) (\<lambda>(h, hm, node).
     Inr (g\<lparr>g_M := (g_M g)\<lparr>o_h := h\<rparr>, g_db := hm\<rparr>, node))"

section \<open>Strings\<close>

definition do_get :: "gdata \<Rightarrow> bytes list \<Rightarrow> bytes \<Rightarrow> cmd_res" where
  "do_get g cmd out =
     bindr (aget cmd 1) (\<lambda>key.
     bindr (db_lookup g key) (\<lambda>(g1, node).
     if node = None then Inr (g1, RES_NX, out_int out (ucast RES_NX))
     else
       bindr (load (o_e (g_M g1)) node) (\<lambda>e.
       bindr (checkr AssertFailed (length (e_val e) \<le> k_max_msg)) (\<lambda>_.
       Inr (g1, RES_OK, out_str out (e_val e))))))"

definition do_set :: "gdata \<Rightarrow> bytes list \<Rightarrow> bytes \<Rightarrow> cmd_res" where
  "do_set g cmd out =
     bindr (aget cmd 1) (\<lambda>key.
     bindr (aget cmd 2) (\<lambda>val.
     let (M, a) = entry_new (g_M g) \<lparr>e_key = key, e_val = val, e_type = 0, e_zset = None\<rparr> (str_hash key) in
     bindr (hm_insert (o_h M) (g_db g) (Some a)) (\<lambda>(h, hm).
     Inr (g\<lparr>g_M := M\<lparr>o_h := h\<rparr>, g_db := hm\<rparr>, RES_OK, out_int out (ucast RES_OK)))))"

definition do_del :: "gdata \<Rightarrow> bytes list \<Rightarrow> bytes \<Rightarrow> cmd_res" where
  "do_del g cmd out =
     bindr (aget cmd 1) (\<lambda>key.
     bindr (hm_delete (o_h (g_M g)) (g_db g) (str_hash key) (entry_eq (g_M g) (Inr key))) (\<lambda>(h, hm, node).
     let g1 = g\<lparr>g_M := (g_M g)\<lparr>o_h := h\<rparr>, g_db := hm\<rparr> in
     bindr (case node of None \<Rightarrow> Inr g1 | Some a \<Rightarrow> entry_del g1 a) (\<lambda>g2.
     Inr (g2, RES_OK, out_int out (if node \<noteq> None then 1 else 0)))))"

definition cb_scan :: "objs \<Rightarrow> addr \<Rightarrow> bytes \<Rightarrow> bytes res" where
  "cb_scan M node out = bindr (load (o_e M) (Some node)) (\<lambda>e. Inr (out_str out (e_key e)))"

definition do_keys :: "gdata \<Rightarrow> bytes list \<Rightarrow> bytes \<Rightarrow> cmd_res" where
  "do_keys g cmd out =
     (let h = o_h (g_M g) in
      bindr (h_scan h (ht1 (g_db g)) (cb_scan (g_M g)) (out_arr out (ucast (hm_size (g_db g))))) (\<lambda>out1.
      bindr (h_scan h (ht2 (g_db g)) (cb_scan (g_M g)) out1) (\<lambda>out2.
      Inr (g, RES_OK, out2))))"

section \<open>Sorted sets\<close>

definition do_zadd :: "gdata \<Rightarrow> bytes list \<Rightarrow> bytes \<Rightarrow> cmd_res" where
  "do_zadd g cmd out =
     (if length cmd \<noteq> 4 then
        Inr (g, RES_ERR, out_err out RES_ERR (lit ''Usage: zadd <key> <score> <name>''))
      else
        bindr (case stod (cmd ! 2) of None \<Rightarrow> Inl Uncaught | Some d \<Rightarrow> Inr d) (\<lambda>score.
        bindr (db_lookup g (cmd ! 1)) (\<lambda>(g1, node).
        bindr (case node of
            None \<Rightarrow>
              let (M1, a) = entry_new (g_M g1) \<lparr>e_key = cmd ! 1, e_val = [], e_type = 1, e_zset = None\<rparr>
                              (str_hash (cmd ! 1));
                  (M2, z) = zset_new M1;
                  M3 = M2\<lparr>o_e := (o_e M2)(a \<mapsto> \<lparr>e_key = cmd ! 1, e_val = [], e_type = 1, e_zset = Some z\<rparr>)\<rparr> in
              bindr (hm_insert (o_h M3) (g_db g1) (Some a)) (\<lambda>(h, hm).
              Inr (g1\<lparr>g_M := M3\<lparr>o_h := h\<rparr>, g_db := hm\<rparr>, a))
          | Some a \<Rightarrow> Inr (g1, a)) (\<lambda>(g2, entry).
        bindr (load (o_e (g_M g2)) (Some entry)) (\<lambda>e.
        bindr (zset_add (g_M g2) (e_zset e) (cmd ! 3) score) (\<lambda>(M, added).
        Inr (g2\<lparr>g_M := M\<rparr>, RES_OK, out_int out (if added then 1 else 0))))))))"

definition do_zscore :: "gdata \<Rightarrow> bytes list \<Rightarrow> bytes \<Rightarrow> cmd_res" where
  "do_zscore g cmd out =
     (if length cmd \<noteq> 3 then
        Inr (g, RES_ERR, out_err out RES_ERR (lit ''Usage: zscore <key> <name>''))
      else
        bindr (db_lookup g (cmd ! 1)) (\<lambda>(g1, node).
        if node = None then Inr (g1, RES_NX, out_nil out)
        else
          bindr (load (o_e (g_M g1)) node) (\<lambda>e.
          if e_type e \<noteq> 1 \<or> e_zset e = None then Inr (g1, RES_NX, out_nil out)
          else
            bindr (zset_lookup (g_M g1) (e_zset e) (cmd ! 2)) (\<lambda>(M, znode).
            if znode = None then Inr (g1\<lparr>g_M := M\<rparr>, RES_NX, out_nil out)
            else
              bindr (load (o_z M) znode) (\<lambda>z.
              Inr (g1\<lparr>g_M := M\<rparr>, RES_OK, out_dbl out (zn_score z)))))))"

definition do_zrem :: "gdata \<Rightarrow> bytes list \<Rightarrow> bytes \<Rightarrow> cmd_res" where
  "do_zrem g cmd out =
     (if length cmd \<noteq> 3 then
        Inr (g, RES_ERR, out_err out RES_ERR (lit ''Usage: zrem <key> <name>''))
      else
        bindr (db_lookup g (cmd ! 1)) (\<lambda>(g1, node).
        if node = None then Inr (g1, RES_OK, out_int out 0)
        else
          bindr (load (o_e (g_M g1)) node) (\<lambda>e.
          if e_type e \<noteq> 1 \<or> e_zset e = None then Inr (g1, RES_OK, out_int out 0)
          else
            bindr (zset_pop (g_M g1) (e_zset e) (cmd ! 2)) (\<lambda>(M, znode).
            if znode \<noteq> None then
              bindr (znode_del M znode) (\<lambda>M1. Inr (g1\<lparr>g_M := M1\<rparr>, RES_OK, out_int out 1))
            else Inr (g1\<lparr>g_M := M\<rparr>, RES_OK, out_int out 0)))))"

text \<open>The loop of \<open>do_query\<close>, for at most \<open>k\<close> more members.\<close>

fun query_out :: "nat \<Rightarrow> objs \<Rightarrow> ptr \<Rightarrow> bytes \<Rightarrow> bytes res" where
  "query_out 0 M znode out = Inr out"
| "query_out (Suc k) M znode out =
     (if znode = None then Inr out
      else
        bindr (load (o_z M) znode) (\<lambda>z.
        bindr (znode_offset M znode 1) (\<lambda>next.
        query_out k M next (out_dbl (out_str out (zn_name z)) (zn_score z)))))"

definition do_query :: "gdata \<Rightarrow> bytes list \<Rightarrow> bytes \<Rightarrow> cmd_res" where
  "do_query g cmd out =
     (if length cmd \<noteq> 6 then
        Inr (g, RES_ERR, out_err out RES_ERR (lit ''Usage: zquery <key> <score> <name> <offset> <limit>''))
      else
        bindr (db_lookup g (cmd ! 1)) (\<lambda>(g1, node).
        if node = None then Inr (g1, RES_NX, out)
        else
          bindr (load (o_e (g_M g1)) node) (\<lambda>e.
          if e_type e \<noteq> 1 \<or> e_zset e = None then Inr (g1, RES_NX, out)
          else
            bindr (case stod (cmd ! 2) of None \<Rightarrow> Inl Uncaught | Some d \<Rightarrow> Inr d) (\<lambda>score.
            bindr (case stoll (cmd ! 4) of None \<Rightarrow> Inl Uncaught | Some n \<Rightarrow> Inr n) (\<lambda>offset.
            bindr (case stoll (cmd ! 5) of None \<Rightarrow> Inl Uncaught | Some n \<Rightarrow> Inr n) (\<lambda>limit.
            bindr (zset_query (g_M g1) (e_zset e) score (cmd ! 3)) (\<lambda>znode.
            bindr (znode_offset (g_M g1) znode (sint offset)) (\<lambda>first.
            bindr (query_out (unat (ucast limit :: u32)) (g_M g1) first out) (\<lambda>out1.
            Inr (g1, RES_OK, out1))))))))))"

section \<open>Expiry\<close>

definition set_ttl :: "gdata \<Rightarrow> addr \<Rightarrow> u64 \<Rightarrow> gdata res" where
  "set_ttl g ent ttl_ms =
     (let (now, g1) = (if sint ttl_ms \<ge> 0 then get_monotonic_usec g else (0, g)) in
      bindr (entry_set_ttl now ent ttl_ms (g_heap g1, o_idx (g_M g1))) (\<lambda>(hp, idx).
      Inr (g1\<lparr>g_heap := hp, g_M := (g_M g1)\<lparr>o_idx := idx\<rparr>\<rparr>)))"

definition do_expire :: "gdata \<Rightarrow> bytes list \<Rightarrow> bytes \<Rightarrow> cmd_res" where
  "do_expire g cmd out =
     bindr (aget cmd 2) (\<lambda>arg.
     case str2int arg of
       None \<Rightarrow> Inr (g, RES_ERR, out_err out RES_ERR (lit ''expect int64''))
     | Some ttl_ms \<Rightarrow>
         bindr (aget cmd 1) (\<lambda>key.
         bindr (db_lookup g key) (\<lambda>(g1, node).
         bindr (case node of None \<Rightarrow> Inr g1 | Some ent \<Rightarrow> set_ttl g1 ent ttl_ms) (\<lambda>g2.
         Inr (g2, RES_OK, out_int out (if node \<noteq> None then 1 else 0))))))"

definition do_ttl :: "gdata \<Rightarrow> bytes list \<Rightarrow> bytes \<Rightarrow> cmd_res" where
  "do_ttl g cmd out =
     bindr (aget cmd 1) (\<lambda>key.
     bindr (db_lookup g key) (\<lambda>(g1, node).
     if node = None then Inr (g1, RES_OK, out_int out (- 2))
     else
       bindr (load (o_idx (g_M g1)) node) (\<lambda>idx.
       if idx = - 1 then Inr (g1, RES_OK, out_int out (- 1))
       else
         bindr (aget (g_heap g1) (unat idx)) (\<lambda>item.
         let (now_us, g2) = get_monotonic_usec g1 in
         Inr (g2, RES_OK,
              out_int out (if hi_val item > now_us then (hi_val item - now_us) div 1000 else 0))))))"

section \<open>Dispatch\<close>

definition do_request :: "gdata \<Rightarrow> bytes list \<Rightarrow> bytes \<Rightarrow> cmd_res" where
  "do_request g cmd out =
     (if cmd = [] then Inr (g, RES_ERR, out)
      else if cmd ! 0 = lit ''keys'' \<and> length cmd = 1 then do_keys g cmd out
      else if cmd ! 0 = lit ''get'' \<and> length cmd = 2 then do_get g cmd out
      else if cmd ! 0 = lit ''set'' \<and> length cmd = 3 then do_set g cmd out
      else if cmd ! 0 = lit ''del'' \<and> length cmd = 2 then do_del g cmd out
      else if cmd ! 0 = lit ''zadd'' then do_zadd g cmd out
      else if cmd ! 0 = lit ''zscore'' then do_zscore g cmd out
      else if cmd ! 0 = lit ''zrem'' then do_zrem g cmd out
      else if cmd ! 0 = lit ''zquery'' then do_query g cmd out
      else if cmd ! 0 = lit ''expire'' \<and> length cmd = 3 then do_expire g cmd out
      else if cmd ! 0 = lit ''ttl'' \<and> length cmd = 2 then do_ttl g cmd out
      else Inr (g, RES_ERR, out))"

text \<open>The server before its first command.\<close>

definition g_init :: "(nat \<Rightarrow> u64) \<Rightarrow> gdata" where
  "g_init clock =
     \<lparr>g_M = \<lparr>o_h = \<lparr>h_arrs = Map.empty, h_nodes = Map.empty, h_brk = 1\<rparr>, o_t = Map.empty, o_z = Map.empty,
              o_s = Map.empty, o_e = Map.empty, o_idx = Map.empty\<rparr>,
      g_db = empty_map, g_heap = [], g_jobs = [], g_clock = clock, g_tick = 0\<rparr>"

end
