(* ===== verification/Command_Replies.thy ===== *)
theory Command_Replies
  imports Commands
begin

text \<open>
  What every command leaves behind in the reply buffer and as its result code, whatever state the database
  is in.
\<close>

section \<open>Tokens\<close>

text \<open>The pieces a reply is made of; the elements of an array follow its header.\<close>

inductive token :: "bytes \<Rightarrow> bool" where
  "token (out_nil [])"
| "token (out_str [] val)"
| "token (out_int [] n)"
| "token (out_dbl [] d)"
| "token (out_err [] code msg)"
| "token (out_arr [] n)"

definition adds_tokens :: "bytes \<Rightarrow> bytes \<Rightarrow> bool" where
  "adds_tokens out out' \<longleftrightarrow> (\<exists>ts. list_all token ts \<and> out' = out @ concat ts)"

lemma adds_refl [simp]: "adds_tokens out out"
  by (auto simp: adds_tokens_def intro!: exI [of _ "[]"])

lemma adds_trans: "adds_tokens a b \<Longrightarrow> adds_tokens b c \<Longrightarrow> adds_tokens a c"
  unfolding adds_tokens_def by (metis append.assoc concat_append list_all_append)

lemma adds_one: "token t \<Longrightarrow> out' = out @ t \<Longrightarrow> adds_tokens out out'"
  by (auto simp: adds_tokens_def intro!: exI [of _ "[t]"])

lemma adds [simp]:
  "adds_tokens out (out_nil out)" "adds_tokens out (out_str out val)" "adds_tokens out (out_int out n)"
  "adds_tokens out (out_dbl out d)" "adds_tokens out (out_err out code msg)" "adds_tokens out (out_arr out m)"
  by (rule adds_one, rule token.intros, simp add: out_defs Let_def)+

section \<open>Commands\<close>

definition wellformed :: "bytes \<Rightarrow> cmd_res \<Rightarrow> bool" where
  "wellformed out r \<longleftrightarrow> (\<forall>g r' out'. r = Inr (g, r', out') \<longrightarrow>
     r' \<in> {RES_OK, RES_ERR, RES_NX} \<and> adds_tokens out out')"

lemma wf_Inr [simp]: "wellformed out (Inr (g, r, out')) \<longleftrightarrow> r \<in> {RES_OK, RES_ERR, RES_NX} \<and> adds_tokens out out'"
  by (auto simp: wellformed_def)

lemma wf_Inl [simp]: "wellformed out (Inl e)"
  by (simp add: wellformed_def)

lemma wf_bind: "(\<And>x. r = Inr x \<Longrightarrow> wellformed out (f x)) \<Longrightarrow> wellformed out (bindr r f)"
  by (auto simp: wellformed_def bindr_eq_Inr)



text \<open>A scan keeps what its callback keeps.\<close>

definition keeps :: "(addr \<Rightarrow> bytes \<Rightarrow> bytes res) \<Rightarrow> bool" where
  "keeps f \<longleftrightarrow> (\<forall>x s s'. f x s = Inr s' \<longrightarrow> adds_tokens s s')"

lemma keepsD: "keeps f \<Longrightarrow> f x s = Inr s' \<Longrightarrow> adds_tokens s s'"
  by (simp add: keeps_def)

lemma scan_chain_keeps:
  assumes "keeps f"
  shows "h_scan_chain fuel m f p s = Inr s' \<Longrightarrow> adds_tokens s s'"
  by (induction fuel arbitrary: p s)
    (auto simp: bindr_eq_Inr split: option.splits if_splits dest!: keepsD [OF assms] intro: adds_trans)

lemma scan_keeps:
  assumes "keeps f"
  shows "h_scan m ht f s = Inr s' \<Longrightarrow> adds_tokens s s'"
proof -
  have "h_scan_from left i m ht f s = Inr s' \<Longrightarrow> adds_tokens s s'" for left i s
  proof (induction left arbitrary: i s)
    case (Suc left)
    then obtain p s1 where "h_scan_chain (Suc (h_brk m)) m f p s = Inr s1" "h_scan_from left (i + 1) m ht f s1 = Inr s'"
      by (auto simp: bindr_eq_Inr simp del: h_scan_chain.simps)
    then show ?case using Suc.IH scan_chain_keeps [OF assms] adds_trans by blast
  qed simp
  then show "h_scan m ht f s = Inr s' \<Longrightarrow> adds_tokens s s'"
    by (auto simp: h_scan_def split: if_splits)
qed

lemma query_out_adds: "query_out k M znode out = Inr out' \<Longrightarrow> adds_tokens out out'"
proof (induction k arbitrary: znode out)
  case (Suc k)
  show ?case
  proof (cases znode)
    case (Some a)
    then have "\<exists>z :: ZNode. \<exists>nxt. query_out k M nxt (out_dbl (out_str out (zn_name z)) (zn_score z)) = Inr out'"
      using Suc.prems by (auto simp: bindr_eq_Inr)
    then show ?thesis using Suc.IH by (meson adds adds_trans)
  qed (use Suc in simp)
qed simp

lemma do_keys_wf: "wellformed out (do_keys g cmd out)"
proof -
  have "keeps (cb_scan (g_M g))" by (auto simp: keeps_def cb_scan_def bindr_eq_Inr)
  note scan = scan_keeps [OF this]
  show ?thesis
    unfolding do_keys_def Let_def
    by (intro wf_bind) (simp, rule adds_trans [OF adds(6) adds_trans], (erule scan)+)
qed

lemmas command_defs = do_get_def do_set_def do_del_def do_zadd_def do_zscore_def do_zrem_def do_expire_def do_ttl_def

lemma commands_wf:
  "wellformed out (do_get g cmd out)" "wellformed out (do_set g cmd out)" "wellformed out (do_del g cmd out)"
  "wellformed out (do_zadd g cmd out)" "wellformed out (do_zscore g cmd out)" "wellformed out (do_zrem g cmd out)"
  "wellformed out (do_expire g cmd out)" "wellformed out (do_ttl g cmd out)"
  unfolding command_defs
  by (auto simp: Let_def split: option.split prod.splits intro!: wf_bind)

lemma do_query_wf: "wellformed out (do_query g cmd out)"
  unfolding do_query_def
  by (auto simp: Let_def split: option.split prod.splits intro!: wf_bind)
   (erule query_out_adds)



end
