(* ===== verification/Set_Removal.thy ===== *)
theory Set_Removal
  imports Commands
begin

text \<open>
  The end of a sorted set: \<open>threaded_zset_destructor\<close> of \<open>common.cpp\<close>, which a thread of the pool runs, with the
  destructor of \<open>ZSet\<close> and \<open>free_avl_nodes\<close> of \<open>zset.cpp\<close>.
\<close>

section \<open>The nodes of the tree\<close>

definition without_nodes :: "addr set \<Rightarrow> objs \<Rightarrow> objs" where
  "without_nodes X M =
     M\<lparr>o_h := (o_h M)\<lparr>h_nodes := h_nodes (o_h M) |` (- X)\<rparr>, o_t := o_t M |` (- X), o_z := o_z M |` (- X)\<rparr>"

lemma without_nodes_empty [simp]: "without_nodes {} M = M"
  by (simp add: without_nodes_def restrict_map_def)

lemma without_nodes_twice [simp]: "without_nodes X (without_nodes Y M) = without_nodes (X \<union> Y) M"
  by (simp add: without_nodes_def Int_commute)

lemma without_nodes_parts [simp]:
  "o_t (without_nodes X M) a = (if a \<in> X then None else o_t M a)"
  "o_z (without_nodes X M) a = (if a \<in> X then None else o_z M a)"
  "o_e (without_nodes X M) = o_e M" "o_s (without_nodes X M) = o_s M" "o_idx (without_nodes X M) = o_idx M"
  "h_arrs (o_h (without_nodes X M)) = h_arrs (o_h M)" "h_brk (o_h (without_nodes X M)) = h_brk (o_h M)"
  "h_nodes (o_h (without_nodes X M)) = h_nodes (o_h M) |` (- X)"
  by (simp_all add: without_nodes_def restrict_map_def)

lemma znode_del_frees: "o_z M a \<noteq> None \<Longrightarrow> znode_del M (Some a) = Inr (without_nodes {a} M)"
  by (auto simp: znode_del_def without_nodes_def load_Some restrict_map_def fun_eq_iff)

text \<open>Children first: when a node is freed, none of those still to be visited has been.\<close>

lemma free_nodes:
  assumes "tree_at (o_t M) p par t" and "distinct (inorder t)" and "\<forall>a \<in> set_tree t. o_z M a \<noteq> None"
    and "height t < fuel"
  shows "free_avl_nodes fuel M p = Inr (without_nodes (set_tree t) M)"
  using assms
proof (induction t arbitrary: M p par fuel)
  case Leaf
  then show ?case by (cases fuel) simp_all
next
  case (Node l a r)
  obtain f where f: "fuel = Suc f" "height l < f" "height r < f" using Node.prems(4) by (cases fuel) auto
  obtain n where n: "p = Some a" "o_t M a = Some n" "tree_at (o_t M) (a_left n) (Some a) l"
      "tree_at (o_t M) (a_right n) (Some a) r"
    using Node.prems(1) by auto
  let ?M1 = "without_nodes (set_tree l) M" and ?M2 = "without_nodes (set_tree r \<union> set_tree l) M"
  have apart: "a \<notin> set_tree l" "a \<notin> set_tree r" "set_tree r \<inter> set_tree l = {}"
    using Node.prems(2) by auto
  have left: "free_avl_nodes f M (a_left n) = Inr ?M1"
    by (rule Node.IH(1) [OF n(3)]) (use Node.prems f in auto)
  have right: "tree_at (o_t ?M1) (a_right n) (Some a) r"
    by (rule tree_at_off [OF n(4), of "set_tree l"]) (use apart in auto)
  have alive: "\<forall>b \<in> set_tree r. o_z ?M1 b \<noteq> None" using Node.prems(3) apart by auto
  have "free_avl_nodes f ?M1 (a_right n) = Inr (without_nodes (set_tree r) ?M1)"
    by (rule Node.IH(2) [OF right _ alive f(3)]) (use Node.prems(2) in simp)
  then have "free_avl_nodes f ?M1 (a_right n) = Inr ?M2" unfolding without_nodes_twice .
  moreover have "znode_del ?M2 (Some a) = Inr (without_nodes {a} ?M2)"
    by (rule znode_del_frees) (use apart Node.prems(3) in auto)
  ultimately show ?case
    using left n f(1) apart by (simp add: load_Some Un_commute Un_left_commute insert_commute)
qed

section \<open>The set and its entry\<close>

lemma destructor_run:
  assumes "o_e M ent = Some e" and "e_zset e = Some s" and "o_s M s = Some zs"
    and "tree_at (o_t M) (zs_tree zs) None t" and "distinct (inorder t)"
    and "\<forall>a \<in> set_tree t. o_z M a \<noteq> None \<and> a < h_brk (o_h M)"
  shows "\<exists>M'. threaded_zset_destructor M ent = Inr M' \<and>
    o_z M' = o_z M |` (- set_tree t) \<and> o_t M' = o_t M |` (- set_tree t) \<and>
    h_nodes (o_h M') = h_nodes (o_h M) |` (- insert ent (set_tree t)) \<and>
    o_s M' = (o_s M)(s := None) \<and> o_e M' = (o_e M)(ent := None) \<and> o_idx M' = (o_idx M)(ent := None) \<and>
    h_arrs (o_h M') = h_arrs (o_h M) \<and> h_brk (o_h M') = h_brk (o_h M)"
proof -
  have "set_tree t \<subseteq> {..<h_brk (o_h M)}" using assms(6) by blast
  then have "card (set_tree t) \<le> h_brk (o_h M)" using card_mono [of "{..<h_brk (o_h M)}" "set_tree t"] by simp
  moreover have "card (set_tree t) = size t"
    using distinct_card [OF assms(5)] by simp
  ultimately have "height t < o_fuel M" using height_le_size_tree [of t] by (simp add: o_fuel_def)
  then have free: "free_avl_nodes (o_fuel M) M (zs_tree zs) = Inr (without_nodes (set_tree t) M)"
    by (intro free_nodes [OF assms(4,5)]) (use assms(6) in auto)
  have "o_t (without_nodes (set_tree t) M) = o_t M |` (- set_tree t)"
       "o_z (without_nodes (set_tree t) M) = o_z M |` (- set_tree t)"
    by (simp_all add: without_nodes_def)
  then show ?thesis
    using assms(1-3) free
    by (simp add: threaded_zset_destructor_def zset_destroy_def set_tree_root_def entry_free_def load_Some
        update_Some Let_def restrict_map_def fun_eq_iff)
qed

text \<open>
  C28.  Deleting a sorted set: the job of the thread pool frees each node of the set's tree once, then the set and
  the entry, without reading a freed object, and leaves every other object alone; but the arrays of
  buckets of the set's hash map are not freed by anyone (\<open>h_arrs\<close> is as before).
\<close>

theorem sorted_set_freed:
  assumes "o_e M ent = Some e" and "e_zset e = Some s" and "o_s M s = Some zs"
    and "tree_at (o_t M) (zs_tree zs) None t" and "distinct (inorder t)"
    and "\<forall>a \<in> set_tree t. o_z M a \<noteq> None \<and> a < h_brk (o_h M)"
  shows "\<exists>M'. threaded_zset_destructor M ent = Inr M' \<and>
    o_z M' = o_z M |` (- set_tree t) \<and> o_t M' = o_t M |` (- set_tree t) \<and>
    h_nodes (o_h M') = h_nodes (o_h M) |` (- insert ent (set_tree t)) \<and>
    o_s M' = (o_s M)(s := None) \<and> o_e M' = (o_e M)(ent := None) \<and> o_idx M' = (o_idx M)(ent := None) \<and>
    h_arrs (o_h M') = h_arrs (o_h M)"
  using destructor_run [OF assms] by blast

text \<open>A set of two members, as two commands make it.\<close>

definition demo_set :: objs where
  "demo_set =
     \<lparr>o_h = \<lparr>h_arrs = Map.empty, h_nodes = [5 \<mapsto> \<lparr>h_next = None, h_code = 1\<rparr>, 7 \<mapsto> \<lparr>h_next = None, h_code = 2\<rparr>,
          8 \<mapsto> \<lparr>h_next = None, h_code = 3\<rparr>], h_brk = 10\<rparr>,
      o_t = [7 \<mapsto> \<lparr>a_depth = 2, a_count = 2, a_left = None, a_right = Some 8, a_parent = None\<rparr>,
          8 \<mapsto> \<lparr>a_depth = 1, a_count = 1, a_left = None, a_right = None, a_parent = Some 7\<rparr>],
      o_z = [7 \<mapsto> \<lparr>zn_score = 0, zn_name = [97]\<rparr>, 8 \<mapsto> \<lparr>zn_score = 0, zn_name = [98]\<rparr>],
      o_s = [6 \<mapsto> \<lparr>zs_tree = Some 7, zs_hmap = empty_map\<rparr>],
      o_e = [5 \<mapsto> \<lparr>e_key = [107], e_val = [], e_type = 1, e_zset = Some 6\<rparr>], o_idx = [5 \<mapsto> - 1]\<rparr>"

theorem sorted_set_freed_witness:
  "\<exists>M'. threaded_zset_destructor demo_set 5 = Inr M' \<and> o_z M' = Map.empty \<and> o_s M' = Map.empty \<and> o_e M' = Map.empty"
  using sorted_set_freed [of demo_set 5 "\<lparr>e_key = [107], e_val = [], e_type = 1, e_zset = Some 6\<rparr>" 6
      "\<lparr>zs_tree = Some 7, zs_hmap = empty_map\<rparr>" "Node Leaf 7 (Node Leaf 8 Leaf)"]
  by (auto simp: demo_set_def restrict_map_def fun_eq_iff)

end
