(* ===== verification/Database.thy ===== *)
theory Database
  imports Commands
begin

text \<open>
  The database of strings as a client sees it: the bag of pairs of key and value it holds, what \<open>SET\<close>,
  \<open>GET\<close> and \<open>KEYS\<close> do to it, and a history of such commands against its specification.
\<close>

section \<open>Invariant\<close>

text \<open>The entries behind the nodes of the database, and that each is under the hash of its key.\<close>

definition ent :: "gdata \<Rightarrow> addr \<Rightarrow> Entry" where
  "ent g y = the (o_e (g_M g) y)"

definition db_ok :: "gdata \<Rightarrow> addr list list \<Rightarrow> addr list list \<Rightarrow> bool" where
  "db_ok g bs1 bs2 \<longleftrightarrow> hm_ok (o_h (g_M g)) (g_db g) bs1 bs2 \<and>
     (\<forall>y \<in> set (nodes_of bs1 bs2). o_e (g_M g) y \<noteq> None \<and>
        code_at (o_h (g_M g)) y = str_hash (e_key (ent g y)))"

text \<open>What the database holds, as pairs of key and value.\<close>

definition contents :: "gdata \<Rightarrow> addr list list \<Rightarrow> addr list list \<Rightarrow> (bytes \<times> bytes) multiset" where
  "contents g bs1 bs2 = image_mset (\<lambda>y. (e_key (ent g y), e_val (ent g y))) (mset (nodes_of bs1 bs2))"

lemma contents_cong:
  "mset (nodes_of cs1 cs2) = mset (nodes_of bs1 bs2) \<Longrightarrow> o_e (g_M g') = o_e (g_M g) \<Longrightarrow>
   contents g' cs1 cs2 = contents g bs1 bs2"
  by (simp add: contents_def ent_def)

lemma in_contents:
  "(k, v) \<in># contents g bs1 bs2 \<longleftrightarrow> (\<exists>y \<in> set (nodes_of bs1 bs2). e_key (ent g y) = k \<and> e_val (ent g y) = v)"
  unfolding contents_def set_image_mset set_mset_mset image_iff by auto

lemma u32_of_u64: "(ucast (of_nat n :: u64) :: u32) = of_nat n"
  by (rule bit_word_eqI) (auto simp: bit_simps)

section \<open>Commands\<close>

text \<open>The comparison with a key on the stack, where it reads entries.\<close>

lemma entry_eq_key:
  "db_ok g bs1 bs2 \<Longrightarrow> y \<in> set (nodes_of bs1 bs2) \<Longrightarrow>
   entry_eq (g_M g) (Inr key) y = Inr (e_key (ent g y) = key)"
  by (auto simp: db_ok_def entry_eq_def load_def ent_def split: option.splits simp del: set_append)

lemma db_lookup_spec:
  assumes "db_ok g bs1 bs2"
  obtains g' x cs1 cs2 where "db_lookup g key = Inr (g', x)" and "db_ok g' cs1 cs2"
    and "mset (nodes_of cs1 cs2) = mset (nodes_of bs1 bs2)" and "o_e (g_M g') = o_e (g_M g)"
    and "case x of None \<Rightarrow> \<forall>y \<in> set (nodes_of bs1 bs2). e_key (ent g y) \<noteq> key
       | Some a \<Rightarrow> a \<in> set (nodes_of bs1 bs2) \<and> e_key (ent g a) = key"
proof -
  let ?M = "g_M g" and ?code = "str_hash key" and ?E = "\<lambda>y. e_key (ent g y) = key"
  have D: "hm_ok (o_h ?M) (g_db g) bs1 bs2"
      "\<forall>y \<in> set (nodes_of bs1 bs2). o_e ?M y \<noteq> None \<and> code_at (o_h ?M) y = str_hash (e_key (ent g y))"
    using assms by (simp_all add: db_ok_def)
  have "\<forall>y \<in> set (nodes_of bs1 bs2). code_at (o_h ?M) y = ?code \<longrightarrow> entry_eq ?M (Inr key) y = Inr (?E y)"
    using entry_eq_key [OF assms] by blast
  then obtain h hm x cs1 cs2 where L:
      "hm_lookup (o_h ?M) (g_db g) ?code (entry_eq ?M (Inr key)) = Inr (h, hm, x)" "hm_ok h hm cs1 cs2"
      "mset (nodes_of cs1 cs2) = mset (nodes_of bs1 bs2)"
      "frame (set (nodes_of bs1 bs2)) (tabs (g_db g)) (o_h ?M) h"
      "case x of None \<Rightarrow> \<forall>y \<in> set (nodes_of bs1 bs2). \<not> matches (o_h ?M) ?code ?E y
       | Some a \<Rightarrow> a \<in> set (nodes_of bs1 bs2) \<and> matches (o_h ?M) ?code ?E a"
    by (rule hm_lookup_member [OF D(1)])
  let ?g = "g\<lparr>g_M := ?M\<lparr>o_h := h\<rparr>, g_db := hm\<rparr>"
  have "db_ok ?g cs1 cs2"
    using D(2) L(2) frame_code [OF L(4)] unfolding db_ok_def mset_eq_setD [OF L(3)]
    by (simp add: ent_def)
  moreover have "case x of None \<Rightarrow> \<forall>y \<in> set (nodes_of bs1 bs2). e_key (ent g y) \<noteq> key
       | Some a \<Rightarrow> a \<in> set (nodes_of bs1 bs2) \<and> e_key (ent g a) = key"
    using L(5) D(2) by (cases x) (auto simp: matches_def simp del: set_append)
  ultimately show ?thesis
    using that [of ?g x cs1 cs2] L(1,3) by (simp add: db_lookup_def)
qed

lemma do_set_spec:
  assumes "db_ok g bs1 bs2" and "length (nodes_of bs1 bs2) + 1 < 2 ^ 64"
  obtains g' cs1 cs2 where "do_set g [op, key, val] out = Inr (g', RES_OK, out_int out 0)"
    and "db_ok g' cs1 cs2" and "contents g' cs1 cs2 = add_mset (key, val) (contents g bs1 bs2)"
proof -
  let ?M = "g_M g" and ?e = "\<lparr>e_key = key, e_val = val, e_type = 0, e_zset = None\<rparr>"
  let ?a = "h_brk (o_h ?M)"
  let ?h = "(o_h ?M)\<lparr>h_nodes := (h_nodes (o_h ?M))(?a \<mapsto> \<lparr>h_next = None, h_code = str_hash key\<rparr>), h_brk := ?a + 1\<rparr>"
  let ?M1 = "?M\<lparr>o_h := ?h, o_e := (o_e ?M)(?a \<mapsto> ?e), o_idx := (o_idx ?M)(?a \<mapsto> - 1)\<rparr>"
  have D: "hm_ok (o_h ?M) (g_db g) bs1 bs2"
      "\<forall>y \<in> set (nodes_of bs1 bs2). o_e ?M y \<noteq> None \<and> code_at (o_h ?M) y = str_hash (e_key (ent g y))"
    using assms(1) by (simp_all add: db_ok_def)
  have "hm_shape (o_h ?M) (g_db g) bs1 bs2" using D(1) by (simp add: hm_ok_def hm_rep_def)
  then have less: "\<forall>x \<in> set (nodes_of bs1 bs2). x < ?a"
    unfolding set_append using hm_shape_node(2) by blast
  then have new: "?a \<notin> set (nodes_of bs1 bs2)" by blast
  have "hm_ok ?h (g_db g) bs1 bs2"
    using new by (intro hm_ok_alloc [OF D(1)]) (auto simp del: set_append)
  moreover have "h_nodes ?h ?a = Some \<lparr>h_next = None, h_code = str_hash key\<rparr>" by simp
  ultimately obtain h hm cs1 cs2 where I: "hm_insert ?h (g_db g) (Some ?a) = Inr (h, hm)" "hm_ok h hm cs1 cs2"
      "mset (nodes_of cs1 cs2) = add_mset ?a (mset (nodes_of bs1 bs2))"
      "frame (insert ?a (set (nodes_of bs1 bs2))) (tabs (g_db g) \<union> {h_brk ?h..}) ?h h"
    by (rule hm_insert_spec [OF _ _ new]) (use assms(2) in simp_all)
  let ?g = "g\<lparr>g_M := ?M1\<lparr>o_h := h\<rparr>, g_db := hm\<rparr>"
  have nodes: "set (nodes_of cs1 cs2) = insert ?a (set (nodes_of bs1 bs2))"
    using arg_cong [OF I(3), of set_mset] by (simp only: set_mset_mset set_mset_add_mset_insert)
  have old: "ent ?g y = ent g y" if "y \<in> set (nodes_of bs1 bs2)" for y
    using that new by (auto simp: ent_def)
  have "db_ok ?g cs1 cs2"
    unfolding db_ok_def nodes
  proof (intro conjI ballI)
    fix y assume "y \<in> insert ?a (set (nodes_of bs1 bs2))"
    then consider "y = ?a" | "y \<in> set (nodes_of bs1 bs2)" "y \<noteq> ?a" using new by blast
    then show "o_e (g_M ?g) y \<noteq> None" "code_at (o_h (g_M ?g)) y = str_hash (e_key (ent ?g y))"
      using D(2) old by (cases; simp add: frame_code [OF I(4)] code_at_def [of ?h] ent_def; simp add: code_at_def)+
  qed (use I(2) in simp)
  moreover have "contents ?g cs1 cs2 = add_mset (key, val) (contents g bs1 bs2)"
  proof -
    have "image_mset (\<lambda>y. (e_key (ent ?g y), e_val (ent ?g y))) (mset (nodes_of bs1 bs2)) = contents g bs1 bs2"
      unfolding contents_def by (rule image_mset_cong) (simp only: set_mset_mset old)
    then show ?thesis
      unfolding contents_def [of ?g] I(3) image_mset_add_mset by (simp add: ent_def)
  qed
  moreover have "do_set g [op, key, val] out = Inr (?g, RES_OK, out_int out 0)"
    using I(1) by (simp add: do_set_def entry_new_def fresh_def Let_def RES_OK_def)
  ultimately show ?thesis using that by blast
qed

lemma do_get_spec:
  assumes "db_ok g bs1 bs2" and "\<forall>(k, v) \<in># contents g bs1 bs2. length v \<le> k_max_msg"
  obtains g' cs1 cs2 r out' where "do_get g [op, key] out = Inr (g', r, out')"
    and "db_ok g' cs1 cs2" and "contents g' cs1 cs2 = contents g bs1 bs2"
    and "if \<exists>v. (key, v) \<in># contents g bs1 bs2
      then r = RES_OK \<and> (\<exists>v. (key, v) \<in># contents g bs1 bs2 \<and> out' = out_str out v)
      else r = RES_NX \<and> out' = out_int out (ucast RES_NX)"
proof -
  obtain g' x cs1 cs2 where L: "db_lookup g key = Inr (g', x)" "db_ok g' cs1 cs2"
      "mset (nodes_of cs1 cs2) = mset (nodes_of bs1 bs2)" "o_e (g_M g') = o_e (g_M g)"
      "case x of None \<Rightarrow> \<forall>y \<in> set (nodes_of bs1 bs2). e_key (ent g y) \<noteq> key
       | Some a \<Rightarrow> a \<in> set (nodes_of bs1 bs2) \<and> e_key (ent g a) = key"
    by (rule db_lookup_spec [OF assms(1)])
  note same = contents_cong [OF L(3,4)]
  show ?thesis
  proof (cases x)
    case None
    then have "\<nexists>v. (key, v) \<in># contents g bs1 bs2" using L(5) by (auto simp only: in_contents option.case)
    then show ?thesis
      using that [of g' RES_NX "out_int out (ucast RES_NX)" cs1 cs2] L(1,2) same None
      by (simp add: do_get_def aget_def)
  next
    case (Some a)
    then have a: "a \<in> set (nodes_of bs1 bs2)" "e_key (ent g a) = key" using L(5) by auto
    then have v: "(key, e_val (ent g a)) \<in># contents g bs1 bs2" unfolding in_contents by blast
    then have "length (e_val (ent g a)) \<le> k_max_msg" using assms(2) by blast
    moreover have "load (o_e (g_M g')) (Some a) = Inr (ent g a)"
      using a(1) assms(1) L(4) by (auto simp: db_ok_def load_def ent_def simp del: set_append)
    ultimately have "do_get g [op, key] out = Inr (g', RES_OK, out_str out (e_val (ent g a)))"
      using L(1) Some by (simp add: do_get_def aget_def)
    then show ?thesis
      using v by (intro that [OF _ L(2) same]) auto
  qed
qed

text \<open>The scan writes the keys as an array of strings.\<close>

lemma scan_keys:
  assumes "\<forall>y \<in> set ys. o_e (g_M g) y \<noteq> None"
  shows "visit_all (cb_scan (g_M g)) ys out = Inr (foldl (\<lambda>o' r. put_reply o' r) out (map (\<lambda>y. RStr (e_key (ent g y))) ys))"
  using assms by (induction ys arbitrary: out) (auto simp: cb_scan_def load_def ent_def)

lemma do_keys_spec:
  assumes "db_ok g bs1 bs2"
  obtains ks where "do_keys g cmd out = Inr (g, RES_OK, put_reply out (RArr (map RStr ks)))"
    and "mset ks = image_mset fst (contents g bs1 bs2)"
proof -
  let ?ks = "map (\<lambda>y. e_key (ent g y)) (nodes_of bs1 bs2)"
  have rep: "hm_rep (o_h (g_M g)) (g_db g) bs1 bs2" using assms by (simp add: db_ok_def hm_ok_def)
  note R = hm_repD [OF rep] and S = hm_shapeD [OF hm_repD(1) [OF rep]]
  have all: "\<forall>y \<in> set (nodes_of bs1 bs2). o_e (g_M g) y \<noteq> None" using assms by (simp add: db_ok_def)
  have len: "length (concat bs1) < 2 ^ 64" "length (concat bs2) < 2 ^ 64" using R(4) by simp_all
  have size: "hm_size (g_db g) = of_nat (length ?ks)"
    using R(2,3) by (simp add: hm_size_def del: length_concat)
  have scan: "bindr (h_scan (o_h (g_M g)) (ht1 (g_db g)) f s) (h_scan (o_h (g_M g)) (ht2 (g_db g)) f)
      = visit_all f (nodes_of bs1 bs2) s" for f and s :: bytes
    unfolding visit_all_append h_scan_spec [OF S(1) R(2) len(1)]
    by (rule bindr_cong) (simp_all add: h_scan_spec [OF S(2) R(3) len(2)])
  have "do_keys g cmd out = bindr (bindr (h_scan (o_h (g_M g)) (ht1 (g_db g)) (cb_scan (g_M g))
        (out_arr out (ucast (hm_size (g_db g))))) (h_scan (o_h (g_M g)) (ht2 (g_db g)) (cb_scan (g_M g))))
      (\<lambda>out'. Inr (g, RES_OK, out'))"
    by (simp add: do_keys_def Let_def bindr_assoc)
  also have "\<dots> = Inr (g, RES_OK, put_reply out (RArr (map RStr ?ks)))"
    unfolding scan scan_keys [OF all] size u32_of_u64 by (simp add: comp_def)
  finally show ?thesis
    by (rule that) (simp only: contents_def mset_map image_mset.compositionality comp_def fst_conv)
qed

section \<open>A history of commands\<close>

text \<open>The commands on strings that work on every state of the database, as a client writes them.\<close>

datatype scmd = Set bytes bytes | Get bytes | Keys

fun words :: "scmd \<Rightarrow> bytes list" where
  "words (Set k v) = [lit ''set'', k, v]"
| "words (Get k) = [lit ''get'', k]"
| "words Keys = [lit ''keys'']"

text \<open>
  What a client may rely on.  \<open>SET\<close> adds an entry and keeps those already there, so that a key can have
  several, and \<open>GET\<close> answers with the value of one of them.
\<close>

inductive answers :: "(bytes \<times> bytes) multiset \<Rightarrow> scmd \<Rightarrow> u32 \<Rightarrow> reply \<Rightarrow> (bytes \<times> bytes) multiset \<Rightarrow> bool" where
  put: "answers B (Set k v) RES_OK (RInt 0) (add_mset (k, v) B)"
| hit: "(k, v) \<in># B \<Longrightarrow> answers B (Get k) RES_OK (RStr v) B"
| miss: "\<nexists>v. (k, v) \<in># B \<Longrightarrow> answers B (Get k) RES_NX (RInt 2) B"
| keys: "mset ks = image_mset fst B \<Longrightarrow> answers B Keys RES_OK (RArr (map RStr ks)) B"

inductive answers_all :: "(bytes \<times> bytes) multiset \<Rightarrow> scmd list \<Rightarrow> (u32 \<times> bytes) list \<Rightarrow> bool" where
  finish: "answers_all B [] []"
| step: "answers B c r rep B' \<Longrightarrow> answers_all B' cs rs \<Longrightarrow> answers_all B (c # cs) ((r, enc_reply rep) # rs)"

text \<open>The server on such a history: the codes and the replies, each in a buffer of its own.\<close>

fun serve :: "gdata \<Rightarrow> bytes list list \<Rightarrow> (gdata \<times> (u32 \<times> bytes) list) res" where
  "serve g [] = Inr (g, [])"
| "serve g (cmd # cmds) =
     bindr (do_request g cmd []) (\<lambda>(g1, r, out). bindr (serve g1 cmds) (\<lambda>(g2, rs). Inr (g2, (r, out) # rs)))"

text \<open>One command, in a database that holds \<open>B\<close>.\<close>

definition holds_db :: "gdata \<Rightarrow> (bytes \<times> bytes) multiset \<Rightarrow> bool" where
  "holds_db g B \<longleftrightarrow> (\<exists>bs1 bs2. db_ok g bs1 bs2 \<and> B = contents g bs1 bs2)"

definition short :: "(bytes \<times> bytes) multiset \<Rightarrow> bool" where
  "short B \<longleftrightarrow> (\<forall>(k, v) \<in># B. length v \<le> k_max_msg)"

fun writes_short :: "scmd \<Rightarrow> bool" where
  "writes_short (Set k v) = (length v \<le> k_max_msg)"
| "writes_short c = True"

lemma fresh_db: "holds_db (g_init clock) {#}"
  unfolding holds_db_def
  by (intro exI [of _ "[]"]) (simp add: db_ok_def contents_def g_init_def empty_map_ok)

lemma size_contents: "size (contents g bs1 bs2) = length (nodes_of bs1 bs2)"
  by (simp add: contents_def)

lemma lit_differ:
  "lit ''set'' \<noteq> lit ''keys''" "lit ''set'' \<noteq> lit ''get''" "lit ''get'' \<noteq> lit ''keys''"
  "lit ''keys'' \<noteq> []"
  by code_simp+

lemma answer_one:
  assumes "holds_db g B" and "short B" and "size B + 1 < 2 ^ 64" and "writes_short c"
  obtains g' r rep B' where "do_request g (words c) [] = Inr (g', r, enc_reply rep)"
    and "answers B c r rep B'" and "holds_db g' B'" and "short B'" and "size B' \<le> size B + 1"
proof -
  obtain bs1 bs2 where db: "db_ok g bs1 bs2" "B = contents g bs1 bs2"
    using assms(1) by (auto simp: holds_db_def)
  show ?thesis
  proof (cases c)
    case (Set k v)
    have "length (nodes_of bs1 bs2) + 1 < 2 ^ 64" using assms(3) db(2) size_contents by metis
    then obtain g' cs1 cs2 where R: "do_set g [lit ''set'', k, v] [] = Inr (g', RES_OK, out_int [] 0)"
        "db_ok g' cs1 cs2" "contents g' cs1 cs2 = add_mset (k, v) (contents g bs1 bs2)"
      by (rule do_set_spec [OF db(1)])
    have "do_request g (words c) [] = Inr (g', RES_OK, enc_reply (RInt 0))"
      using R(1) Set by (simp add: do_request_def lit_differ)
    moreover have "holds_db g' (add_mset (k, v) B)" using R(2,3) db(2) unfolding holds_db_def by metis
    moreover have "short (add_mset (k, v) B)" using assms(2,4) Set by (auto simp: short_def)
    ultimately show ?thesis using that answers.put [of B k v] Set by force
  next
    case (Get k)
    have short: "\<forall>(k, v) \<in># contents g bs1 bs2. length v \<le> k_max_msg"
      using assms(2) db(2) by (simp add: short_def)
    obtain g' cs1 cs2 r out' where R: "do_get g [lit ''get'', k] [] = Inr (g', r, out')"
        "db_ok g' cs1 cs2" "contents g' cs1 cs2 = contents g bs1 bs2"
        "if \<exists>v. (k, v) \<in># contents g bs1 bs2
         then r = RES_OK \<and> (\<exists>v. (k, v) \<in># contents g bs1 bs2 \<and> out' = out_str [] v)
         else r = RES_NX \<and> out' = out_int [] (ucast RES_NX)"
      by (rule do_get_spec [OF db(1) short])
    have run: "do_request g (words c) [] = Inr (g', r, out')"
      using R(1) Get by (simp add: do_request_def lit_differ)
    have db': "holds_db g' B" using R(2,3) db(2) unfolding holds_db_def by metis
    show ?thesis
    proof (cases "\<exists>v. (k, v) \<in># B")
      case True
      then obtain v where "r = RES_OK" "(k, v) \<in># B" "out' = enc_reply (RStr v)"
        using R(4) db(2) by auto
      then show ?thesis using that run db' assms(2) Get answers.hit [of k v B] by force
    next
      case False
      then have "r = RES_NX" "out' = enc_reply (RInt 2)"
        using R(4) db(2) by (auto simp: RES_NX_def)
      then show ?thesis using that run db' assms(2) Get False answers.miss [of k B] by force
    qed
  next
    case Keys
    obtain ks where R: "do_keys g [lit ''keys''] [] = Inr (g, RES_OK, enc_reply (RArr (map RStr ks)))"
        "mset ks = image_mset fst (contents g bs1 bs2)"
      by (rule do_keys_spec [OF db(1)])
    have "do_request g (words c) [] = Inr (g, RES_OK, enc_reply (RArr (map RStr ks)))"
      using R(1) Keys by (simp add: do_request_def lit_differ del: put_reply.simps)
    then show ?thesis using that assms(1,2) answers.keys R(2) db(2) Keys by force
  qed
qed

text \<open>
  C7.  The server, started afresh, serves every history of \<open>SET\<close>, \<open>GET\<close> and \<open>KEYS\<close>, whatever the
  resizings of the table in between, and each reply is one the bag of the pairs set so far allows:
  \<open>GET\<close> answers with a value set for the key, or that there is none, and \<open>KEYS\<close> with an array
  of all keys, one for each \<open>SET\<close>.  Values must fit a message, as \<open>do_get\<close> asserts.
\<close>

theorem strings_served:
  assumes "\<forall>c \<in> set cs. writes_short c" and "length cs < 2 ^ 64 - 1"
  shows "\<exists>g rs. serve (g_init clock) (map words cs) = Inr (g, rs) \<and> answers_all {#} cs rs"
proof -
  have "\<exists>g' rs. serve g (map words cs) = Inr (g', rs) \<and> answers_all B cs rs"
    if "holds_db g B" "short B" "size B + length cs < 2 ^ 64 - 1" "\<forall>c \<in> set cs. writes_short c" for g B
    using that
  proof (induction cs arbitrary: g B)
    case Nil
    then show ?case by (simp add: answers_all.finish)
  next
    case (Cons c cs)
    have "size B + 1 < 2 ^ 64" "writes_short c" using Cons.prems(3,4) by simp_all
    then obtain g' r rep B' where S: "do_request g (words c) [] = Inr (g', r, enc_reply rep)"
        "answers B c r rep B'" "holds_db g' B'" "short B'" "size B' \<le> size B + 1"
      by (rule answer_one [OF Cons.prems(1,2)])
    obtain g2 rs where "serve g' (map words cs) = Inr (g2, rs)" "answers_all B' cs rs"
      using Cons.IH [OF S(3,4)] S(5) Cons.prems(3,4) by auto
    then show ?case using S(1) answers_all.step [OF S(2)] by auto
  qed
  moreover have "short {#}" by (simp add: short_def)
  ultimately show ?thesis using assms fresh_db by simp
qed

theorem strings_served_witness:
  "\<exists>g rs. serve (g_init (\<lambda>_. 0)) [[lit ''set'', [1], [2]], [lit ''get'', [1]], [lit ''keys'']] = Inr (g, rs) \<and>
     answers_all {#} [Set [1] [2], Get [1], Keys] rs"
  using strings_served [of "[Set [1] [2], Get [1], Keys]" "\<lambda>_. 0"] by (simp add: k_max_msg_def)

end
