(* ===== verification/Sockets.thy ===== *)
theory Sockets
  imports Protocol Serialisation
begin

text \<open>
  Byte streams as the program sees them through \<open>read\<close> and \<open>write\<close>, and the code that moves a given
  number of bytes through one: \<open>read_full\<close> and \<open>write_all\<close> of \<open>common.cpp\<close> and their callers in the client,
  \<open>send_req\<close>, \<open>query\<close> and \<open>read_resp\<close>.
\<close>

unbundle bit_operations_syntax

section \<open>System calls\<close>

text \<open>
  What the kernel has in store for the next calls on a descriptor.  A chunk of input is delivered as
  far as the caller has room; the empty chunk is the end of the stream.  A write accepts a number of
  bytes.  With nothing in store a call reports \<open>EAGAIN\<close>.  \<open>sk_sent\<close> is all that has been written.
\<close>

datatype rd = RData bytes | RIntr | RAgain | RErr_io

datatype wr = WOk nat | WIntr | WAgain | WErr_io

record sock =
  sk_in :: "rd list"
  sk_out :: "wr list"
  sk_sent :: bytes

text \<open>The result of a call: a count of bytes, or \<open>errno\<close>.\<close>

datatype errno = EINTR | EAGAIN | EIO

definition sys_read :: "sock \<Rightarrow> nat \<Rightarrow> sock \<times> (errno + bytes)" where
  "sys_read s cap = (case sk_in s of
       [] \<Rightarrow> (s, Inl EAGAIN)
     | RIntr # r \<Rightarrow> (s\<lparr>sk_in := r\<rparr>, Inl EINTR)
     | RAgain # r \<Rightarrow> (s\<lparr>sk_in := r\<rparr>, Inl EAGAIN)
     | RErr_io # r \<Rightarrow> (s\<lparr>sk_in := r\<rparr>, Inl EIO)
     | RData bs # r \<Rightarrow>
         (s\<lparr>sk_in := (if drop cap bs = [] then r else RData (drop cap bs) # r)\<rparr>, Inr (take cap bs)))"

definition sys_write :: "sock \<Rightarrow> bytes \<Rightarrow> sock \<times> (errno + nat)" where
  "sys_write s bs = (case sk_out s of
       [] \<Rightarrow> (s, Inl EAGAIN)
     | WIntr # r \<Rightarrow> (s\<lparr>sk_out := r\<rparr>, Inl EINTR)
     | WAgain # r \<Rightarrow> (s\<lparr>sk_out := r\<rparr>, Inl EAGAIN)
     | WErr_io # r \<Rightarrow> (s\<lparr>sk_out := r\<rparr>, Inl EIO)
     | WOk n # r \<Rightarrow> (s\<lparr>sk_out := r, sk_sent := sk_sent s @ take n bs\<rparr>, Inr (min n (length bs))))"

section \<open>Whole transfers\<close>

text \<open>
  The loops end because every turn uses up some of what is in store or fails.  \<open>None\<close> is the return
  value \<open>- 1\<close>; what the buffer then holds is not used by any caller.
\<close>

text \<open>How much input is in store: its bytes and its events.\<close>

fun in_store :: "rd list \<Rightarrow> nat" where
  "in_store [] = 0"
| "in_store (RData bs # r) = length bs + 1 + in_store r"
| "in_store (_ # r) = 1 + in_store r"

lemma sys_read_EINTR: "sys_read s cap = (s', Inl EINTR) \<Longrightarrow> in_store (sk_in s') < in_store (sk_in s)"
  by (auto simp: sys_read_def split: list.splits rd.splits)

lemma sys_read_data:
  "sys_read s cap = (s', Inr bs) \<Longrightarrow> bs \<noteq> [] \<Longrightarrow> in_store (sk_in s') < in_store (sk_in s)"
  by (auto simp: sys_read_def split: list.splits rd.splits if_splits)

lemma sys_write_store:
  "sys_write s bs = (s', r) \<Longrightarrow> r \<noteq> Inl EAGAIN \<Longrightarrow> length (sk_out s') < length (sk_out s)"
  by (auto simp: sys_write_def split: list.splits wr.splits)

function read_full :: "sock \<Rightarrow> nat \<Rightarrow> bytes \<Rightarrow> sock \<times> bytes option" where
  "read_full s len buf =
     (if len = 0 then (s, Some buf)
      else (case sys_read s len of
          (s', Inr bs) \<Rightarrow> if bs = [] then (s', None) else read_full s' (len - length bs) (buf @ bs)
        | (s', Inl e) \<Rightarrow> if e = EINTR then read_full s' len buf else (s', None)))"
  by pat_completeness auto
termination
  by (relation "measure (\<lambda>(s, len, buf). in_store (sk_in s))")
    (auto intro: sys_read_data sys_read_EINTR sys_read_data [OF sym] sys_read_EINTR [OF sym])

declare read_full.simps [simp del]

function write_all :: "sock \<Rightarrow> bytes \<Rightarrow> sock \<times> bool" where
  "write_all s bs =
     (if bs = [] then (s, True)
      else (case sys_write s bs of
          (s', Inr n) \<Rightarrow> if n = 0 then (s', False) else write_all s' (drop n bs)
        | (s', Inl e) \<Rightarrow> if e = EINTR then write_all s' bs else (s', False)))"
  by pat_completeness auto
termination
  by (relation "measure (\<lambda>(s, bs). length (sk_out s))") (auto intro: sys_write_store sys_write_store [OF sym])

declare write_all.simps [simp del]

section \<open>The client\<close>

text \<open>\<open>send_req\<close> with its \<open>write_all\<close>: whether it returned 0.\<close>

definition client_send :: "sock \<Rightarrow> bytes list \<Rightarrow> sock \<times> bool" where
  "client_send s cmd = (case send_req cmd of None \<Rightarrow> (s, False) | Some wbuf \<Rightarrow> write_all s wbuf)"

text \<open>\<open>read_resp\<close>: the returned number and what \<open>on_response\<close> printed; \<open>None\<close> is an early \<open>- 1\<close>.\<close>

definition read_resp :: "sock \<Rightarrow> sock \<times> (u32 \<times> item list) res option" where
  "read_resp s = (case read_full s 4 [] of
       (s1, None) \<Rightarrow> (s1, None)
     | (s1, Some hdr) \<Rightarrow>
         let len = unat (rd_le32 hdr) in
         if len > k_max_msg then (s1, None)
         else (case read_full s1 len [] of
             (s2, None) \<Rightarrow> (s2, None)
           | (s2, Some data) \<Rightarrow> if len < 1 then (s2, None) else (s2, Some (on_response data))))"

text \<open>\<open>query\<close>, an older way to send one string: \<open>text\<close> is without its terminating zero.\<close>

definition query :: "sock \<Rightarrow> bytes \<Rightarrow> sock \<times> (u32 \<times> item list) res option" where
  "query s text =
     (let len = (of_nat (length text) :: u32) in
      if unat len > k_max_msg then (s, None)
      else (case write_all s (le32 len @ take (unat len) text) of
          (s1, False) \<Rightarrow> (s1, None)
        | (s1, True) \<Rightarrow> read_resp s1))"

text \<open>
  \<open>main\<close> of the client once it is connected: the exit status and what was printed.  Any result of
  \<open>read_resp\<close> but 0 is taken for an error.
\<close>

definition client_main :: "sock \<Rightarrow> bytes list \<Rightarrow> sock \<times> (nat \<times> item list) res" where
  "client_main s args = (case client_send s args of
       (s1, False) \<Rightarrow> (s1, Inr (1, []))
     | (s1, True) \<Rightarrow> (case read_resp s1 of
           (s2, None) \<Rightarrow> (s2, Inr (1, []))
         | (s2, Some r) \<Rightarrow> (s2, bindr r (\<lambda>(err, items). Inr (if err \<noteq> 0 then 1 else 0, items)))))"

section \<open>What a transfer delivers\<close>

text \<open>Input without errors: chunks of data and interruptions, and the bytes it brings.\<close>

definition flowing :: "rd list \<Rightarrow> bool" where
  "flowing ins \<longleftrightarrow> (\<forall>x \<in> set ins. x = RIntr \<or> (\<exists>bs. x = RData bs \<and> bs \<noteq> []))"

fun inputs :: "rd list \<Rightarrow> bytes" where
  "inputs [] = []"
| "inputs (RData bs # r) = bs @ inputs r"
| "inputs (_ # r) = inputs r"

lemma sys_read_inputs:
  "sys_read s cap = (s', r) \<Longrightarrow> inputs (sk_in s) = (case r of Inl _ \<Rightarrow> [] | Inr bs \<Rightarrow> bs) @ inputs (sk_in s')"
  by (auto simp: sys_read_def split: list.splits rd.splits if_splits)

lemma flowing_Cons: "flowing (x # r) \<longleftrightarrow> (x = RIntr \<or> (\<exists>bs. x = RData bs \<and> bs \<noteq> [])) \<and> flowing r"
  by (auto simp: flowing_def)

lemma read_full_spec:
  assumes "flowing (sk_in s)" and "len \<le> length (inputs (sk_in s))"
  shows "\<exists>ins. read_full s len buf = (s\<lparr>sk_in := ins\<rparr>, Some (buf @ take len (inputs (sk_in s)))) \<and>
    flowing ins \<and> inputs ins = drop len (inputs (sk_in s))"
  using assms
proof (induction s len buf rule: read_full.induct)
  case (1 s len buf)
  show ?case
  proof (cases "len = 0")
    case True
    then show ?thesis using 1(3) by (subst read_full.simps) (auto intro!: exI [of _ "sk_in s"])
  next
    case False
    then have "sk_in s \<noteq> []" using 1(4) by auto
    then obtain x r where x: "sk_in s = x # r" by (cases "sk_in s") auto
    then consider "x = RIntr" | bs where "x = RData bs" "bs \<noteq> []"
      using 1(3) by (auto simp: flowing_Cons)
    then show ?thesis
    proof cases
      case intr: 1
      let ?s = "s\<lparr>sk_in := r\<rparr>"
      have rd: "sys_read s len = (?s, Inl EINTR)" using x intr by (simp add: sys_read_def)
      have "flowing (sk_in ?s)" "len \<le> length (inputs (sk_in ?s))"
        using 1(3,4) x intr by (auto simp: flowing_Cons)
      from "1.IH"(1) [OF False rd [symmetric] refl refl this] show ?thesis
        using x intr rd False by (subst read_full.simps) simp
    next
      case 2
      let ?s = "s\<lparr>sk_in := (if drop len bs = [] then r else RData (drop len bs) # r)\<rparr>"
      have rd: "sys_read s len = (?s, Inr (take len bs))" using x 2 by (simp add: sys_read_def)
      have ne: "take len bs \<noteq> []" using 2 False by simp
      have "flowing (sk_in ?s)" "len - length (take len bs) \<le> length (inputs (sk_in ?s))"
        using 1(3,4) x 2 by (auto simp: flowing_Cons)
      from "1.IH"(2) [OF False rd [symmetric] refl ne this] obtain ins where
        I: "read_full ?s (len - length (take len bs)) (buf @ take len bs)
            = (?s\<lparr>sk_in := ins\<rparr>, Some ((buf @ take len bs) @ take (len - length (take len bs)) (inputs (sk_in ?s))))"
          "flowing ins" "inputs ins = drop (len - length (take len bs)) (inputs (sk_in ?s))"
        by auto
      have "take len bs @ take (len - length (take len bs)) (inputs (sk_in ?s)) = take len (inputs (sk_in s))"
        "drop (len - length (take len bs)) (inputs (sk_in ?s)) = drop len (inputs (sk_in s))"
        using x 2 by auto
      then show ?thesis using I rd False ne by (subst read_full.simps) (intro exI [of _ ins], simp)
    qed
  qed
qed

text \<open>Output without errors: some bytes are accepted, or the call is interrupted.\<close>

definition accepting :: "wr list \<Rightarrow> bool" where
  "accepting outs \<longleftrightarrow> (\<forall>x \<in> set outs. x = WIntr \<or> (\<exists>n. x = WOk (Suc n)))"

fun room :: "wr list \<Rightarrow> nat" where
  "room [] = 0"
| "room (WOk n # r) = n + room r"
| "room (_ # r) = room r"

lemma accepting_Cons: "accepting (x # r) \<longleftrightarrow> (x = WIntr \<or> (\<exists>n. x = WOk (Suc n))) \<and> accepting r"
  by (auto simp: accepting_def)

lemma write_all_spec:
  assumes "accepting (sk_out s)" and "length bs \<le> room (sk_out s)"
  shows "\<exists>outs. write_all s bs = (s\<lparr>sk_out := outs, sk_sent := sk_sent s @ bs\<rparr>, True) \<and> accepting outs"
  using assms
proof (induction s bs rule: write_all.induct)
  case (1 s bs)
  show ?case
  proof (cases "bs = []")
    case True
    then show ?thesis using 1(3) by (subst write_all.simps) (auto intro!: exI [of _ "sk_out s"])
  next
    case False
    then have "sk_out s \<noteq> []" using 1(4) by auto
    then obtain x r where x: "sk_out s = x # r" by (cases "sk_out s") auto
    then consider "x = WIntr" | n where "x = WOk (Suc n)"
      using 1(3) by (auto simp: accepting_Cons)
    then show ?thesis
    proof cases
      case intr: 1
      let ?s = "s\<lparr>sk_out := r\<rparr>"
      have wr: "sys_write s bs = (?s, Inl EINTR)" using x intr by (simp add: sys_write_def)
      have "accepting (sk_out ?s)" "length bs \<le> room (sk_out ?s)"
        using 1(3,4) x intr by (auto simp: accepting_Cons)
      from "1.IH"(1) [OF False wr [symmetric] refl refl this] show ?thesis
        using x intr wr False by (subst write_all.simps) simp
    next
      case 2
      let ?s = "s\<lparr>sk_out := r, sk_sent := sk_sent s @ take (Suc n) bs\<rparr>" and ?k = "min (Suc n) (length bs)"
      have wr: "sys_write s bs = (?s, Inr ?k)" using x 2 by (simp add: sys_write_def)
      have ne: "?k \<noteq> 0" using False by simp
      have "accepting (sk_out ?s)" "length (drop ?k bs) \<le> room (sk_out ?s)"
        using 1(3,4) x 2 by (auto simp: accepting_Cons)
      from "1.IH"(2) [OF False wr [symmetric] refl ne this] show ?thesis
        using wr False ne by (subst write_all.simps) (auto simp: min_def)
    qed
  qed
qed

lemma rd_le32_inject: "length hdr = 4 \<Longrightarrow> hdr = le32 w \<Longrightarrow> rd_le32 hdr = w"
  by simp

lemma read_resp_spec:
  assumes "flowing (sk_in s)" and "inputs (sk_in s) = le32 (of_nat (length data)) @ data @ rest"
    and "1 \<le> length data" and "length data \<le> k_max_msg"
  shows "\<exists>ins. read_resp s = (s\<lparr>sk_in := ins\<rparr>, Some (on_response data)) \<and> inputs ins = rest"
proof -
  have n: "unat (of_nat (length data) :: u32) = length data"
    using assms(4) by (simp add: k_max_msg_def unat_of_nat)
  obtain i1 where i1: "read_full s 4 [] = (s\<lparr>sk_in := i1\<rparr>, Some (take 4 (inputs (sk_in s))))"
      "flowing i1" "inputs i1 = drop 4 (inputs (sk_in s))"
    using read_full_spec [OF assms(1), of 4 "[]"] assms(2) by auto
  then have d: "inputs i1 = data @ rest" by (simp add: assms(2))
  obtain i2 where i2: "read_full (s\<lparr>sk_in := i1\<rparr>) (length data) [] = (s\<lparr>sk_in := i2\<rparr>, Some data)" "inputs i2 = rest"
    using read_full_spec [of "s\<lparr>sk_in := i1\<rparr>" "length data" "[]"] i1(2) d by auto
  have "take 4 (inputs (sk_in s)) = le32 (of_nat (length data))" by (simp add: assms(2))
  then show ?thesis
    using i1(1) i2 assms(3,4) n by (intro exI [of _ i2]) (auto simp: read_resp_def Let_def)
qed

text \<open>The whole run of the client on a reply.\<close>

lemma client_run:
  assumes "send_req cmd = Some frame" and "accepting (sk_out s)" and "length frame \<le> room (sk_out s)"
    and "flowing (sk_in s)"
    and "inputs (sk_in s) = le32 (of_nat (length (put_reply [] r))) @ put_reply [] r @ rest"
    and "length (put_reply [] r) \<le> k_max_msg"
  shows "\<exists>s'. client_main s cmd = (s', Inr (1, reply_items r)) \<and>
    sk_sent s' = sk_sent s @ frame \<and> inputs (sk_in s') = rest"
proof -
  have pos: "1 \<le> length (put_reply [] r)" using length_enc_reply_pos [of r] by linarith
  have small: "length (put_reply [] r) < 2 ^ 31" using assms(6) by (simp add: k_max_msg_def)
  have on: "on_response (put_reply [] r) = Inr (of_nat (length (put_reply [] r)), reply_items r)"
    using on_response_enc_reply [OF small, of "[]"] by simp
  have ne: "(of_nat (length (put_reply [] r)) :: u32) \<noteq> 0"
    using pos small unat_of_nat [of "length (put_reply [] r)", where 'a = 32]
    by (auto simp: take_bit_nat_eq_self_iff)
  obtain outs where w: "write_all s frame = (s\<lparr>sk_out := outs, sk_sent := sk_sent s @ frame\<rparr>, True)"
    using write_all_spec [OF assms(2,3)] by auto
  obtain ins where "read_resp (s\<lparr>sk_out := outs, sk_sent := sk_sent s @ frame\<rparr>)
      = (s\<lparr>sk_out := outs, sk_sent := sk_sent s @ frame, sk_in := ins\<rparr>, Some (on_response (put_reply [] r)))"
      "inputs ins = rest"
    using read_resp_spec [of "s\<lparr>sk_out := outs, sk_sent := sk_sent s @ frame\<rparr>" "put_reply [] r" rest]
      assms(4-6) pos by auto
  then show ?thesis
    using assms(1) w on ne by (simp add: client_main_def client_send_def)
qed

section \<open>Properties\<close>

text \<open>
  C23.  However the kernel cuts up the stream, and however often a call is interrupted: \<open>read_full\<close>
  returns exactly the next \<open>len\<close> bytes of the input and leaves the rest for the next call, and
  \<open>write_all\<close> sends exactly its bytes in order.
\<close>

theorem transfers_exact:
  assumes "flowing (sk_in s)" and "len \<le> length (inputs (sk_in s))"
    and "accepting (sk_out t)" and "length bs \<le> room (sk_out t)"
  shows "(\<exists>ins. read_full s len [] = (s\<lparr>sk_in := ins\<rparr>, Some (take len (inputs (sk_in s)))) \<and>
      flowing ins \<and> inputs ins = drop len (inputs (sk_in s))) \<and>
    (\<exists>outs. write_all t bs = (t\<lparr>sk_out := outs, sk_sent := sk_sent t @ bs\<rparr>, True) \<and> accepting outs)"
  using read_full_spec [OF assms(1,2), of "[]"] write_all_spec [OF assms(3,4)] by simp

definition demo_sock :: sock where
  "demo_sock = \<lparr>sk_in = [RData [6, 0], RIntr, RData [0, 0, 2, 1, 0, 0], RData [0, 97, 5]],
     sk_out = [WOk 3, WIntr, WOk 90], sk_sent = []\<rparr>"

lemma demo_sock_ok: "flowing (sk_in demo_sock)" "accepting (sk_out demo_sock)"
  "inputs (sk_in demo_sock) = le32 (of_nat (length (put_reply [] (RStr [97])))) @ put_reply [] (RStr [97]) @ [5]"
  "room (sk_out demo_sock) = 93"
proof -
  have "WOk 3 = WOk (Suc 2)" "WOk 90 = WOk (Suc 89)" by simp_all
  then show "accepting (sk_out demo_sock)" unfolding demo_sock_def accepting_def by auto
  show "inputs (sk_in demo_sock) = le32 (of_nat (length (put_reply [] (RStr [97])))) @ put_reply [] (RStr [97]) @ [5]"
    by code_simp
qed (simp_all add: demo_sock_def flowing_def)

theorem transfers_exact_witness:
  "(\<exists>ins. read_full demo_sock 3 [] = (demo_sock\<lparr>sk_in := ins\<rparr>, Some [6, 0, 0]) \<and> inputs ins = [0, 2, 1, 0, 0, 0, 97, 5]) \<and>
   (\<exists>outs. write_all demo_sock [1, 2, 3, 4, 5] = (demo_sock\<lparr>sk_out := outs, sk_sent := [1, 2, 3, 4, 5]\<rparr>, True))"
  using transfers_exact [OF demo_sock_ok(1) _ demo_sock_ok(2), of 3 "[1, 2, 3, 4, 5]"] demo_sock_ok(4)
  by (auto simp: demo_sock_def)

text \<open>
  A whole exchange of the client: when the kernel takes the request, and the answer is the
  frame of a reply the server can write, cut up in any way, the client sends exactly the frame of
  its command, prints exactly the items of the reply and leaves what follows it unread.  Its exit
  status is 1 all the same.
\<close>

theorem client_exchange:
  assumes "send_req cmd = Some frame" and "accepting (sk_out s)" and "length frame \<le> room (sk_out s)"
    and "flowing (sk_in s)"
    and "inputs (sk_in s) = le32 (of_nat (length (put_reply [] r))) @ put_reply [] r @ rest"
    and "length (put_reply [] r) \<le> k_max_msg"
  shows "\<exists>s'. client_main s cmd = (s', Inr (1, reply_items r)) \<and>
    sk_sent s' = sk_sent s @ frame \<and> inputs (sk_in s') = rest"
  by (rule client_run [OF assms])

theorem client_exchange_witness:
  "\<exists>s' frame. send_req [[107]] = Some frame \<and> client_main demo_sock [[107]] = (s', Inr (1, [IStr [97]])) \<and>
     sk_sent s' = frame \<and> inputs (sk_in s') = [5]"
proof -
  have f: "send_req [[107]] = Some [9, 0, 0, 0, 1, 0, 0, 0, 1, 0, 0, 0, 107]" by code_simp
  have n: "length (put_reply [] (RStr [97])) \<le> k_max_msg" by (simp add: out_defs k_max_msg_def)
  show ?thesis
    using client_exchange [OF f demo_sock_ok(2) _ demo_sock_ok(1,3) n] demo_sock_ok(4) f
    by (simp add: demo_sock_def)
qed

text \<open>
  The client never reports success: whatever the command, the network and the server do, its
  exit status is not 0, because \<open>read_resp\<close> returns the number of bytes consumed and \<open>main\<close> takes any
  number but 0 for an error.
\<close>

theorem client_never_succeeds:
  "\<nexists>s' items. client_main s cmd = (s', Inr (0, items))"
proof -
  have len: "length data < 2 ^ 31" if "read_full s1 n [] = (s2, Some data)" "n \<le> k_max_msg" for s1 s2 n data
  proof -
    have "length data \<le> length buf + n" if "read_full s1 n buf = (s2, Some data)" for buf
      using that
    proof (induction s1 n buf rule: read_full.induct)
      case (1 s n buf)
      from 1(3) show ?case
        using 1(1,2) unfolding read_full.simps [of s n buf]
        by (fastforce simp: sys_read_def split: if_splits prod.splits sum.splits list.splits rd.splits)
    qed
    from this [of "[]"] show ?thesis using that by (simp add: k_max_msg_def)
  qed
  have "read_resp t \<noteq> (s', Some (Inr (0, items)))" for t s' items
  proof
    assume "read_resp t = (s', Some (Inr (0, items)))"
    then obtain s1 data n where d: "read_full s1 n [] = (s', Some data)" "n \<le> k_max_msg"
        "on_response data = Inr (0, items)"
      by (fastforce simp: read_resp_def Let_def split: prod.splits option.splits if_splits)
    show False
      using good_on_response [OF len [OF d(1,2)]] d(3) by (simp add: good_result_def)
  qed
  then show ?thesis
    by (fastforce simp: client_main_def bindr_eq_Inr split: prod.splits option.splits bool.splits if_splits)
qed

end
