(* ===== verification/Connections.thy ===== *)
theory Connections
  imports Commands Sockets Idle_List
begin

text \<open>
  A client connection (\<open>struct Conn\<close> of \<open>common.h\<close>) and the code of \<open>utils.cpp\<close> that moves it on: filling the
  read buffer, taking requests out of it, running them, and flushing the reply.
\<close>

unbundle bit_operations_syntax

section \<open>State\<close>

datatype conn_state = STATE_REQ | STATE_RES | STATE_END

text \<open>
  The buffers hold \<open>4 + k_max_msg\<close> bytes; \<open>c_rbuf\<close> is the first \<open>rbuf_size\<close> bytes of the read buffer and
  \<open>c_wbuf\<close> the first \<open>wbuf_size\<close> of the write buffer.  The node of the idle list is in a store of its own.
\<close>

record Conn =
  c_fd :: nat
  c_state :: conn_state
  c_rbuf :: bytes
  c_wbuf :: bytes
  c_sent :: nat
  c_idle_start :: u64

definition buf_size :: nat where
  "buf_size = 4 + k_max_msg"

definition ERR_2BIG :: u32 where
  "ERR_2BIG = 1001"

section \<open>Writing\<close>

text \<open>
  \<open>try_flush_buffer\<close>: the result says whether to call it again.  \<open>EINTR\<close> repeats the call in the
  code's inner loop.
\<close>

function try_flush_buffer :: "sock \<Rightarrow> Conn \<Rightarrow> (sock \<times> Conn \<times> bool) res" where
  "try_flush_buffer s c =
     bindr (checkr OutOfBounds (c_sent c \<le> length (c_wbuf c))) (\<lambda>_.
     (case sys_write s (drop (c_sent c) (c_wbuf c)) of
        (s', Inl e) \<Rightarrow>
          if e = EINTR then try_flush_buffer s' c
          else if e = EAGAIN then Inr (s', c, False)
          else Inr (s', c\<lparr>c_state := STATE_END\<rparr>, False)
      | (s', Inr n) \<Rightarrow>
          let c1 = c\<lparr>c_sent := c_sent c + n\<rparr> in
          bindr (checkr AssertFailed (c_sent c1 \<le> length (c_wbuf c1))) (\<lambda>_.
          if c_sent c1 = length (c_wbuf c1)
          then Inr (s', c1\<lparr>c_state := STATE_REQ, c_wbuf := [], c_sent := 0\<rparr>, False)
          else Inr (s', c1, True))))"
  by pat_completeness auto
termination
  by (relation "measure (\<lambda>(s, c). length (sk_out s))")
    (auto intro: sys_write_store sys_write_store [OF sym])

declare try_flush_buffer.simps [simp del]

text \<open>\<open>stateres\<close>.  Every further turn has used up one of the results the kernel has in store.\<close>

fun stateres_loop :: "nat \<Rightarrow> sock \<Rightarrow> Conn \<Rightarrow> (sock \<times> Conn) res" where
  "stateres_loop 0 s c = Inl Hang"
| "stateres_loop (Suc fuel) s c =
     bindr (try_flush_buffer s c) (\<lambda>(s', c', more).
       if more then stateres_loop fuel s' c' else Inr (s', c'))"

definition stateres :: "sock \<Rightarrow> Conn \<Rightarrow> (sock \<times> Conn) res" where
  "stateres s c = stateres_loop (Suc (length (sk_out s))) s c"

section \<open>Requests\<close>

definition one_request :: "gdata \<Rightarrow> sock \<Rightarrow> Conn \<Rightarrow> (gdata \<times> sock \<times> Conn \<times> bool) res" where
  "one_request g s c =
     (if length (c_rbuf c) < 4 then Inr (g, s, c, False)
      else
        let len = rd_le32 (take 4 (c_rbuf c)) in
        if unat len > k_max_msg then Inr (g, s, c\<lparr>c_state := STATE_END\<rparr>, False)
        else if unat (4 + len) > length (c_rbuf c) then Inr (g, s, c, False)
        else
          bindr (parse_req (drop 4 (c_rbuf c)) (unat len)) (\<lambda>cmd. case cmd of
            None \<Rightarrow> Inr (g, s, c\<lparr>c_state := STATE_END\<rparr>, False)
          | Some cmd \<Rightarrow>
              bindr (do_request g cmd []) (\<lambda>(g1, err, out).
              if err \<noteq> RES_OK then Inr (g1, s, c\<lparr>c_state := STATE_END\<rparr>, False)
              else
                let out1 = (if 4 + length out > k_max_msg
                            then out_err [] ERR_2BIG (lit ''response is too big'') else out) in
                bindr (checkr OutOfBounds (4 + length out1 \<le> buf_size)) (\<lambda>_.
                let c1 = c\<lparr>c_wbuf := le32 (of_nat (length out1)) @ out1,
                           c_rbuf := drop (4 + unat len) (c_rbuf c), c_state := STATE_RES\<rparr> in
                bindr (stateres s c1) (\<lambda>(s2, c2).
                Inr (g1, s2, c2, c_state c2 = STATE_REQ))))))"

text \<open>The \<open>while (one_request(conn))\<close> loop: a request taken out of the buffer is at least four bytes.\<close>

fun request_loop :: "nat \<Rightarrow> gdata \<Rightarrow> sock \<Rightarrow> Conn \<Rightarrow> (gdata \<times> sock \<times> Conn) res" where
  "request_loop 0 g s c = Inl Hang"
| "request_loop (Suc fuel) g s c =
     bindr (one_request g s c) (\<lambda>(g', s', c', more).
       if more then request_loop fuel g' s' c' else Inr (g', s', c'))"

section \<open>Reading\<close>

function read_retry :: "sock \<Rightarrow> nat \<Rightarrow> sock \<times> (errno + bytes)" where
  "read_retry s cap = (case sys_read s cap of
       (s', Inl e) \<Rightarrow> if e = EINTR then read_retry s' cap else (s', Inl e)
     | (s', Inr bs) \<Rightarrow> (s', Inr bs))"
  by pat_completeness auto
termination
  by (relation "measure (\<lambda>(s, cap). in_store (sk_in s))")
    (auto intro: sys_read_EINTR sys_read_EINTR [OF sym])

declare read_retry.simps [simp del]

definition try_fill_buffer :: "gdata \<Rightarrow> sock \<Rightarrow> Conn \<Rightarrow> (gdata \<times> sock \<times> Conn \<times> bool) res" where
  "try_fill_buffer g s c =
     bindr (checkr AssertFailed (length (c_rbuf c) < buf_size)) (\<lambda>_.
     (case read_retry s (buf_size - length (c_rbuf c)) of
        (s1, Inl e) \<Rightarrow>
          if e = EAGAIN then Inr (g, s1, c, False)
          else Inr (g, s1, c\<lparr>c_state := STATE_END\<rparr>, False)
      | (s1, Inr bs) \<Rightarrow>
          if bs = [] then Inr (g, s1, c\<lparr>c_state := STATE_END\<rparr>, False)
          else
            let c1 = c\<lparr>c_rbuf := c_rbuf c @ bs\<rparr> in
            bindr (checkr AssertFailed (length (c_rbuf c1) \<le> buf_size)) (\<lambda>_.
            bindr (request_loop (Suc (length (c_rbuf c1))) g s1 c1) (\<lambda>(g2, s2, c2).
            Inr (g2, s2, c2, c_state c2 = STATE_REQ)))))"

fun statereq_loop :: "nat \<Rightarrow> gdata \<Rightarrow> sock \<Rightarrow> Conn \<Rightarrow> (gdata \<times> sock \<times> Conn) res" where
  "statereq_loop 0 g s c = Inl Hang"
| "statereq_loop (Suc fuel) g s c =
     bindr (try_fill_buffer g s c) (\<lambda>(g', s', c', more).
       if more then statereq_loop fuel g' s' c' else Inr (g', s', c'))"

definition statereq :: "gdata \<Rightarrow> sock \<Rightarrow> Conn \<Rightarrow> (gdata \<times> sock \<times> Conn) res" where
  "statereq g s c = statereq_loop (Suc (in_store (sk_in s))) g s c"

section \<open>The connections of the server\<close>

text \<open>
  \<open>sv_socks\<close> is what the kernel has in store for each open descriptor; \<open>sv_closed\<close> are the descriptors
  closed, in order.
\<close>

record server =
  sv_g :: gdata
  sv_conns :: "Conn store"
  sv_fd2conn :: "ptr list"
  sv_idle :: dmem
  sv_socks :: "nat \<Rightarrow> sock"
  sv_closed :: "nat list"

definition conn_put :: "ptr list \<Rightarrow> addr \<Rightarrow> Conn \<Rightarrow> ptr list" where
  "conn_put fd2conn a c =
     (let tab = (if length fd2conn \<le> c_fd c
                 then fd2conn @ replicate (c_fd c + 1 - length fd2conn) None else fd2conn) in
      tab[c_fd c := Some a])"

definition connection_io :: "server \<Rightarrow> addr \<Rightarrow> server res" where
  "connection_io sv conn =
     bindr (load (sv_conns sv) (Some conn)) (\<lambda>c0.
     let (now, g) = get_monotonic_usec (sv_g sv); c = c0\<lparr>c_idle_start := now\<rparr> in
     bindr (idle_touch conn (sv_idle sv)) (\<lambda>d.
     bindr (case c_state c of
         STATE_REQ \<Rightarrow> statereq g (sv_socks sv (c_fd c)) c
       | STATE_RES \<Rightarrow> bindr (stateres (sv_socks sv (c_fd c)) c) (\<lambda>(s, c'). Inr (g, s, c'))
       | STATE_END \<Rightarrow> Inl AssertFailed) (\<lambda>(g', s', c').
     Inr (sv\<lparr>sv_g := g', sv_idle := d, sv_conns := (sv_conns sv)(conn \<mapsto> c'),
             sv_socks := (sv_socks sv)(c_fd c := s')\<rparr>))))"

section \<open>Invariant of a connection\<close>

definition pending :: "Conn \<Rightarrow> bytes" where
  "pending c = drop (c_sent c) (c_wbuf c)"

text \<open>Both buffers are within bounds, and the write buffer is empty outside a reply.\<close>

definition conn_ok :: "Conn \<Rightarrow> bool" where
  "conn_ok c \<longleftrightarrow> length (c_rbuf c) \<le> buf_size \<and> length (c_wbuf c) \<le> buf_size \<and>
     (case c_state c of STATE_REQ \<Rightarrow> c_wbuf c = [] \<and> c_sent c = 0
        | STATE_RES \<Rightarrow> c_sent c < length (c_wbuf c) | STATE_END \<Rightarrow> True)"

text \<open>A connection waiting for its next event: there is room to read, unless it is to be closed.\<close>

definition conn_idle :: "Conn \<Rightarrow> bool" where
  "conn_idle c \<longleftrightarrow> conn_ok c \<and> (c_state c \<noteq> STATE_END \<longrightarrow> length (c_rbuf c) < buf_size)"

lemma conn_ok_end: "conn_ok c \<Longrightarrow> conn_ok (c\<lparr>c_state := STATE_END\<rparr>)"
  by (simp add: conn_ok_def)

section \<open>Flushing\<close>

lemma try_flush_spec:
  assumes "conn_ok c" and "c_state c = STATE_RES"
  shows "\<exists>s' c' again. try_flush_buffer s c = Inr (s', c', again) \<and> conn_ok c' \<and> c_rbuf c' = c_rbuf c \<and>
    sk_sent s' @ pending c' = sk_sent s @ pending c \<and>
    (again \<longrightarrow> c_state c' = STATE_RES \<and> length (sk_out s') < length (sk_out s))"
  using assms
proof (induction s c rule: try_flush_buffer.induct)
  case (1 s c)
  note step = try_flush_buffer.simps [of s c]
  have c: "c_sent c < length (c_wbuf c)" "length (c_rbuf c) \<le> buf_size" "length (c_wbuf c) \<le> buf_size"
    using 1(2,3) by (simp_all add: conn_ok_def)
  obtain s' r where w: "sys_write s (pending c) = (s', r)" by fastforce
  show ?case
  proof (cases r)
    case (Inl e)
    have sent: "sk_sent s' = sk_sent s" using w Inl by (auto simp: sys_write_def split: list.splits wr.splits)
    show ?thesis
    proof (cases "e = EINTR")
      case True
      then have "length (sk_out s') < length (sk_out s)" using sys_write_store [OF w] Inl by simp
      then show ?thesis
        using 1(1) [of "()" s' r e] 1(2,3) c w Inl True sent
        by (fastforce simp: step pending_def)
    next
      case False
      then show ?thesis
        using c w Inl sent 1(2) conn_ok_end [OF 1(2)] by (auto simp: step pending_def)
    qed
  next
    case (Inr n)
    have n: "n \<le> length (pending c)" "sk_sent s' = sk_sent s @ take n (pending c)"
        "length (sk_out s') < length (sk_out s)"
      using w Inr sys_write_store [OF w] by (auto simp: sys_write_def min_def split: list.splits wr.splits)
    then have le: "c_sent c + n \<le> length (c_wbuf c)" using c(1) by (simp add: pending_def)
    have "take n (pending c) @ drop (c_sent c + n) (c_wbuf c) = pending c"
      by (simp add: pending_def add.commute flip: drop_drop)
    then show ?thesis
      using c w Inr n le 1(3) by (auto simp: step pending_def conn_ok_def Let_def)
  qed
qed

lemma stateres_loop_spec:
  assumes "conn_ok c" and "c_state c = STATE_RES" and "length (sk_out s) < fuel"
  shows "\<exists>s' c'. stateres_loop fuel s c = Inr (s', c') \<and> conn_ok c' \<and> c_rbuf c' = c_rbuf c \<and>
    sk_sent s' @ pending c' = sk_sent s @ pending c"
  using assms
proof (induction fuel arbitrary: s c)
  case (Suc fuel)
  obtain s' c' again where f: "try_flush_buffer s c = Inr (s', c', again)" "conn_ok c'" "c_rbuf c' = c_rbuf c"
      "sk_sent s' @ pending c' = sk_sent s @ pending c"
      "again \<longrightarrow> c_state c' = STATE_RES \<and> length (sk_out s') < length (sk_out s)"
    using try_flush_spec [OF Suc.prems(1,2)] by blast
  show ?case
  proof (cases again)
    case True
    then show ?thesis using f Suc.IH [of c' s'] Suc.prems(3) by auto
  qed (use f in simp)
qed simp

lemma stateres_spec:
  assumes "conn_ok c" and "c_state c = STATE_RES"
  obtains s' c' where "stateres s c = Inr (s', c')" and "conn_ok c'" and "c_rbuf c' = c_rbuf c"
    and "sk_sent s' @ pending c' = sk_sent s @ pending c"
  using stateres_loop_spec [OF assms, of s] unfolding stateres_def by blast

section \<open>Requests\<close>

text \<open>Nothing but a read touches the input.\<close>

lemma sys_write_in: "sys_write s bs = (s', r) \<Longrightarrow> sk_in s' = sk_in s"
  by (auto simp: sys_write_def split: list.splits wr.splits)

lemma try_flush_in: "try_flush_buffer s c = Inr (s', c', again) \<Longrightarrow> sk_in s' = sk_in s"
proof (induction s c rule: try_flush_buffer.induct)
  case (1 s c)
  obtain s1 r where w: "sys_write s (drop (c_sent c) (c_wbuf c)) = (s1, r)" by fastforce
  have le: "c_sent c \<le> length (c_wbuf c)"
    using 1(2) by (subst (asm) try_flush_buffer.simps) (auto simp: bindr_eq_Inr)
  show ?case
  proof (cases "r = Inl EINTR")
    case True
    then have "try_flush_buffer s1 c = Inr (s', c', again)"
      using 1(2) w le by (subst (asm) try_flush_buffer.simps) simp
    then show ?thesis using 1(1) [of "()" s1 r EINTR] le w True sys_write_in [OF w] by simp
  next
    case False
    then have "s' = s1"
      using 1(2) w le by (subst (asm) try_flush_buffer.simps)
        (auto simp: Let_def bindr_eq_Inr split: sum.splits if_splits)
    then show ?thesis using sys_write_in [OF w] by simp
  qed
qed

lemma stateres_loop_in: "stateres_loop fuel s c = Inr (s', c') \<Longrightarrow> sk_in s' = sk_in s"
  by (induction fuel arbitrary: s c)
    (auto simp: bindr_eq_Inr split: if_splits dest!: try_flush_in)

lemma stateres_in: "stateres s c = Inr (s', c') \<Longrightarrow> sk_in s' = sk_in s"
  by (auto simp: stateres_def dest!: stateres_loop_in simp del: stateres_loop.simps)

text \<open>
  The requests in a stream of bytes, as the server cuts it up: a length, then a body of this length that \<open>parse_req\<close>
  accepts.  The stream is cut up no further after a frame that is not complete, too long or not accepted.
\<close>

function frames :: "bytes \<Rightarrow> bytes list list" where
  "frames bs =
     (if length bs < 4 then []
      else
        let len = unat (rd_le32 (take 4 bs)) in
        if len > k_max_msg \<or> 4 + len > length bs then []
        else (case parse_req (drop 4 bs) len of
            Inr (Some cmd) \<Rightarrow> cmd # frames (drop (4 + len) bs)
          | _ \<Rightarrow> []))"
  by pat_completeness auto
termination
  by (relation "measure length") auto

declare frames.simps [simp del]

lemma frames_short: "length bs < 4 \<Longrightarrow> frames bs = []"
  by (simp add: frames.simps)

lemma frames_Cons:
  assumes "4 \<le> length bs" and "unat (rd_le32 (take 4 bs)) \<le> k_max_msg"
    and "4 + unat (rd_le32 (take 4 bs)) \<le> length bs"
    and "parse_req (drop 4 bs) (unat (rd_le32 (take 4 bs))) = Inr (Some cmd)"
  shows "frames (bs @ later) = cmd # frames (drop (4 + unat (rd_le32 (take 4 bs))) bs @ later)"
proof -
  have "parse_req (drop 4 (bs @ later)) (unat (rd_le32 (take 4 bs))) = Inr (Some cmd)"
    using assms(1,3,4) parse_req_append [of "unat (rd_le32 (take 4 bs))" "drop 4 bs" later] by simp
  then show ?thesis using assms(1-3) by (subst frames.simps) (simp add: Let_def)
qed

text \<open>
  What has come in on a connection and is still to be looked at, and that the requests in it are all in \<open>C\<close>.
\<close>

definition stream :: "Conn \<Rightarrow> sock \<Rightarrow> bytes" where
  "stream c s = c_rbuf c @ inputs (sk_in s)"

definition sends :: "bytes list set \<Rightarrow> bytes \<Rightarrow> bool" where
  "sends C bs \<longleftrightarrow> set (frames bs) \<subseteq> C"

text \<open>
  The states that commands of \<open>C\<close> lead to from a given one, and a fault of such a command in one of
  them.
\<close>

inductive runs :: "bytes list set \<Rightarrow> gdata \<Rightarrow> gdata \<Rightarrow> bool" for C g0 where
  start: "runs C g0 g0"
| command: "runs C g0 g \<Longrightarrow> cmd \<in> C \<Longrightarrow> do_request g cmd [] = Inr (g', r, out) \<Longrightarrow> runs C g0 g'"

section \<open>The requests that are run\<close>

text \<open>
  The calls of \<open>do_request\<close> that each part of a connection's code makes, in order: the state of the database and the
  command.  What a call returns goes into the next one; after a fault there is none.
\<close>

type_synonym calls = "(gdata \<times> bytes list) list"

definition one_calls :: "gdata \<Rightarrow> Conn \<Rightarrow> calls" where
  "one_calls g c = (case frames (c_rbuf c) of [] \<Rightarrow> [] | cmd # _ \<Rightarrow> [(g, cmd)])"

fun request_calls :: "nat \<Rightarrow> gdata \<Rightarrow> sock \<Rightarrow> Conn \<Rightarrow> calls" where
  "request_calls 0 g s c = []"
| "request_calls (Suc fuel) g s c = one_calls g c @ (case one_request g s c of
       Inr (g', s', c', True) \<Rightarrow> request_calls fuel g' s' c' | _ \<Rightarrow> [])"

definition fill_calls :: "gdata \<Rightarrow> sock \<Rightarrow> Conn \<Rightarrow> calls" where
  "fill_calls g s c = (case read_retry s (buf_size - length (c_rbuf c)) of
       (s1, Inl e) \<Rightarrow> []
     | (s1, Inr bs) \<Rightarrow> if bs = [] then []
         else request_calls (Suc (length (c_rbuf c @ bs))) g s1 (c\<lparr>c_rbuf := c_rbuf c @ bs\<rparr>))"

fun statereq_calls :: "nat \<Rightarrow> gdata \<Rightarrow> sock \<Rightarrow> Conn \<Rightarrow> calls" where
  "statereq_calls 0 g s c = []"
| "statereq_calls (Suc fuel) g s c = fill_calls g s c @ (case try_fill_buffer g s c of
       Inr (g', s', c', True) \<Rightarrow> statereq_calls fuel g' s' c' | _ \<Rightarrow> [])"

definition connection_calls :: "server \<Rightarrow> addr \<Rightarrow> calls" where
  "connection_calls sv conn = (case sv_conns sv conn of
       None \<Rightarrow> []
     | Some c0 \<Rightarrow>
         let (now, g) = get_monotonic_usec (sv_g sv); s = sv_socks sv (c_fd c0) in
         if c_state c0 = STATE_REQ then statereq_calls (Suc (in_store (sk_in s))) g s (c0\<lparr>c_idle_start := now\<rparr>) else [])"

text \<open>A fault of the last of these calls, and that all of them are of commands of \<open>C\<close>.\<close>

definition blames :: "calls \<Rightarrow> fault \<Rightarrow> bool" where
  "blames qs e \<longleftrightarrow> qs \<noteq> [] \<and> (case last qs of (g, cmd) \<Rightarrow> do_request g cmd [] = Inl e)"

definition calls_in :: "bytes list set \<Rightarrow> gdata \<Rightarrow> calls \<Rightarrow> bool" where
  "calls_in C g0 qs \<longleftrightarrow> (\<forall>(g, cmd) \<in> set qs. runs C g0 g \<and> cmd \<in> C)"

lemma blames_append: "blames qs e \<Longrightarrow> blames (ps @ qs) e"
  by (simp add: blames_def)

lemma calls_in_simps [simp]:
  "calls_in C g0 []" "calls_in C g0 (ps @ qs) \<longleftrightarrow> calls_in C g0 ps \<and> calls_in C g0 qs"
  "calls_in C g0 [(g, cmd)] \<longleftrightarrow> runs C g0 g \<and> cmd \<in> C"
  by (auto simp: calls_in_def)

lemma blames_in:
  assumes "blames qs e" and "calls_in C g0 qs"
  shows "\<exists>g. \<exists>cmd \<in> C. runs C g0 g \<and> do_request g cmd [] = Inl e"
proof -
  obtain g cmd where q: "last qs = (g, cmd)" by fastforce
  then have "(g, cmd) \<in> set qs" using assms(1) by (metis blames_def last_in_set)
  then show ?thesis using assms q unfolding blames_def calls_in_def by fastforce
qed

text \<open>One request: without a frame nothing is run; with one, the result is that of its command.\<close>

definition reply_of :: "bytes \<Rightarrow> bytes" where
  "reply_of out = (if 4 + length out > k_max_msg then out_err [] ERR_2BIG (lit ''response is too big'') else out)"

lemma one_request_cases:
  assumes "conn_ok c" and "c_state c = STATE_REQ"
  obtains (unframed) c' where "frames (c_rbuf c) = []" and "one_request g s c = Inr (g, s, c', False)"
      and "c' = c\<lparr>c_state := STATE_END\<rparr> \<or> c' = c \<and> length (c_rbuf c) < buf_size"
  | (framed) cmd rest where "\<forall>later. frames (c_rbuf c @ later) = cmd # frames (rest @ later)" and "length rest < length (c_rbuf c)"
      and "\<exists>n. rest = drop n (c_rbuf c)"
      and "one_request g s c = bindr (do_request g cmd []) (\<lambda>(g1, err, out).
        if err \<noteq> RES_OK then Inr (g1, s, c\<lparr>c_state := STATE_END\<rparr>, False)
        else bindr (stateres s (c\<lparr>c_wbuf := le32 (of_nat (length (reply_of out))) @ reply_of out, c_rbuf := rest,
            c_state := STATE_RES\<rparr>)) (\<lambda>(s2, c2). Inr (g1, s2, c2, c_state c2 = STATE_REQ)))"
proof -
  let ?len = "rd_le32 (take 4 (c_rbuf c))"
  consider "length (c_rbuf c) < 4" | "4 \<le> length (c_rbuf c)" "k_max_msg < unat ?len"
    | "4 \<le> length (c_rbuf c)" "unat ?len \<le> k_max_msg" "length (c_rbuf c) < unat (4 + ?len)"
    | "4 \<le> length (c_rbuf c)" "unat ?len \<le> k_max_msg" "unat (4 + ?len) \<le> length (c_rbuf c)"
    by linarith
  then show ?thesis
  proof cases
    case 1
    then show ?thesis
      by (intro unframed [of c]) (simp_all add: one_request_def frames_short buf_size_def k_max_msg_def)
  next
    case 2
    then show ?thesis
      by (intro unframed [of "c\<lparr>c_state := STATE_END\<rparr>"]) (simp_all add: one_request_def frames.simps Let_def)
  next
    case 3
    moreover have len: "unat (4 + ?len) = 4 + unat ?len" "unat (4 + ?len) \<le> buf_size"
      using 3(2) by (simp_all add: unat_word_ariths buf_size_def k_max_msg_def)
    ultimately show ?thesis by (intro unframed [of c]) (simp_all add: one_request_def frames.simps Let_def)
  next
    case 4
    have len: "unat (4 + ?len) = 4 + unat ?len"
      using 4(2) by (simp add: unat_word_ariths k_max_msg_def)
    have "unat ?len \<le> length (drop 4 (c_rbuf c))" using 4(3) len by simp
    then obtain r where r: "parse_req (drop 4 (c_rbuf c)) (unat ?len) = Inr r"
      using parse_req_no_fault by blast
    show ?thesis
    proof (cases r)
      case None
      then show ?thesis using 4 len r
        by (intro unframed [of "c\<lparr>c_state := STATE_END\<rparr>"]) (simp_all add: one_request_def frames.simps Let_def)
    next
      case (Some cmd)
      have fits: "4 + length (reply_of out) \<le> buf_size" for out
        by (simp add: reply_of_def out_err_def lit_def buf_size_def k_max_msg_def)
      show ?thesis
      proof (rule framed)
        show "\<forall>later. frames (c_rbuf c @ later) = cmd # frames (drop (4 + unat ?len) (c_rbuf c) @ later)"
          using frames_Cons [OF 4(1,2)] 4(3) len r Some by simp
        show "length (drop (4 + unat ?len) (c_rbuf c)) < length (c_rbuf c)" using 4(1) by simp
        show "\<exists>n. drop (4 + unat ?len) (c_rbuf c) = drop n (c_rbuf c)" by blast
        show "one_request g s c = bindr (do_request g cmd []) (\<lambda>(g1, err, out).
          if err \<noteq> RES_OK then Inr (g1, s, c\<lparr>c_state := STATE_END\<rparr>, False)
          else bindr (stateres s (c\<lparr>c_wbuf := le32 (of_nat (length (reply_of out))) @ reply_of out,
              c_rbuf := drop (4 + unat ?len) (c_rbuf c), c_state := STATE_RES\<rparr>))
            (\<lambda>(s2, c2). Inr (g1, s2, c2, c_state c2 = STATE_REQ)))"
          using 4 r Some fits unfolding one_request_def reply_of_def [symmetric]
          by (simp add: Let_def cong: if_cong)
      qed
    qed
  qed
qed

text \<open>
  What one turn of a loop on a connection leaves: either the last command run has faulted, or the connection is
  in order; when the loop goes on the connection waits for a request, \<open>ok\<close> holds and the measure is
  below \<open>k\<close>.
\<close>

definition turn_ok ::
  "bytes list set \<Rightarrow> gdata \<Rightarrow> (Conn \<Rightarrow> bool) \<Rightarrow> nat \<Rightarrow> (Conn \<Rightarrow> sock \<Rightarrow> nat) \<Rightarrow> calls \<Rightarrow>
   (gdata \<times> sock \<times> Conn \<times> bool) res \<Rightarrow> bool" where
  "turn_ok C g0 ok k f qs r \<longleftrightarrow> calls_in C g0 qs \<and> (case r of Inl e \<Rightarrow> blames qs e
     | Inr (g, s, c, again) \<Rightarrow> runs C g0 g \<and> sends C (stream c s) \<and> ok c \<and>
         (if again then c_state c = STATE_REQ \<and> f c s < k else conn_idle c))"

lemma one_request_ok:
  assumes "runs C g0 g" and "sends C (stream c s)" and "conn_ok c" and "c_state c = STATE_REQ"
  shows "turn_ok C g0 conn_ok (length (c_rbuf c)) (\<lambda>c s. length (c_rbuf c)) (one_calls g c) (one_request g s c)"
proof -
  have c: "c_wbuf c = []" "c_sent c = 0" "length (c_rbuf c) \<le> buf_size"
    using assms(3,4) by (simp_all add: conn_ok_def)
  have endc: "conn_ok (c\<lparr>c_state := STATE_END\<rparr>)" by (rule conn_ok_end [OF assms(3)])
  show ?thesis
  proof (rule one_request_cases [OF assms(3,4), of g s])
    fix c' assume "frames (c_rbuf c) = []" "one_request g s c = Inr (g, s, c', False)"
      "c' = c\<lparr>c_state := STATE_END\<rparr> \<or> c' = c \<and> length (c_rbuf c) < buf_size"
    then show ?thesis using assms endc
      by (auto simp: turn_ok_def one_calls_def stream_def conn_idle_def)
  next
    fix cmd rest
    assume F: "\<forall>later. frames (c_rbuf c @ later) = cmd # frames (rest @ later)" "length rest < length (c_rbuf c)"
      "\<exists>n. rest = drop n (c_rbuf c)"
    assume run: "one_request g s c = bindr (do_request g cmd []) (\<lambda>(g1, err, out).
        if err \<noteq> RES_OK then Inr (g1, s, c\<lparr>c_state := STATE_END\<rparr>, False)
        else bindr (stateres s (c\<lparr>c_wbuf := le32 (of_nat (length (reply_of out))) @ reply_of out, c_rbuf := rest,
            c_state := STATE_RES\<rparr>)) (\<lambda>(s2, c2). Inr (g1, s2, c2, c_state c2 = STATE_REQ)))"
    have calls: "one_calls g c = [(g, cmd)]" using spec [OF F(1), of "[]"] by (simp add: one_calls_def)
    have cmd: "cmd \<in> C" and rest: "sends C (rest @ inputs (sk_in s))"
      using assms(2) F(1) by (simp_all add: sends_def stream_def)
    show ?thesis
    proof (cases "do_request g cmd []")
      case (Inl e)
      then show ?thesis using run calls cmd assms(1) by (simp add: turn_ok_def blames_def)
    next
      case (Inr x)
      obtain g1 err out where x: "x = (g1, err, out)" by (cases x)
      have g1: "runs C g0 g1" using runs.command [OF assms(1) cmd] Inr x by simp
      show ?thesis
      proof (cases "err = RES_OK")
        case False
        then show ?thesis using run Inr x calls cmd assms(1,2) g1 endc
          by (simp add: turn_ok_def stream_def conn_idle_def)
      next
        case True
        let ?c = "c\<lparr>c_wbuf := le32 (of_nat (length (reply_of out))) @ reply_of out, c_rbuf := rest, c_state := STATE_RES\<rparr>"
        have "4 + length (reply_of out) \<le> buf_size"
          by (simp add: reply_of_def out_err_def lit_def buf_size_def k_max_msg_def)
        then have "conn_ok ?c" using c F(2) by (simp add: conn_ok_def)
        then obtain s2 c2 where st: "stateres s ?c = Inr (s2, c2)" "conn_ok c2" "c_rbuf c2 = c_rbuf ?c"
          by (rule stateres_spec) auto
        have "one_request g s c = Inr (g1, s2, c2, c_state c2 = STATE_REQ)" using run Inr x True st(1) by simp
        moreover have "sends C (stream c2 s2)" using st(3) stateres_in [OF st(1)] rest by (simp add: stream_def)
        ultimately show ?thesis using st(2,3) c(3) F(2) g1 calls cmd assms(1) by (simp add: turn_ok_def conn_idle_def)
      qed
    qed
  qed
qed

text \<open>What a whole loop leaves.\<close>

definition loop_ok :: "bytes list set \<Rightarrow> gdata \<Rightarrow> calls \<Rightarrow> (gdata \<times> sock \<times> Conn) res \<Rightarrow> bool" where
  "loop_ok C g0 qs r \<longleftrightarrow> calls_in C g0 qs \<and> (case r of Inl e \<Rightarrow> blames qs e
     | Inr (g, s, c) \<Rightarrow> runs C g0 g \<and> sends C (stream c s) \<and> conn_idle c)"

lemma request_loop_ok:
  assumes "runs C g0 g" and "sends C (stream c s)" and "conn_ok c" and "c_state c = STATE_REQ" and "length (c_rbuf c) < fuel"
  shows "loop_ok C g0 (request_calls fuel g s c) (request_loop fuel g s c)"
  using assms
proof (induction fuel arbitrary: g s c)
  case (Suc fuel)
  note T = one_request_ok [OF Suc.prems(1-4)]
  show ?case
  proof (cases "one_request g s c")
    case (Inr x)
    obtain g' s' c' again where x: "x = (g', s', c', again)" by (cases x)
    show ?thesis
      using T Inr x Suc.IH [of g' c' s'] Suc.prems(5)
      by (cases again) (auto simp: turn_ok_def loop_ok_def blames_append split: sum.splits)
  qed (use T in \<open>simp add: turn_ok_def loop_ok_def\<close>)
qed simp

lemma read_retry_inputs:
  "read_retry s cap = (s', r) \<Longrightarrow> inputs (sk_in s) = (case r of Inl _ \<Rightarrow> [] | Inr bs \<Rightarrow> bs) @ inputs (sk_in s')"
proof (induction s cap rule: read_retry.induct)
  case (1 s cap)
  obtain s1 q where q: "sys_read s cap = (s1, q)" by fastforce
  note in1 = sys_read_inputs [OF q]
  show ?case
  proof (cases "q = Inl EINTR")
    case True
    then have "read_retry s1 cap = (s', r)" using 1(2) q by (simp add: read_retry.simps [of s cap])
    then show ?thesis using 1(1) [OF q [symmetric] True refl] in1 True by simp
  next
    case False
    then have "q = r" "s1 = s'" using 1(2) q by (auto simp: read_retry.simps [of s cap] split: sum.splits if_splits)
    then show ?thesis using in1 by simp
  qed
qed

lemma read_retry_store:
  "read_retry s cap = (s', Inr bs) \<Longrightarrow> length bs \<le> cap \<and> (bs \<noteq> [] \<longrightarrow> in_store (sk_in s') < in_store (sk_in s))"
proof (induction s cap rule: read_retry.induct)
  case (1 s cap)
  obtain s1 r where r: "sys_read s cap = (s1, r)" by fastforce
  show ?case
  proof (cases r)
    case (Inl e)
    then have "e = EINTR" "read_retry s1 cap = (s', Inr bs)"
      using 1(2) r by (auto simp: read_retry.simps [of s cap] split: if_splits)
    then show ?thesis using 1(1) [OF r [symmetric] Inl] sys_read_EINTR [of s cap s1] r Inl by fastforce
  next
    case (Inr b)
    then have "b = bs" "s1 = s'" using 1(2) r by (simp_all add: read_retry.simps [of s cap])
    moreover have "length b \<le> cap"
      using r Inr by (auto simp: sys_read_def split: list.splits rd.splits)
    ultimately show ?thesis using sys_read_data r Inr by blast
  qed
qed

lemma one_request_in: "one_request g s c = Inr (g', s', c', again) \<Longrightarrow> sk_in s' = sk_in s"
  by (auto simp: one_request_def Let_def bindr_eq_Inr split: if_splits option.splits dest!: stateres_in)

lemma request_loop_in: "request_loop fuel g s c = Inr (g', s', c') \<Longrightarrow> sk_in s' = sk_in s"
  by (induction fuel arbitrary: g s c)
    (auto simp: bindr_eq_Inr split: if_splits dest!: one_request_in)

lemma try_fill_ok:
  assumes "runs C g0 g" and "sends C (stream c s)" and "conn_idle c" and "c_state c = STATE_REQ"
  shows "turn_ok C g0 conn_idle (in_store (sk_in s)) (\<lambda>c s. in_store (sk_in s)) (fill_calls g s c) (try_fill_buffer g s c)"
proof -
  have c: "conn_ok c" "length (c_rbuf c) < buf_size" using assms by (simp_all add: conn_idle_def)
  have endc: "conn_idle (c\<lparr>c_state := STATE_END\<rparr>)"
    using conn_ok_end [OF c(1)] by (simp add: conn_idle_def)
  obtain s1 r where rd: "read_retry s (buf_size - length (c_rbuf c)) = (s1, r)" by fastforce
  note in1 = read_retry_inputs [OF rd]
  have same: "sends C (c_rbuf c @ inputs (sk_in s1))" if "r = Inl e \<or> r = Inr []" for e
    using that in1 assms(2) by (auto simp: stream_def)
  show ?thesis
  proof (cases "\<exists>bs. r = Inr bs \<and> bs \<noteq> []")
    case False
    then show ?thesis
      using c rd assms endc same by (cases r) (auto simp: try_fill_buffer_def fill_calls_def turn_ok_def stream_def)
  next
    case True
    then obtain bs where bs: "r = Inr bs" "bs \<noteq> []" by blast
    note R = read_retry_store [OF rd [unfolded bs(1)]]
    let ?c = "c\<lparr>c_rbuf := c_rbuf c @ bs\<rparr>"
    have len: "length (c_rbuf ?c) \<le> buf_size" using R [THEN conjunct1] c(2) by simp
    then have ok: "conn_ok ?c" "c_state ?c = STATE_REQ" using c(1) assms(4) by (simp_all add: conn_ok_def)
    have "sends C (stream ?c s1)" using assms(2) in1 bs(1) by (simp add: stream_def)
    note L = request_loop_ok [OF assms(1) this ok, of "Suc (length (c_rbuf ?c))"]
    have calls: "fill_calls g s c = request_calls (Suc (length (c_rbuf ?c))) g s1 ?c"
      using rd bs by (simp add: fill_calls_def del: request_calls.simps)
    show ?thesis
    proof (cases "request_loop (Suc (length (c_rbuf ?c))) g s1 ?c")
      case (Inl e)
      then show ?thesis
        using L c(2) rd bs len
        by (simp add: calls try_fill_buffer_def turn_ok_def loop_ok_def Let_def del: request_loop.simps request_calls.simps)
    next
      case (Inr x)
      obtain g2 s2 c2 where x: "x = (g2, s2, c2)" by (cases x)
      have "sk_in s2 = sk_in s1" by (rule request_loop_in [OF Inr [unfolded x]])
      then show ?thesis
        using L c(2) rd bs len R Inr x
        by (simp add: calls try_fill_buffer_def turn_ok_def loop_ok_def Let_def conn_idle_def
            del: request_loop.simps request_calls.simps)
    qed
  qed
qed

lemma statereq_loop_ok:
  assumes "runs C g0 g" and "sends C (stream c s)" and "conn_idle c" and "c_state c = STATE_REQ" and "in_store (sk_in s) < fuel"
  shows "loop_ok C g0 (statereq_calls fuel g s c) (statereq_loop fuel g s c)"
  using assms
proof (induction fuel arbitrary: g s c)
  case (Suc fuel)
  note T = try_fill_ok [OF Suc.prems(1-4)]
  show ?case
  proof (cases "try_fill_buffer g s c")
    case (Inr x)
    obtain g' s' c' again where x: "x = (g', s', c', again)" by (cases x)
    show ?thesis
      using T Inr x Suc.IH [of g' c' s'] Suc.prems(5)
      by (cases again) (auto simp: turn_ok_def loop_ok_def blames_append split: sum.splits)
  qed (use T in \<open>simp add: turn_ok_def loop_ok_def\<close>)
qed simp

text \<open>One event on a connection.\<close>

lemma connection_io_blame:
  assumes "sv_conns sv a = Some c" and "conn_idle c" and "c_state c \<noteq> STATE_END"
    and "idle_touch a (sv_idle sv) = Inr d" and "get_monotonic_usec (sv_g sv) = (now, g0)"
    and "sends C (stream c (sv_socks sv (c_fd c)))"
  shows "calls_in C g0 (connection_calls sv a) \<and> ((\<exists>e. connection_io sv a = Inl e \<and> blames (connection_calls sv a) e) \<or>
    (\<exists>sv' c'. connection_io sv a = Inr sv' \<and> runs C g0 (sv_g sv') \<and> sv_conns sv' a = Some c' \<and> conn_idle c' \<and>
      sends C (stream c' (sv_socks sv' (c_fd c)))))"
proof -
  let ?c = "c\<lparr>c_idle_start := now\<rparr>" and ?s = "sv_socks sv (c_fd c)"
  have sends: "sends C (stream ?c ?s)" using assms(6) by (simp add: stream_def)
  have ok: "conn_idle ?c" "c_state ?c = c_state c" using assms(2) by (cases "c_state c"; simp add: conn_idle_def conn_ok_def)+
  show ?thesis
  proof (cases "c_state c")
    case STATE_REQ
    have calls: "connection_calls sv a = statereq_calls (Suc (in_store (sk_in ?s))) g0 ?s ?c"
      using assms(1,5) STATE_REQ by (simp add: connection_calls_def Let_def del: statereq_calls.simps)
    have L: "loop_ok C g0 (connection_calls sv a) (statereq g0 ?s ?c)"
      unfolding statereq_def calls using ok STATE_REQ runs.start sends by (intro statereq_loop_ok) simp_all
    show ?thesis
    proof (cases "statereq g0 ?s ?c")
      case (Inl e)
      then show ?thesis
        using L assms(1,4,5) STATE_REQ
        by (auto simp: connection_io_def load_Some loop_ok_def Let_def)
    next
      case (Inr x)
      then show ?thesis
        using L assms(1,4,5) STATE_REQ
        by (cases x) (simp add: connection_io_def load_Some loop_ok_def Let_def)
    qed
  next
    case STATE_RES
    have "conn_ok ?c" using ok(1) by (simp add: conn_idle_def)
    then obtain s' c' where st: "stateres ?s ?c = Inr (s', c')" "conn_ok c'" "c_rbuf c' = c_rbuf ?c"
      by (rule stateres_spec) (use STATE_RES in auto)
    moreover have "sends C (stream c' s')" using sends st(3) stateres_in [OF st(1)] by (simp add: stream_def)
    moreover have "conn_idle c'" using st(2,3) assms(2,3) by (simp add: conn_idle_def)
    moreover have "connection_calls sv a = []" using assms(1,5) STATE_RES by (simp add: connection_calls_def Let_def)
    ultimately show ?thesis
      using assms(1,4,5) STATE_RES runs.start [of C g0] by (simp add: connection_io_def load_Some Let_def)
  qed (use assms(3) in simp)
qed

text \<open>A complete request, up to the bytes of its reply.\<close>

lemma one_request_run:
  assumes "conn_ok c" and "c_state c = STATE_REQ" and "send_req cmd = Some msg"
    and "\<forall>arg \<in> set cmd. length arg < 2 ^ 32" and "length cmd \<le> unat k_max_args"
    and "c_rbuf c = msg @ rest" and "do_request g cmd [] = Inr (g', RES_OK, out)"
  shows "\<exists>s' c' again. one_request g s c = Inr (g', s', c', again) \<and> c_rbuf c' = rest \<and>
    (let reply = (if 4 + length out > k_max_msg
                  then out_err [] ERR_2BIG (lit ''response is too big'') else out) in
     sk_sent s' @ pending c' = sk_sent s @ le32 (of_nat (length reply)) @ reply)"
proof -
  obtain body where b: "msg = le32 (of_nat (length body)) @ body" "length body \<le> k_max_msg"
      "parse_req (body @ rest) (length body) = Inr (Some cmd)"
    using send_req_parse [OF assms(4,5,3)] by blast
  let ?len = "of_nat (length body) :: u32"
  have len: "unat ?len = length body" "unat (4 + ?len) = 4 + length body"
    using b(2) by (simp_all add: unat_of_nat unat_word_ariths k_max_msg_def)
  define reply where "reply = (if 4 + length out > k_max_msg
                  then out_err [] ERR_2BIG (lit ''response is too big'') else out)"
  have fits: "4 + length reply \<le> buf_size"
    by (simp add: reply_def out_err_def lit_def buf_size_def k_max_msg_def)
  let ?c = "c\<lparr>c_wbuf := le32 (of_nat (length reply)) @ reply, c_rbuf := rest, c_state := STATE_RES\<rparr>"
  have "conn_ok ?c" using assms(1,2,6) fits by (simp add: conn_ok_def)
  then obtain s2 c2 where st: "stateres s ?c = Inr (s2, c2)" "c_rbuf c2 = c_rbuf ?c"
      "sk_sent s2 @ pending c2 = sk_sent s @ pending ?c"
    by (rule stateres_spec) auto
  have "c_sent c = 0" using assms(1,2) by (simp add: conn_ok_def)
  then have "one_request g s c = Inr (g', s2, c2, c_state c2 = STATE_REQ)"
    using assms(6,7) b len fits st(1)
    by (simp add: one_request_def Let_def reply_def [symmetric])
  then show ?thesis
    using st(2,3) \<open>c_sent c = 0\<close> unfolding reply_def [symmetric] Let_def by (simp add: pending_def)
qed

lemma one_request_refuses:
  assumes "conn_ok c" and "send_req cmd = Some msg"
    and "\<forall>arg \<in> set cmd. length arg < 2 ^ 32" and "length cmd \<le> unat k_max_args"
    and "c_rbuf c = msg @ rest" and "do_request g cmd [] = Inr (g', r, out)" and "r \<noteq> RES_OK"
  shows "one_request g s c = Inr (g', s, c\<lparr>c_state := STATE_END\<rparr>, False)"
proof -
  obtain body where b: "msg = le32 (of_nat (length body)) @ body" "length body \<le> k_max_msg"
      "parse_req (body @ rest) (length body) = Inr (Some cmd)"
    using send_req_parse [OF assms(3,4,2)] by blast
  let ?len = "of_nat (length body) :: u32"
  have "unat ?len = length body" "unat (4 + ?len) = 4 + length body"
    using b(2) by (simp_all add: unat_of_nat unat_word_ariths k_max_msg_def)
  then show ?thesis using assms(5-7) b by (simp add: one_request_def Let_def)
qed

lemma one_request_faults:
  assumes "send_req cmd = Some msg" and "\<forall>arg \<in> set cmd. length arg < 2 ^ 32" and "length cmd \<le> unat k_max_args"
    and "c_rbuf c = msg @ rest" and "do_request g cmd [] = Inl e"
  shows "one_request g s c = Inl e"
proof -
  obtain body where b: "msg = le32 (of_nat (length body)) @ body" "length body \<le> k_max_msg"
      "parse_req (body @ rest) (length body) = Inr (Some cmd)"
    using send_req_parse [OF assms(2,3,1)] by blast
  let ?len = "of_nat (length body) :: u32"
  have "unat ?len = length body" "unat (4 + ?len) = 4 + length body"
    using b(2) by (simp_all add: unat_of_nat unat_word_ariths k_max_msg_def)
  then show ?thesis using assms(4,5) b by (simp add: one_request_def Let_def)
qed

section \<open>Properties\<close>

text \<open>
  C10.  Whatever a client sends, and whatever the kernel answers to \<open>read\<close> and \<open>write\<close>: \<open>connection_io\<close> on
  a connection that is not marked for deletion ends, violates no assertion, never leaves the
  buffers, and leaves the connection ready for its next event, with room to read unless it is to
  be closed.  Only commands that are framed in what has been received are run (the set
  \<open>C\<close> may be any that contains them), they lead from the old state of the database to the new one, and
  the only fault is that of such a command in a state such commands lead to.
\<close>

theorem connection_io_safe:
  assumes "sv_conns sv a = Some c" and "conn_idle c" and "c_state c \<noteq> STATE_END"
    and "idle_touch a (sv_idle sv) = Inr d" and "get_monotonic_usec (sv_g sv) = (now, g0)"
    and "sends C (stream c (sv_socks sv (c_fd c)))"
  shows "(\<exists>e g. \<exists>cmd \<in> C. connection_io sv a = Inl e \<and> runs C g0 g \<and> do_request g cmd [] = Inl e) \<or>
    (\<exists>sv' c'. connection_io sv a = Inr sv' \<and> runs C g0 (sv_g sv') \<and> sv_conns sv' a = Some c' \<and> conn_idle c' \<and>
      sends C (stream c' (sv_socks sv' (c_fd c))))"
  using connection_io_blame [OF assms] blames_in by blast

text \<open>A server with one connection, whose client has sent three bytes and then nothing.\<close>

definition demo_conn :: Conn where
  "demo_conn = \<lparr>c_fd = 5, c_state = STATE_REQ, c_rbuf = [], c_wbuf = [], c_sent = 0, c_idle_start = 0\<rparr>"

definition demo_server :: server where
  "demo_server = \<lparr>sv_g = g_init (\<lambda>n. of_nat n), sv_conns = [7 \<mapsto> demo_conn],
     sv_fd2conn = [None, None, None, None, None, Some 7],
     sv_idle = [0 \<mapsto> \<lparr>d_prev = Some 7, d_next = Some 7\<rparr>, 7 \<mapsto> \<lparr>d_prev = Some 0, d_next = Some 0\<rparr>],
     sv_socks = (\<lambda>_. \<lparr>sk_in = [RIntr, RData [9, 0, 0]], sk_out = [], sk_sent = []\<rparr>), sv_closed = []\<rparr>"

lemma demo_server_conn: "sv_conns demo_server 7 = Some demo_conn" "conn_idle demo_conn"
  "\<exists>d. idle_touch 7 (sv_idle demo_server) = Inr d"
proof -
  have "case idle_touch 7 (sv_idle demo_server) of Inl _ \<Rightarrow> False | Inr _ \<Rightarrow> True" by code_simp
  then show "\<exists>d. idle_touch 7 (sv_idle demo_server) = Inr d" by (simp split: sum.splits)
qed (simp_all add: demo_server_def demo_conn_def conn_idle_def conn_ok_def buf_size_def)

lemma demo_silent: "sends {} [9, 0, 0]"
  by (simp add: sends_def frames_short)

theorem connection_io_safe_witness:
  "\<exists>sv' c'. connection_io demo_server 7 = Inr sv' \<and> sv_conns sv' 7 = Some c' \<and> conn_idle c'"
proof -
  obtain d now g where d: "idle_touch 7 (sv_idle demo_server) = Inr d"
      "get_monotonic_usec (sv_g demo_server) = (now, g)"
    using demo_server_conn(3) by fastforce
  have "c_state demo_conn \<noteq> STATE_END" "sends {} (stream demo_conn (sv_socks demo_server (c_fd demo_conn)))"
    using demo_silent by (simp_all add: demo_conn_def demo_server_def stream_def)
  from connection_io_safe [OF demo_server_conn(1,2) this(1) d this(2)] show ?thesis by blast
qed

text \<open>
  C22.  A complete request at the front of the read buffer is run, and what becomes of it is what becomes of its
  command.  When the command faults, so does the server.  When its code is \<open>RES_OK\<close>, the request is
  taken out of the buffer, the bytes after it stay, and what has been written to the socket with
  what is still to be written grows by exactly the frame of the reply, wherever the kernel cuts the
  writes; a reply that does not fit is replaced by an error reply.  With any other code the reply is dropped: nothing is
  written, the request stays in the buffer and the connection is marked for deletion.
\<close>

theorem one_request_replies:
  assumes "conn_ok c" and "c_state c = STATE_REQ" and "send_req cmd = Some msg"
    and "\<forall>arg \<in> set cmd. length arg < 2 ^ 32" and "length cmd \<le> unat k_max_args"
    and "c_rbuf c = msg @ rest"
  shows "case do_request g cmd [] of
      Inl e \<Rightarrow> one_request g s c = Inl e
    | Inr (g', r, out) \<Rightarrow>
        if r = RES_OK then \<exists>s' c' again. one_request g s c = Inr (g', s', c', again) \<and> c_rbuf c' = rest \<and>
          (let reply = (if 4 + length out > k_max_msg
                        then out_err [] ERR_2BIG (lit ''response is too big'') else out) in
           sk_sent s' @ pending c' = sk_sent s @ le32 (of_nat (length reply)) @ reply)
        else one_request g s c = Inr (g', s, c\<lparr>c_state := STATE_END\<rparr>, False)"
proof (cases "do_request g cmd []")
  case (Inl e)
  then show ?thesis using one_request_faults [OF assms(3-6)] by simp
next
  case (Inr x)
  obtain g' r out where "x = (g', r, out)" by (cases x)
  then show ?thesis
    using Inr one_request_run [OF assms] one_request_refuses [OF assms(1,3-6)] by (auto simp: Let_def)
qed

text \<open>A connection that has received the command \<open>keys\<close> and two bytes more, on an empty database.\<close>

lemma demo_keys:
  "send_req [lit ''keys''] = Some [12, 0, 0, 0, 1, 0, 0, 0, 4, 0, 0, 0, 107, 101, 121, 115]"
  "do_request (g_init clock) [lit ''keys''] [] = Inr (g_init clock, RES_OK, out_arr [] 0)"
  "out_arr [] 0 = [4, 0, 0, 0, 0]" "le32 5 = [5, 0, 0, 0]"
proof -
  show "do_request (g_init clock) [lit ''keys''] [] = Inr (g_init clock, RES_OK, out_arr [] 0)"
    by (simp add: do_request_def lit_def do_keys_def g_init_def empty_map_def empty_tab_def h_scan_def
        hm_size_def)
qed code_simp+

text \<open>The same with a command that does not exist.\<close>

lemma demo_unknown:
  "send_req [lit ''foo''] = Some [11, 0, 0, 0, 1, 0, 0, 0, 3, 0, 0, 0, 102, 111, 111]"
  "do_request (g_init clock) [lit ''foo''] [] = Inr (g_init clock, RES_ERR, [])"
proof -
  show "do_request (g_init clock) [lit ''foo''] [] = Inr (g_init clock, RES_ERR, [])"
    by (simp add: do_request_def lit_def)
qed code_simp

theorem one_request_replies_witness:
  "(\<exists>s' c' again. one_request (g_init (\<lambda>_. 0)) \<lparr>sk_in = [], sk_out = [WOk 3], sk_sent = []\<rparr>
       (demo_conn\<lparr>c_rbuf := [12, 0, 0, 0, 1, 0, 0, 0, 4, 0, 0, 0, 107, 101, 121, 115] @ [1, 2]\<rparr>)
     = Inr (g_init (\<lambda>_. 0), s', c', again) \<and> c_rbuf c' = [1, 2] \<and>
     sk_sent s' @ pending c' = [5, 0, 0, 0, 4, 0, 0, 0, 0]) \<and>
   one_request (g_init (\<lambda>_. 0)) \<lparr>sk_in = [], sk_out = [WOk 3], sk_sent = []\<rparr>
       (demo_conn\<lparr>c_rbuf := [11, 0, 0, 0, 1, 0, 0, 0, 3, 0, 0, 0, 102, 111, 111] @ [1, 2]\<rparr>)
     = Inr (g_init (\<lambda>_. 0), \<lparr>sk_in = [], sk_out = [WOk 3], sk_sent = []\<rparr>,
         demo_conn\<lparr>c_rbuf := [11, 0, 0, 0, 1, 0, 0, 0, 3, 0, 0, 0, 102, 111, 111] @ [1, 2], c_state := STATE_END\<rparr>, False)"
proof (rule conjI, goal_cases)
  case 1
  show ?case
    using one_request_replies [OF _ _ demo_keys(1), of "demo_conn\<lparr>c_rbuf :=
      [12, 0, 0, 0, 1, 0, 0, 0, 4, 0, 0, 0, 107, 101, 121, 115] @ [1, 2]\<rparr>"
      "[1, 2]" "g_init (\<lambda>_. 0)" "\<lparr>sk_in = [], sk_out = [WOk 3], sk_sent = []\<rparr>"] demo_keys(2) [of "\<lambda>_. 0"]
    by (simp add: demo_keys(3,4) demo_conn_def conn_ok_def buf_size_def k_max_msg_def lit_def k_max_args_def Let_def)
next
  case 2
  show ?case
    using one_request_replies [OF _ _ demo_unknown(1), of "demo_conn\<lparr>c_rbuf :=
      [11, 0, 0, 0, 1, 0, 0, 0, 3, 0, 0, 0, 102, 111, 111] @ [1, 2]\<rparr>"
      "[1, 2]" "g_init (\<lambda>_. 0)" "\<lparr>sk_in = [], sk_out = [WOk 3], sk_sent = []\<rparr>"] demo_unknown(2) [of "\<lambda>_. 0"]
    by (simp add: demo_conn_def conn_ok_def buf_size_def k_max_msg_def lit_def k_max_args_def RES_OK_def RES_ERR_def)
qed

end
