(* ===== verification/Event_Loop.thy ===== *)
theory Event_Loop
  imports Connections
begin

text \<open>
  The event loop of the server: the timers of \<open>timer.cpp\<close>, and accepting connections and one turn of the
  poll loop of \<open>Server.cpp\<close>.
\<close>

unbundle bit_operations_syntax

section \<open>Timers\<close>

definition k_idle_timeout_ms :: u64 where
  "k_idle_timeout_ms = 5 * 1000"

definition k_max_works :: nat where
  "k_max_works = 2000"

definition next_timer_ms :: "server \<Rightarrow> (server \<times> u32) res" where
  "next_timer_ms sv =
     bindr (dList_empty (sv_idle sv) (Some idle_head)) (\<lambda>empty.
     if empty then Inr (sv, 10000)
     else
       let (now_us, g) = get_monotonic_usec (sv_g sv); sv1 = sv\<lparr>sv_g := g\<rparr> in
       bindr (load (sv_idle sv1) (Some idle_head)) (\<lambda>h.
       bindr (load (sv_conns sv1) (d_next h)) (\<lambda>next.
       let next_us = c_idle_start next + k_idle_timeout_ms * 1000 in
       if next_us \<le> now_us then Inr (sv1, 0)
       else Inr (sv1, ucast ((next_us - now_us) div 1000)))))"

text \<open>
  The two loops of \<open>process_timers\<close>.  The first frees a connection in every turn, and every connection
  has a place in \<open>fd2conn\<close>; the second counts its turns in \<open>nworks\<close>.
\<close>

fun idle_loop :: "nat \<Rightarrow> u64 \<Rightarrow> server \<Rightarrow> server res" where
  "idle_loop 0 now_us sv = Inl Hang"
| "idle_loop (Suc fuel) now_us sv =
     bindr (dList_empty (sv_idle sv) (Some idle_head)) (\<lambda>empty.
     if empty then Inr sv
     else
       bindr (load (sv_idle sv) (Some idle_head)) (\<lambda>h.
       bindr (load (sv_conns sv) (d_next h)) (\<lambda>next.
       let next_us = c_idle_start next + k_idle_timeout_ms * 1000 in
       if next_us > now_us then Inr sv
       else
         bindr (aset (sv_fd2conn sv) (c_fd next) None) (\<lambda>fds.
         bindr (idle_close (the (d_next h)) (sv_idle sv)) (\<lambda>d.
         idle_loop fuel now_us
           (sv\<lparr>sv_fd2conn := fds, sv_closed := sv_closed sv @ [c_fd next],
              sv_idle := d(the (d_next h) := None),
              sv_conns := (sv_conns sv)(the (d_next h) := None)\<rparr>))))))"

definition expire_one :: "gdata \<Rightarrow> gdata res" where
  "expire_one g =
     bindr (aget (g_heap g) 0) (\<lambda>item. let ent = hi_ref item; M = g_M g in
     bindr (load (h_nodes (o_h M)) ent) (\<lambda>n.
     bindr (hm_delete (o_h M) (g_db g) (h_code n) (entry_eq M (heap_key M ent))) (\<lambda>(h, hm, node).
     bindr (checkr AssertFailed (node = ent)) (\<lambda>_.
     bindr (load (o_idx M) ent) (\<lambda>pos.
     bindr (heap_remove (g_heap g) (unat pos) (o_idx M)) (\<lambda>(hp, idx).
     bindr (update idx ent (\<lambda>_. - 1)) (\<lambda>idx1.
     entry_del (g\<lparr>g_M := M\<lparr>o_h := h, o_idx := idx1\<rparr>, g_db := hm, g_heap := hp\<rparr>) (the ent))))))))"

function expire_loop :: "nat \<Rightarrow> u64 \<Rightarrow> gdata \<Rightarrow> gdata res" where
  "expire_loop nworks now_us g =
     (if g_heap g \<noteq> [] \<and> hi_val (hd (g_heap g)) < now_us then
        bindr (expire_one g) (\<lambda>g1.
        if nworks \<ge> k_max_works then Inr g1 else expire_loop (nworks + 1) now_us g1)
      else Inr g)"
  by pat_completeness auto
termination
  by (relation "measure (\<lambda>(nworks, now_us, g). k_max_works - nworks)") auto

declare expire_loop.simps [simp del]

definition process_timers :: "server \<Rightarrow> server res" where
  "process_timers sv =
     (let (now_us, g) = get_monotonic_usec (sv_g sv) in
      bindr (idle_loop (Suc (length (sv_fd2conn sv))) now_us (sv\<lparr>sv_g := g\<rparr>)) (\<lambda>sv1.
      bindr (expire_loop 0 now_us (sv_g sv1)) (\<lambda>g1.
      Inr (sv1\<lparr>sv_g := g1\<rparr>))))"

section \<open>Accepting\<close>

text \<open>
  What \<open>accept\<close> and \<open>malloc\<close> return: an error, a descriptor for which there is no memory, or a descriptor and
  the address of the new connection.
\<close>

datatype accepted = AcceptError | NoMemory nat | Accepted nat addr

definition accept_new_connection :: "server \<Rightarrow> accepted \<Rightarrow> server res" where
  "accept_new_connection sv acc = (case acc of
       AcceptError \<Rightarrow> Inr sv
     | NoMemory fd \<Rightarrow> Inr (sv\<lparr>sv_closed := sv_closed sv @ [fd]\<rparr>)
     | Accepted fd a \<Rightarrow>
         let (now, g) = get_monotonic_usec (sv_g sv);
             c = \<lparr>c_fd = fd, c_state = STATE_REQ, c_rbuf = [], c_wbuf = [], c_sent = 0, c_idle_start = now\<rparr> in
         bindr (idle_open a ((sv_idle sv)(a \<mapsto> \<lparr>d_prev = None, d_next = None\<rparr>))) (\<lambda>d.
         Inr (sv\<lparr>sv_g := g, sv_conns := (sv_conns sv)(a \<mapsto> c), sv_idle := d,
                sv_fd2conn := conn_put (sv_fd2conn sv) a c\<rparr>)))"

section \<open>One turn of the loop\<close>

text \<open>The descriptors and the events asked for, after the listening socket's.\<close>

datatype poll_event = POLLIN | POLLOUT

fun poll_args :: "Conn store \<Rightarrow> ptr list \<Rightarrow> (nat \<times> poll_event) list res" where
  "poll_args conns [] = Inr []"
| "poll_args conns (None # fds) = poll_args conns fds"
| "poll_args conns (Some a # fds) =
     bindr (load conns (Some a)) (\<lambda>c. bindr (poll_args conns fds) (\<lambda>ps.
     Inr ((c_fd c, if c_state c = STATE_REQ then POLLIN else POLLOUT) # ps)))"

definition client_event :: "server \<Rightarrow> nat \<Rightarrow> server res" where
  "client_event sv client_fd =
     (if client_fd \<ge> length (sv_fd2conn sv) then Inr sv
      else (case sv_fd2conn sv ! client_fd of
          None \<Rightarrow> Inr sv
        | Some conn \<Rightarrow>
            bindr (connection_io sv conn) (\<lambda>sv1.
            bindr (load (sv_conns sv1) (Some conn)) (\<lambda>c.
            if c_state c = STATE_END then
              bindr (aset (sv_fd2conn sv1) (c_fd c) None) (\<lambda>fds.
              bindr (idle_close conn (sv_idle sv1)) (\<lambda>d.
              Inr (sv1\<lparr>sv_fd2conn := fds, sv_closed := sv_closed sv1 @ [c_fd c],
                      sv_idle := d(conn := None), sv_conns := (sv_conns sv1)(conn := None)\<rparr>)))
            else Inr sv1))))"

fun client_events :: "server \<Rightarrow> (nat \<times> bool) list \<Rightarrow> server res" where
  "client_events sv [] = Inr sv"
| "client_events sv ((fd, revents) # ps) =
     bindr (if revents then client_event sv fd else Inr sv) (\<lambda>sv1. client_events sv1 ps)"

text \<open>
  \<open>ready\<close> says which descriptors \<open>poll\<close> reports: the listening socket, with what \<open>accept\<close> will return,
  and the clients'.  The timeout and the events asked for are given to \<open>poll\<close>.
\<close>

definition server_turn :: "server \<Rightarrow> accepted option \<Rightarrow> (nat \<Rightarrow> bool) \<Rightarrow> server res" where
  "server_turn sv acc ready =
     bindr (poll_args (sv_conns sv) (sv_fd2conn sv)) (\<lambda>ps.
     bindr (next_timer_ms sv) (\<lambda>(sv1, timeout_ms).
     bindr (case acc of None \<Rightarrow> Inr sv1 | Some r \<Rightarrow> accept_new_connection sv1 r) (\<lambda>sv2.
     bindr (client_events sv2 (map (\<lambda>(fd, ev). (fd, ready fd)) ps)) (\<lambda>sv3.
     process_timers sv3))))"

text \<open>The server when it starts to poll.\<close>

definition server_init :: "(nat \<Rightarrow> u64) \<Rightarrow> (nat \<Rightarrow> sock) \<Rightarrow> server res" where
  "server_init clock socks =
     bindr (dList_init [idle_head \<mapsto> \<lparr>d_prev = None, d_next = None\<rparr>] (Some idle_head)) (\<lambda>d.
     Inr \<lparr>sv_g = g_init clock, sv_conns = Map.empty, sv_fd2conn = [], sv_idle = d, sv_socks = socks,
          sv_closed = []\<rparr>)"

section \<open>Closing idle connections\<close>

lemma ring_cong:
  assumes "\<forall>a \<in> set (h # xs). m' a = m a"
  shows "ring m' h xs \<longleftrightarrow> ring m h xs"
proof -
  have "lk m' a b = lk m a b" if "a \<in> set (h # xs @ [h])" "b \<in> set (h # xs @ [h])" for a b
  proof -
    have "m' a = m a" "m' b = m b" using that assms by auto
    then show ?thesis by (simp add: lk_def nx_def pv_def)
  qed
  then have "successively (lk m') (h # xs @ [h]) \<longleftrightarrow> successively (lk m) (h # xs @ [h])"
    by (intro successively_cong) blast+
  then show ?thesis by (simp add: ring_def)
qed

text \<open>
  The connections and what refers to them: the idle list runs through exactly the connections, and the
  place of a descriptor in \<open>fd2conn\<close> holds the connection with that descriptor.
\<close>

definition conns_ok :: "server \<Rightarrow> addr list \<Rightarrow> bool" where
  "conns_ok sv xs \<longleftrightarrow> ring (sv_idle sv) idle_head xs \<and> dom (sv_conns sv) = set xs \<and>
     (\<forall>a c. sv_conns sv a = Some c \<longrightarrow> c_fd c < length (sv_fd2conn sv) \<and> sv_fd2conn sv ! c_fd c = Some a) \<and>
     (\<forall>i < length (sv_fd2conn sv). \<forall>a. sv_fd2conn sv ! i = Some a \<longrightarrow>
        (\<exists>c. sv_conns sv a = Some c \<and> c_fd c = i))"

definition conn_of :: "server \<Rightarrow> addr \<Rightarrow> Conn" where
  "conn_of sv a = the (sv_conns sv a)"

definition expired :: "u64 \<Rightarrow> Conn \<Rightarrow> bool" where
  "expired now_us c \<longleftrightarrow> c_idle_start c + k_idle_timeout_ms * 1000 \<le> now_us"

text \<open>The server without the connections \<open>gone\<close>, and with \<open>d\<close> for the nodes of the idle list.\<close>

definition without :: "addr list \<Rightarrow> dmem \<Rightarrow> server \<Rightarrow> server" where
  "without gone d sv =
     sv\<lparr>sv_fd2conn := map (\<lambda>p. if p \<in> Some ` set gone then None else p) (sv_fd2conn sv),
        sv_closed := sv_closed sv @ map (\<lambda>a. c_fd (conn_of sv a)) gone,
        sv_idle := d, sv_conns := sv_conns sv |` (- set gone)\<rparr>"

lemma without_Nil: "without [] (sv_idle sv) sv = sv"
  by (simp add: without_def restrict_map_def)

lemma conns_ok_place:
  assumes "conns_ok sv xs" and "sv_conns sv x = Some c"
  shows "(sv_fd2conn sv)[c_fd c := None] = map (\<lambda>p. if p = Some x then None else p) (sv_fd2conn sv)"
proof (rule nth_equalityI)
  fix i assume "i < length ((sv_fd2conn sv)[c_fd c := None])"
  then have i: "i < length (sv_fd2conn sv)" by simp
  have "sv_fd2conn sv ! i = Some x \<longleftrightarrow> i = c_fd c"
    using assms i unfolding conns_ok_def by fastforce
  then show "(sv_fd2conn sv)[c_fd c := None] ! i
      = map (\<lambda>p. if p = Some x then None else p) (sv_fd2conn sv) ! i"
    using i by (auto simp: nth_list_update)
qed simp

lemma without_ok:
  assumes "conns_ok sv (x # xs)" and "ring d idle_head xs"
  shows "conns_ok (without [x] d sv) xs"
proof -
  have "x \<notin> set xs" using assms(1) by (simp add: conns_ok_def ring_def)
  then have "dom (sv_conns sv |` (- {x})) = set xs" using assms(1) by (auto simp: conns_ok_def)
  then show ?thesis
    using assms unfolding conns_ok_def without_def
    by (auto simp: restrict_map_def split: if_splits)
qed

lemma without_without:
  assumes "x \<notin> set gone" and "set gone \<subseteq> dom (sv_conns sv)"
  shows "without gone d (without [x] d' sv) = without (x # gone) d sv"
  using assms by (auto simp: without_def conn_of_def restrict_map_def fun_eq_iff image_iff)

lemma idle_loop_spec:
  assumes "conns_ok sv xs" and "length xs < fuel"
  shows "\<exists>d. idle_loop fuel now_us sv
      = Inr (without (takeWhile (\<lambda>a. expired now_us (conn_of sv a)) xs) d sv) \<and>
    conns_ok (without (takeWhile (\<lambda>a. expired now_us (conn_of sv a)) xs) d sv)
      (dropWhile (\<lambda>a. expired now_us (conn_of sv a)) xs)"
  using assms
proof (induction xs arbitrary: sv fuel)
  case Nil
  have "idle_loop fuel now_us sv = Inr sv"
    using Nil ring_empty_spec [of "sv_idle sv" idle_head "[]"] by (cases fuel) (auto simp: conns_ok_def)
  then show ?case using Nil by (intro exI [of _ "sv_idle sv"]) (simp add: without_Nil)
next
  case (Cons x xs)
  obtain f where f: "fuel = Suc f" "length xs < f" using Cons.prems(2) by (cases fuel) auto
  have r: "ring (sv_idle sv) idle_head (x # xs)" using Cons.prems(1) by (simp add: conns_ok_def)
  obtain h where h: "load (sv_idle sv) (Some idle_head) = Inr h" "d_next h = Some x"
    using load_links [of "sv_idle sv" idle_head] ring_alive [OF r, of idle_head] ring_first [OF r] by auto
  have "x \<in> dom (sv_conns sv)" using Cons.prems(1) by (simp add: conns_ok_def)
  then obtain c where c: "sv_conns sv x = Some c" by auto
  then have now: "conn_of sv x = c" "load (sv_conns sv) (Some x) = Inr c"
    by (simp_all add: conn_of_def load_Some)
  have fd: "c_fd c < length (sv_fd2conn sv)" using Cons.prems(1) c by (auto simp: conns_ok_def)
  have some: "dList_empty (sv_idle sv) (Some idle_head) = Inr False" using ring_empty_spec [OF r] by simp
  show ?case
  proof (cases "expired now_us c")
    case False
    have "idle_loop fuel now_us sv = Inr sv"
      using False some h now f(1) by (simp add: expired_def not_le Let_def)
    then show ?thesis using Cons.prems(1) False now(1)
      by (intro exI [of _ "sv_idle sv"]) (simp add: without_Nil)
  next
    case True
    obtain d where d: "dlist_detach (sv_idle sv) (Some x) = Inr d" "ring d idle_head xs"
      using ring_detach_spec [of "sv_idle sv" idle_head "[]" x xs] r by (metis append_Nil)
    let ?d = "d(x := None)" and ?P = "\<lambda>a. expired now_us (conn_of sv a)"
    have x: "x \<notin> set (idle_head # xs)" using r by (auto simp: ring_def)
    then have ring: "ring ?d idle_head xs"
      using d(2) ring_cong [of idle_head xs ?d d] by auto
    let ?sv = "without [x] ?d sv"
    have ok: "conns_ok ?sv xs" by (rule without_ok [OF Cons.prems(1) ring])
    have "without [x] ?d sv = sv\<lparr>sv_fd2conn := (sv_fd2conn sv)[c_fd c := None],
        sv_closed := sv_closed sv @ [c_fd c], sv_idle := ?d, sv_conns := (sv_conns sv)(x := None)\<rparr>"
      using conns_ok_place [OF Cons.prems(1) c] now(1)
      by (auto simp: without_def restrict_map_def fun_eq_iff image_iff)
    note gone = this
    have step: "idle_loop fuel now_us sv = idle_loop f now_us ?sv"
    proof -
      have "\<not> now_us < c_idle_start c + k_idle_timeout_ms * 1000" using True by (simp add: expired_def not_less)
      then show ?thesis
        unfolding gone using some h now f(1) fd d(1) by (simp add: Let_def aset_def idle_close_def)
    qed
    have keep: "conn_of ?sv a = conn_of sv a" if "a \<in> set xs" for a
      using that x by (auto simp: conn_of_def without_def restrict_map_def)
    have tw: "takeWhile (\<lambda>a. expired now_us (conn_of ?sv a)) xs = takeWhile ?P xs"
      by (rule takeWhile_cong) (simp_all add: keep)
    have dw: "dropWhile (\<lambda>a. expired now_us (conn_of ?sv a)) xs = dropWhile ?P xs"
      by (rule dropWhile_cong) (simp_all add: keep)
    have sub: "x \<notin> set (takeWhile ?P xs)" "set (takeWhile ?P xs) \<subseteq> dom (sv_conns sv)"
      using x Cons.prems(1) set_takeWhileD [of _ ?P xs] by (auto simp: conns_ok_def)
    obtain e where "idle_loop f now_us ?sv = Inr (without (takeWhile ?P xs) e ?sv)"
        "conns_ok (without (takeWhile ?P xs) e ?sv) (dropWhile ?P xs)"
      using Cons.IH [OF ok f(2)] unfolding tw dw by blast
    then show ?thesis
      unfolding without_without [OF sub] using True now(1) step by (intro exI [of _ e]) simp
  qed
qed

text \<open>In a list sorted by the times of the last activity, the idle ones are those at the front.\<close>

lemma idle_front:
  assumes "sorted (map (\<lambda>a. c_idle_start (conn_of sv a)) xs)"
    and "\<forall>a \<in> set xs. unat (c_idle_start (conn_of sv a)) + 5000000 < 2 ^ 64"
  shows "takeWhile (\<lambda>a. expired now_us (conn_of sv a)) xs = filter (\<lambda>a. expired now_us (conn_of sv a)) xs"
    and "dropWhile (\<lambda>a. expired now_us (conn_of sv a)) xs = filter (\<lambda>a. \<not> expired now_us (conn_of sv a)) xs"
proof -
  have exp: "expired now_us (conn_of sv a) \<longleftrightarrow> unat (c_idle_start (conn_of sv a)) + 5000000 \<le> unat now_us"
    if "a \<in> set xs" for a
    using assms(2) that
    by (auto simp: expired_def k_idle_timeout_ms_def word_le_nat_alt unat_word_ariths)
  have "takeWhile (\<lambda>a. expired now_us (conn_of sv a)) xs = filter (\<lambda>a. expired now_us (conn_of sv a)) xs \<and>
    dropWhile (\<lambda>a. expired now_us (conn_of sv a)) xs = filter (\<lambda>a. \<not> expired now_us (conn_of sv a)) xs"
    using assms(1) exp
  proof (induction xs)
    case (Cons x xs)
    show ?case
    proof (cases "expired now_us (conn_of sv x)")
      case False
      then have "\<not> expired now_us (conn_of sv a)" if "a \<in> set xs" for a
        using that Cons.prems(1) Cons.prems(2) [of x] Cons.prems(2) [of a]
        by (force simp: word_le_nat_alt)
      then have "filter (\<lambda>a. expired now_us (conn_of sv a)) xs = []"
          "filter (\<lambda>a. \<not> expired now_us (conn_of sv a)) xs = xs"
        by (auto simp: filter_empty_conv filter_id_conv)
      then show ?thesis using False by simp
    qed (use Cons in simp)
  qed simp
  then show "takeWhile (\<lambda>a. expired now_us (conn_of sv a)) xs = filter (\<lambda>a. expired now_us (conn_of sv a)) xs"
    and "dropWhile (\<lambda>a. expired now_us (conn_of sv a)) xs = filter (\<lambda>a. \<not> expired now_us (conn_of sv a)) xs"
    by blast+
qed

lemma ring_length:
  assumes "conns_ok sv xs"
  shows "length xs \<le> length (sv_fd2conn sv)"
proof -
  have "Some ` set xs \<subseteq> set (sv_fd2conn sv)"
  proof
    fix p assume "p \<in> Some ` set xs"
    then obtain a c where "p = Some a" "sv_conns sv a = Some c" using assms unfolding conns_ok_def by blast
    then show "p \<in> set (sv_fd2conn sv)" using assms nth_mem [of "c_fd c" "sv_fd2conn sv"] by (simp add: conns_ok_def)
  qed
  then have "card (Some ` set xs) \<le> length (sv_fd2conn sv)"
    by (meson card_mono card_length finite_set le_trans)
  moreover have "card (Some ` set xs) = length xs"
    using assms by (simp add: card_image distinct_card conns_ok_def ring_def)
  ultimately show ?thesis by simp
qed

text \<open>The first half of \<open>process_timers\<close>; the second works on \<open>sv_g\<close> only.\<close>

lemma process_timers_idle:
  assumes "conns_ok sv xs" and "sorted (map (\<lambda>a. c_idle_start (conn_of sv a)) xs)"
    and "\<forall>a \<in> set xs. unat (c_idle_start (conn_of sv a)) + 5000000 < 2 ^ 64"
    and "get_monotonic_usec (sv_g sv) = (now_us, g)"
  obtains sv1 where "process_timers sv = bindr (expire_loop 0 now_us g) (\<lambda>g1. Inr (sv1\<lparr>sv_g := g1\<rparr>))"
    and "sv_closed sv1 = sv_closed sv @ map (\<lambda>a. c_fd (conn_of sv a)) (filter (\<lambda>a. expired now_us (conn_of sv a)) xs)"
    and "conns_ok sv1 (filter (\<lambda>a. \<not> expired now_us (conn_of sv a)) xs)"
    and "\<forall>a \<in> set xs. sv_conns sv1 a = (if expired now_us (conn_of sv a) then None else sv_conns sv a)"
proof -
  let ?sv = "sv\<lparr>sv_g := g\<rparr>" and ?P = "\<lambda>a. expired now_us (conn_of sv a)"
  have same: "conn_of ?sv = conn_of sv" by (simp add: conn_of_def fun_eq_iff)
  have ok: "conns_ok ?sv xs" using assms(1) by (simp add: conns_ok_def)
  have fuel: "length xs < Suc (length (sv_fd2conn ?sv))" using ring_length [OF assms(1)] by simp
  obtain d where D: "idle_loop (Suc (length (sv_fd2conn ?sv))) now_us ?sv = Inr (without (filter ?P xs) d ?sv)"
      "conns_ok (without (filter ?P xs) d ?sv) (filter (\<lambda>a. \<not> ?P a) xs)"
    using idle_loop_spec [OF ok fuel, of now_us] unfolding same idle_front [OF assms(2,3)] by blast
  show ?thesis
  proof (rule that)
    show "process_timers sv
        = bindr (expire_loop 0 now_us g) (\<lambda>g1. Inr ((without (filter ?P xs) d ?sv)\<lparr>sv_g := g1\<rparr>))"
      using D(1) assms(4) by (simp add: process_timers_def without_def)
    show "conns_ok (without (filter ?P xs) d ?sv) (filter (\<lambda>a. \<not> ?P a) xs)" by (rule D(2))
  qed (auto simp: without_def same restrict_map_def)
qed

lemma conns_ok_sv_g: "conns_ok (sv\<lparr>sv_g := g\<rparr>) xs = conns_ok sv xs"
  by (simp add: conns_ok_def)

text \<open>
  When no key is due, \<open>process_timers\<close> closes exactly the connections that have been idle for five
  seconds, the longest idle first, and frees them; afterwards the idle list and \<open>fd2conn\<close> refer to the other
  connections and to nothing else.  The list is in the order of the last activity (C21), and no time is within five
  seconds of the wrap-around of the clock.
\<close>

theorem idle_connections_closed:
  assumes "conns_ok sv xs" and "sorted (map (\<lambda>a. c_idle_start (conn_of sv a)) xs)"
    and "\<forall>a \<in> set xs. unat (c_idle_start (conn_of sv a)) + 5000000 < 2 ^ 64"
    and "get_monotonic_usec (sv_g sv) = (now_us, g)"
    and "g_heap g = [] \<or> now_us \<le> hi_val (hd (g_heap g))"
  shows "\<exists>sv'. process_timers sv = Inr sv' \<and>
    sv_closed sv' = sv_closed sv @ map (\<lambda>a. c_fd (conn_of sv a)) (filter (\<lambda>a. expired now_us (conn_of sv a)) xs) \<and>
    conns_ok sv' (filter (\<lambda>a. \<not> expired now_us (conn_of sv a)) xs) \<and>
    (\<forall>a \<in> set xs. sv_conns sv' a = (if expired now_us (conn_of sv a) then None else sv_conns sv a)) \<and>
    sv_g sv' = g"
proof -
  have "expire_loop 0 now_us g = Inr g" using assms(5) by (subst expire_loop.simps) auto
  moreover obtain sv1 where "process_timers sv = bindr (expire_loop 0 now_us g) (\<lambda>g1. Inr (sv1\<lparr>sv_g := g1\<rparr>))"
      "sv_closed sv1 = sv_closed sv @ map (\<lambda>a. c_fd (conn_of sv a)) (filter (\<lambda>a. expired now_us (conn_of sv a)) xs)"
      "conns_ok sv1 (filter (\<lambda>a. \<not> expired now_us (conn_of sv a)) xs)"
      "\<forall>a \<in> set xs. sv_conns sv1 a = (if expired now_us (conn_of sv a) then None else sv_conns sv a)"
    by (rule process_timers_idle [OF assms(1-4)])
  ultimately show ?thesis by (intro exI [of _ "sv1\<lparr>sv_g := g\<rparr>"]) (simp add: conns_ok_sv_g)
qed

text \<open>Two connections, the first idle for six seconds and the second for two.\<close>

definition demo_idle :: server where
  "demo_idle =
     \<lparr>sv_g = g_init (\<lambda>_. 6000000),
      sv_conns = [7 \<mapsto> \<lparr>c_fd = 0, c_state = STATE_REQ, c_rbuf = [], c_wbuf = [], c_sent = 0, c_idle_start = 0\<rparr>,
        8 \<mapsto> \<lparr>c_fd = 1, c_state = STATE_REQ, c_rbuf = [], c_wbuf = [], c_sent = 0, c_idle_start = 4000000\<rparr>],
      sv_fd2conn = [Some 7, Some 8],
      sv_idle = [0 \<mapsto> \<lparr>d_prev = Some 8, d_next = Some 7\<rparr>, 7 \<mapsto> \<lparr>d_prev = Some 0, d_next = Some 8\<rparr>,
        8 \<mapsto> \<lparr>d_prev = Some 7, d_next = Some 0\<rparr>],
      sv_socks = (\<lambda>_. \<lparr>sk_in = [], sk_out = [], sk_sent = []\<rparr>), sv_closed = []\<rparr>"

lemma demo_idle_ok: "conns_ok demo_idle [7, 8]"
  unfolding conns_ok_def
proof (intro conjI)
  show "ring (sv_idle demo_idle) idle_head [7, 8]"
    by (simp add: demo_idle_def ring_def lk_def nx_def pv_def idle_head_def)
  show "dom (sv_conns demo_idle) = set [7, 8]" by (auto simp: demo_idle_def)
  show "\<forall>a c. sv_conns demo_idle a = Some c \<longrightarrow>
      c_fd c < length (sv_fd2conn demo_idle) \<and> sv_fd2conn demo_idle ! c_fd c = Some a"
    by (simp add: demo_idle_def)
  show "\<forall>i < length (sv_fd2conn demo_idle). \<forall>a. sv_fd2conn demo_idle ! i = Some a \<longrightarrow>
      (\<exists>c. sv_conns demo_idle a = Some c \<and> c_fd c = i)"
    by (auto simp: demo_idle_def less_Suc_eq)
qed

theorem idle_connections_closed_witness:
  "\<exists>sv'. process_timers demo_idle = Inr sv' \<and> sv_closed sv' = [0] \<and> conns_ok sv' [8]"
  using idle_connections_closed [OF demo_idle_ok, of 6000000 "(g_init (\<lambda>_. 6000000))\<lparr>g_tick := 1\<rparr>"]
  by (auto simp: demo_idle_def conn_of_def expired_def k_idle_timeout_ms_def get_monotonic_usec_def g_init_def
      word_le_nat_alt)

end
