(* ===== verification/Expiring_Keys.thy ===== *)
theory Expiring_Keys
  imports Database Event_Loop
begin

text \<open>
  Keys with a time to live: the database, the heap of deadlines and the removal of expired keys by
  \<open>process_timers\<close> together refine a finite map from keys to values with optional deadlines.
\<close>

section \<open>Nodes of the database\<close>

lemma map_holds_alloc:
  assumes "map_holds (m, hm) ns" and "\<forall>x \<in># ns. h_nodes m' x = h_nodes m x"
    and "h_arrs m' = h_arrs m" and "h_brk m \<le> h_brk m'"
  shows "map_holds (m', hm) ns"
proof -
  obtain bs1 bs2 where B: "hm_ok m hm bs1 bs2" "mset (nodes_of bs1 bs2) = ns"
    using assms(1) by (auto simp: map_holds_def)
  have "\<forall>x \<in> set (nodes_of bs1 bs2). h_nodes m' x = h_nodes m x"
    using assms(2) unfolding B(2) [symmetric] set_mset_mset .
  then have "hm_ok m' hm bs1 bs2" by (rule hm_ok_alloc [OF B(1) _ assms(3,4)])
  then show ?thesis using B(2) by (auto simp only: map_holds_def fst_conv snd_conv)
qed

lemma map_holds_member:
  assumes "map_holds s ns"
  shows "y \<in># ns \<Longrightarrow> map_alive s y" and "ns = mset_set (set_mset ns)"
proof -
  obtain bs1 bs2 where B: "hm_ok (fst s) (snd s) bs1 bs2" "mset (nodes_of bs1 bs2) = ns"
    using assms by (auto simp: map_holds_def)
  have sh: "hm_shape (fst s) (snd s) bs1 bs2" using B(1) by (simp add: hm_ok_def hm_rep_def)
  show "map_alive s y" if "y \<in># ns"
  proof -
    have "y \<in> set (concat bs1) \<union> set (concat bs2)"
      using that unfolding B(2) [symmetric] set_mset_mset set_append .
    then show ?thesis using hm_shape_node [OF sh] by (auto simp: map_alive_def simp del: set_concat)
  qed
  have "distinct (nodes_of bs1 bs2)"
    unfolding distinct_append
    using hm_shapeD(3) [OF sh] tab_shape_distinct [OF hm_shapeD(1) [OF sh]]
      tab_shape_distinct [OF hm_shapeD(2) [OF sh]] by blast
  then show "ns = mset_set (set_mset ns)"
    unfolding B(2) [symmetric] set_mset_mset by (rule mset_set_set [symmetric])
qed

lemma map_holds_once: "map_holds s ns \<Longrightarrow> y \<notin># ns - {#y#}"
proof -
  assume h: "map_holds s ns"
  have "count ns y \<le> 1"
    using arg_cong [OF map_holds_member(2) [OF h], of "\<lambda>M. count M y"] by (simp add: count_mset_set')
  then show ?thesis by (simp add: not_in_iff)
qed

section \<open>The state of the database\<close>

text \<open>
  \<open>ttl_ok\<close>: the entries of the nodes are strings under the hashes of their keys, each has an index into the
  heap, and only they have deadlines.  The database is small enough for a deletion to finish a
  resizing.
\<close>

definition ttl_ok :: "gdata \<Rightarrow> addr multiset \<Rightarrow> bool" where
  "ttl_ok g ns \<longleftrightarrow> map_holds (o_h (g_M g), g_db g) ns \<and>
     (\<forall>y \<in># ns. o_e (g_M g) y \<noteq> None \<and> o_idx (g_M g) y \<noteq> None \<and> e_type (ent g y) = 0 \<and>
        code_at (o_h (g_M g)) y = str_hash (e_key (ent g y))) \<and>
     timers_ok (g_heap g, o_idx (g_M g)) \<and> dom (deadlines (g_heap g)) \<subseteq> set_mset ns \<and>
     size ns \<le> k_resizing_work"

text \<open>The map that a database stands for: a value and perhaps a deadline for every key.\<close>

type_synonym kmap = "bytes \<rightharpoonup> bytes \<times> u64 option"

definition stores :: "gdata \<Rightarrow> addr multiset \<Rightarrow> kmap \<Rightarrow> bool" where
  "stores g ns m \<longleftrightarrow> ttl_ok g ns \<and> inj_on (\<lambda>y. e_key (ent g y)) (set_mset ns) \<and>
     dom m = (\<lambda>y. e_key (ent g y)) ` set_mset ns \<and>
     (\<forall>y \<in># ns. m (e_key (ent g y)) = Some (e_val (ent g y), deadlines (g_heap g) y))"

lemma storesD:
  assumes "stores g ns m"
  shows "map_holds (o_h (g_M g), g_db g) ns" and "timers_ok (g_heap g, o_idx (g_M g))"
    and "dom (deadlines (g_heap g)) \<subseteq> set_mset ns" and "size ns \<le> k_resizing_work"
    and "inj_on (\<lambda>y. e_key (ent g y)) (set_mset ns)" and "dom m = (\<lambda>y. e_key (ent g y)) ` set_mset ns"
    and "y \<in># ns \<Longrightarrow> m (e_key (ent g y)) = Some (e_val (ent g y), deadlines (g_heap g) y)"
    and "y \<in># ns \<Longrightarrow> o_e (g_M g) y = Some (ent g y)" and "y \<in># ns \<Longrightarrow> o_idx (g_M g) y \<noteq> None"
    and "y \<in># ns \<Longrightarrow> e_type (ent g y) = 0"
    and "y \<in># ns \<Longrightarrow> code_at (o_h (g_M g)) y = str_hash (e_key (ent g y))"
  using assms unfolding stores_def ttl_ok_def by (auto simp: ent_def)

lemma stores_size:
  assumes "stores g ns m"
  shows "size ns = card (dom m)" and "finite (dom m)"
proof -
  have "card (dom m) = card (set_mset ns)"
    unfolding storesD(6) [OF assms] by (rule card_image [OF storesD(5) [OF assms]])
  moreover have "size ns = card (set_mset ns)"
    using arg_cong [OF map_holds_member(2) [OF storesD(1) [OF assms]], of size] by simp
  ultimately show "size ns = card (dom m)" by simp
  show "finite (dom m)" unfolding storesD(6) [OF assms] by simp
qed

lemma stores_None: "stores g ns m \<Longrightarrow> m k = None \<longleftrightarrow> (\<forall>y \<in># ns. e_key (ent g y) \<noteq> k)"
  using storesD(6) [of g ns m] by (metis (no_types, lifting) domIff imageE image_eqI)

lemma stores_Some:
  "stores g ns m \<Longrightarrow> y \<in># ns \<Longrightarrow> e_key (ent g y) = k \<Longrightarrow> m k = Some (e_val (ent g y), deadlines (g_heap g) y)"
  using storesD(7) by blast

text \<open>What the map stands for depends on the entries and the deadlines only.\<close>

lemma stores_cong:
  assumes "stores g ns m" and "map_holds (o_h (g_M g'), g_db g') ns"
    and "code_at (o_h (g_M g')) = code_at (o_h (g_M g))" and "o_e (g_M g') = o_e (g_M g)"
    and "o_idx (g_M g') = o_idx (g_M g)" and "g_heap g' = g_heap g"
  shows "stores g' ns m"
  using assms by (simp add: stores_def ttl_ok_def ent_def)

lemma stores_db_ok:
  assumes "stores g ns m"
  obtains bs1 bs2 where "db_ok g bs1 bs2" and "mset (nodes_of bs1 bs2) = ns"
proof -
  obtain bs1 bs2 where B: "hm_ok (o_h (g_M g)) (g_db g) bs1 bs2" "mset (nodes_of bs1 bs2) = ns"
    using storesD(1) [OF assms] by (auto simp: map_holds_def)
  have "db_ok g bs1 bs2"
    unfolding db_ok_def set_mset_mset [symmetric] B(2)
    using B(1) storesD(8,11) [OF assms] by auto
  then show ?thesis using that B(2) by blast
qed

section \<open>Commands\<close>

lemma key_eq:
  assumes "stores g ns m"
  shows "\<forall>y \<in># ns. code_at (fst (o_h (g_M g), g_db g)) y = c \<longrightarrow>
    entry_eq (g_M g) (Inr key) y = Inr (e_key (ent g y) = key)"
  using storesD(8) [OF assms] by (simp add: entry_eq_def load_Some)

lemma found_key:
  assumes "stores g ns m"
    and "found (code_eq (str_hash key) (\<lambda>y. e_key (ent g y) = key) (code_at (o_h (g_M g)))) ns p"
  shows "case p of None \<Rightarrow> m key = None | Some a \<Rightarrow> a \<in># ns \<and> e_key (ent g a) = key"
  using assms(2) stores_None [OF assms(1)] storesD(11) [OF assms(1)]
  by (auto simp: found_def code_eq_def split: option.splits)

lemma lookup_key:
  assumes "stores g ns m"
  obtains g' p where "db_lookup g key = Inr (g', p)" and "stores g' ns m"
    and "o_e (g_M g') = o_e (g_M g)" and "o_idx (g_M g') = o_idx (g_M g)" and "g_heap g' = g_heap g"
    and "g_clock g' = g_clock g" and "g_tick g' = g_tick g"
    and "case p of None \<Rightarrow> m key = None | Some a \<Rightarrow> a \<in># ns \<and> e_key (ent g a) = key"
proof -
  obtain h hm p where L: "map_look (o_h (g_M g), g_db g) (str_hash key) (entry_eq (g_M g) (Inr key)) = Inr ((h, hm), p)"
      "map_holds (h, hm) ns" "code_at h = code_at (o_h (g_M g))"
      "found (code_eq (str_hash key) (\<lambda>y. e_key (ent g y) = key) (code_at (o_h (g_M g)))) ns p"
    using hmap.look_law [OF storesD(1) [OF assms] key_eq [OF assms, of "str_hash key" key]] by auto
  let ?g = "g\<lparr>g_M := (g_M g)\<lparr>o_h := h\<rparr>, g_db := hm\<rparr>"
  have "hm_lookup (o_h (g_M g)) (g_db g) (str_hash key) (entry_eq (g_M g) (Inr key)) = Inr (h, hm, p)"
    using L(1) by (auto simp: map_look_def bindr_eq_Inr)
  then have "db_lookup g key = Inr (?g, p)" by (simp add: db_lookup_def)
  moreover have "stores ?g ns m" by (rule stores_cong [OF assms]) (use L(2,3) in simp_all)
  ultimately show ?thesis using that [of ?g p] found_key [OF assms L(4)] by simp
qed

lemma timers_ok_other:
  assumes "timers_ok (h, refs)" and "deadlines h a = None"
  shows "timers_ok (h, refs(a \<mapsto> - 1))" and "timers_ok (h, refs(a := None))"
proof -
  note T = timers_okD [OF assms(1)]
  have a: "Some a \<notin> hi_ref ` set h" using assms(2) by (simp add: deadlines_None)
  then have "hi_ref (h ! i) \<noteq> Some a" if "i < length h" for i using that by (metis image_eqI nth_mem)
  then have "refs_ok h (refs(a := v))" for v using T(2) unfolding refs_ok_def by fastforce
  then show "timers_ok (h, refs(a \<mapsto> - 1))" "timers_ok (h, refs(a := None))"
    using T(1,3,5) by (auto simp: timers_ok_def)
qed

text \<open>A new entry is at an address that no node has.\<close>

lemma set_key:
  assumes "stores g ns m" and "m key = None" and "size ns < k_resizing_work"
  obtains g' a where "do_set g [op, key, val] out = Inr (g', RES_OK, out_int out 0)"
    and "stores g' (add_mset a ns) (m(key \<mapsto> (val, None)))" and "g_clock g' = g_clock g" and "g_tick g' = g_tick g"
proof -
  note S = storesD [OF assms(1)]
  let ?M = "g_M g" and ?e = "\<lparr>e_key = key, e_val = val, e_type = 0, e_zset = None\<rparr>"
  let ?a = "h_brk (o_h ?M)"
  let ?h = "(o_h ?M)\<lparr>h_nodes := (h_nodes (o_h ?M))(?a \<mapsto> \<lparr>h_next = None, h_code = str_hash key\<rparr>), h_brk := ?a + 1\<rparr>"
  let ?M1 = "?M\<lparr>o_h := ?h, o_e := (o_e ?M)(?a \<mapsto> ?e), o_idx := (o_idx ?M)(?a \<mapsto> - 1)\<rparr>"
  have new: "?a \<notin># ns" using map_holds_member(1) [OF S(1), of ?a] by (auto simp: map_alive_def)
  then have none: "deadlines (g_heap g) ?a = None" using S(3) by blast
  have "map_holds (?h, g_db g) ns"
    by (rule map_holds_alloc [OF S(1)]) (use new in auto)
  moreover have "map_alive (?h, g_db g) ?a" by (simp add: map_alive_def)
  moreover have "size ns + 1 < 2 ^ 64" using assms(3) by (simp add: k_resizing_work_def)
  ultimately obtain s' where "map_ins (?h, g_db g) (Some ?a) = Inr s'" "map_holds s' (add_mset ?a ns)"
      "code_at (fst s') = code_at (fst (?h, g_db g))"
    using hmap.ins_law [of "(?h, g_db g)" ns ?a] new by blast
  then obtain h hm where I: "hm_insert ?h (g_db g) (Some ?a) = Inr (h, hm)" "map_holds (h, hm) (add_mset ?a ns)"
      "code_at h = code_at ?h"
    by (cases s') (auto simp: map_ins_def)
  let ?g = "g\<lparr>g_M := ?M1\<lparr>o_h := h\<rparr>, g_db := hm\<rparr>"
  have old: "ent ?g y = ent g y" "y \<noteq> ?a" if "y \<in># ns" for y using that new by (auto simp: ent_def)
  have at: "ent ?g ?a = ?e" by (simp add: ent_def)
  have code: "code_at h y = (if y = ?a then str_hash key else code_at (o_h ?M) y)" for y
    unfolding I(3) by (simp add: code_at_def)
  have "ttl_ok ?g (add_mset ?a ns)"
    unfolding ttl_ok_def
  proof (intro conjI ballI)
    fix y assume "y \<in># add_mset ?a ns"
    then consider "y = ?a" | "y \<in># ns" "y \<noteq> ?a" using new by auto
    then show "o_e (g_M ?g) y \<noteq> None" "o_idx (g_M ?g) y \<noteq> None" "e_type (ent ?g y) = 0"
        "code_at (o_h (g_M ?g)) y = str_hash (e_key (ent ?g y))"
      by (cases; use S(8-11) old at code in simp)+
  qed (use I(2) S(2,3) assms(3) timers_ok_other(1) [OF S(2) none] in auto)
  moreover have "inj_on (\<lambda>y. e_key (ent ?g y)) (set_mset (add_mset ?a ns))"
    using S(5) old at stores_None [OF assms(1)] assms(2) by (auto simp: inj_on_def)
  moreover have "dom (m(key \<mapsto> (val, None))) = (\<lambda>y. e_key (ent ?g y)) ` set_mset (add_mset ?a ns)"
    using S(6) old at by (auto simp: image_iff)
  moreover have "(m(key \<mapsto> (val, None))) (e_key (ent ?g y)) = Some (e_val (ent ?g y), deadlines (g_heap ?g) y)"
    if "y \<in># add_mset ?a ns" for y
  proof (cases "y = ?a")
    case True
    then show ?thesis using at none by simp
  next
    case False
    then have "y \<in># ns" using that by simp
    then show ?thesis using S(7) old stores_None [OF assms(1)] assms(2) by auto
  qed
  ultimately have "stores ?g (add_mset ?a ns) (m(key \<mapsto> (val, None)))" unfolding stores_def by blast
  moreover have "do_set g [op, key, val] out = Inr (?g, RES_OK, out_int out 0)"
    using I(1) by (simp add: do_set_def entry_new_def fresh_def Let_def RES_OK_def)
  ultimately show ?thesis using that [of ?g ?a] by simp
qed

lemma get_key:
  assumes "stores g ns m" and "\<forall>v d. m key = Some (v, d) \<longrightarrow> length v \<le> k_max_msg"
  obtains g' where "do_get g [op, key] out = (case m key of
        None \<Rightarrow> Inr (g', RES_NX, out_int out (ucast RES_NX)) | Some (v, d) \<Rightarrow> Inr (g', RES_OK, out_str out v))"
    and "stores g' ns m" and "g_clock g' = g_clock g" and "g_tick g' = g_tick g"
proof -
  obtain g' p where L: "db_lookup g key = Inr (g', p)" "stores g' ns m" "o_e (g_M g') = o_e (g_M g)"
      "o_idx (g_M g') = o_idx (g_M g)" "g_heap g' = g_heap g"
      "g_clock g' = g_clock g" "g_tick g' = g_tick g"
      "case p of None \<Rightarrow> m key = None | Some a \<Rightarrow> a \<in># ns \<and> e_key (ent g a) = key"
    by (rule lookup_key [OF assms(1)])
  have "do_get g [op, key] out = (case m key of
        None \<Rightarrow> Inr (g', RES_NX, out_int out (ucast RES_NX)) | Some (v, d) \<Rightarrow> Inr (g', RES_OK, out_str out v))"
  proof (cases p)
    case None
    then show ?thesis using L(1,8) by (simp add: do_get_def)
  next
    case (Some a)
    then have a: "a \<in># ns" "e_key (ent g a) = key" using L(8) by simp_all
    have "load (o_e (g_M g')) (Some a) = Inr (ent g a)"
      using storesD(8) [OF assms(1) a(1)] L(3) by (simp add: load_Some)
    then show ?thesis
      using stores_Some [OF assms(1) a] assms(2) L(1) Some by (simp add: do_get_def)
  qed
  then show ?thesis using that L(2,6,7) by blast
qed

text \<open>An entry that leaves the map is freed; it must have no deadline.\<close>

lemma stores_remove:
  assumes "stores g ns m" and a: "a \<in># ns" "deadlines hp a = None"
    and "map_holds (h, hm) (ns - {#a#})" and "code_at h = code_at (o_h (g_M g))"
    and "deadlines hp = (deadlines (g_heap g))(a := None)" and "timers_ok (hp, idx)"
    and "\<forall>r. (idx r = None) = (o_idx (g_M g) r = None)"
    and "g' = g\<lparr>g_M := (g_M g)\<lparr>o_h := h, o_idx := idx\<rparr>, g_db := hm, g_heap := hp\<rparr>"
  obtains g'' where "entry_del g' a = Inr g''" and "stores g'' (ns - {#a#}) (m(e_key (ent g a) := None))"
    and "g_clock g'' = g_clock g" and "g_tick g'' = g_tick g" and "g_heap g'' = hp"
proof -
  note S = storesD [OF assms(1)]
  let ?ns = "ns - {#a#}"
  have out: "a \<notin># ?ns" by (rule map_holds_once [OF S(1)])
  have ns: "set_mset ?ns = set_mset ns - {a}"
    using out a(1) by (auto dest: in_diffD)
      (metis insert_DiffM insert_noteq_member)
  let ?g = "g'\<lparr>g_M := (g_M g')\<lparr>o_h := (o_h (g_M g'))\<lparr>h_nodes := (h_nodes (o_h (g_M g')))(a := None)\<rparr>,
      o_e := (o_e (g_M g'))(a := None), o_idx := (o_idx (g_M g'))(a := None)\<rparr>\<rparr>"
  have run: "entry_del g' a = Inr ?g"
    using S(8,10) [OF a(1)] by (simp add: entry_del_def entry_free_def load_Some assms(9))
  have same: "ent ?g y = ent g y" if "y \<in># ?ns" for y
    using that ns by (auto simp: ent_def assms(9))
  have code: "code_at (o_h (g_M ?g)) y = code_at (o_h (g_M g)) y" if "y \<in># ?ns" for y
    using that ns fun_cong [OF assms(5), of y] by (auto simp: code_at_def assms(9))
  have "map_holds (o_h (g_M ?g), hm) ?ns"
    by (rule map_holds_alloc [OF assms(4)]) (use out in \<open>auto simp: assms(9)\<close>)
  moreover have "size ?ns \<le> k_resizing_work" using S(4) size_Diff1_le [of ns a] by linarith
  moreover have "timers_ok (hp, idx(a := None))" by (rule timers_ok_other(2) [OF assms(7) a(2)])
  moreover have "dom (deadlines hp) \<subseteq> set_mset ?ns" using S(3) assms(6) ns by auto
  ultimately have "ttl_ok ?g ?ns"
    using S(8-11) same code assms(8) ns by (auto simp: ttl_ok_def assms(9))
  moreover have "inj_on (\<lambda>y. e_key (ent ?g y)) (set_mset ?ns)"
    using S(5) same ns by (auto simp: inj_on_def)
  moreover have "dom (m(e_key (ent g a) := None)) = (\<lambda>y. e_key (ent ?g y)) ` set_mset ?ns"
    using S(5,6) same ns a(1) by (auto simp: inj_on_def image_iff)
  moreover have "(m(e_key (ent g a) := None)) (e_key (ent ?g y)) = Some (e_val (ent ?g y), deadlines (g_heap ?g) y)"
    if "y \<in># ?ns" for y
    using that same S(5,7) ns a(1) assms(6) by (auto simp: inj_on_def assms(9))
  ultimately have "stores ?g ?ns (m(e_key (ent g a) := None))" unfolding stores_def by blast
  then show ?thesis using that [of ?g] run by (simp add: assms(9))
qed

text \<open>\<open>hm_delete\<close> of a key, for the key on the stack and for the key of an entry.\<close>

lemma delete_key:
  assumes "stores g ns m" and "\<forall>y \<in># ns. eq y = Inr (e_key (ent g y) = key)"
  obtains h hm p where "hm_delete (o_h (g_M g)) (g_db g) (str_hash key) eq = Inr (h, hm, p)"
    and "map_holds (h, hm) (ns - mset_set (set_option p))" and "code_at h = code_at (o_h (g_M g))"
    and "case p of None \<Rightarrow> m key = None | Some a \<Rightarrow> a \<in># ns \<and> e_key (ent g a) = key"
proof -
  note S = storesD [OF assms(1)]
  have "\<forall>y \<in># ns. code_at (fst (o_h (g_M g), g_db g)) y = str_hash key \<longrightarrow> eq y = Inr (e_key (ent g y) = key)"
    using assms(2) by blast
  from hmap.del_law [OF S(1) this S(4)] obtain h hm p where D:
      "map_del (o_h (g_M g), g_db g) (str_hash key) eq = Inr ((h, hm), p)"
      "map_holds (h, hm) (ns - mset_set (set_option p))" "code_at h = code_at (o_h (g_M g))"
      "found (code_eq (str_hash key) (\<lambda>y. e_key (ent g y) = key) (code_at (o_h (g_M g)))) ns p"
    by auto
  have "hm_delete (o_h (g_M g)) (g_db g) (str_hash key) eq = Inr (h, hm, p)"
    using D(1) by (auto simp: map_del_def bindr_eq_Inr)
  then show ?thesis using that D(2,3) found_key [OF assms(1) D(4)] by blast
qed

lemma del_key:
  assumes "stores g ns m" and "\<forall>v d. m key = Some (v, d) \<longrightarrow> d = None"
  obtains g' ns' where "do_del g [op, key] out = Inr (g', RES_OK, out_int out (if m key = None then 0 else 1))"
    and "stores g' ns' (m(key := None))" and "g_clock g' = g_clock g" and "g_tick g' = g_tick g"
proof -
  note S = storesD [OF assms(1)]
  have "\<forall>y \<in># ns. entry_eq (g_M g) (Inr key) y = Inr (e_key (ent g y) = key)"
    using S(8) by (simp add: entry_eq_def load_Some)
  then obtain h hm p where D: "hm_delete (o_h (g_M g)) (g_db g) (str_hash key) (entry_eq (g_M g) (Inr key)) = Inr (h, hm, p)"
      "map_holds (h, hm) (ns - mset_set (set_option p))" "code_at h = code_at (o_h (g_M g))"
      "case p of None \<Rightarrow> m key = None | Some a \<Rightarrow> a \<in># ns \<and> e_key (ent g a) = key"
    by (rule delete_key [OF assms(1)])
  let ?g = "g\<lparr>g_M := (g_M g)\<lparr>o_h := h\<rparr>, g_db := hm\<rparr>"
  show ?thesis
  proof (cases p)
    case None
    have "stores ?g ns m"
      by (rule stores_cong [OF assms(1)]) (use D(2,3) None in simp_all)
    moreover have "m(key := None) = m" using D(4) None by (simp add: fun_upd_idem)
    ultimately show ?thesis using that [of ?g ns] D(1,4) None by (simp add: do_del_def)
  next
    case (Some a)
    then have a: "a \<in># ns" "e_key (ent g a) = key" using D(4) by simp_all
    have d: "deadlines (g_heap g) a = None" using stores_Some [OF assms(1) a] assms(2) by blast
    have hold: "map_holds (h, hm) (ns - {#a#})" using D(2) Some by simp
    obtain g'' where R: "entry_del ?g a = Inr g''" "stores g'' (ns - {#a#}) (m(e_key (ent g a) := None))"
        "g_clock g'' = g_clock g" "g_tick g'' = g_tick g" "g_heap g'' = g_heap g"
      by (rule stores_remove [OF assms(1) a(1) d hold D(3) _ S(2), of ?g])
        (use d in \<open>auto simp: fun_upd_idem\<close>)
    obtain v d where "m key = Some (v, d)" using stores_Some [OF assms(1) a] by blast
    then show ?thesis using that [of g'' "ns - {#a#}"] D(1) R a(2) Some by (simp add: do_del_def)
  qed
qed

lemma all_keys:
  assumes "stores g ns m"
  obtains ks where "do_keys g cmd out = Inr (g, RES_OK, put_reply out (RArr (map RStr ks)))"
    and "distinct ks" and "set ks = dom m"
proof -
  obtain bs1 bs2 where B: "db_ok g bs1 bs2" "mset (nodes_of bs1 bs2) = ns"
    by (rule stores_db_ok [OF assms])
  obtain ks where K: "do_keys g cmd out = Inr (g, RES_OK, put_reply out (RArr (map RStr ks)))"
      "mset ks = image_mset fst (contents g bs1 bs2)"
    by (rule do_keys_spec [OF B(1)])
  have ks: "mset ks = image_mset (\<lambda>y. e_key (ent g y)) ns"
    using K(2) unfolding contents_def B(2) by (simp add: image_mset.compositionality comp_def)
  have "image_mset (\<lambda>y. e_key (ent g y)) ns = mset_set (dom m)"
    using image_mset_mset_set [OF storesD(5) [OF assms]] map_holds_member(2) [OF storesD(1) [OF assms]]
      storesD(6) [OF assms] by simp
  then have "mset ks = mset_set (dom m)" using ks by simp
  then have "distinct ks" "set ks = dom m"
    using stores_size(2) [OF assms]
    by (metis count_mset_set' distinct_count_atmost_1 finite_set_mset_mset_set set_mset_mset count_mset_set(3) not_in_iff count_mset_set(1))+
  then show ?thesis using that K(1) by blast
qed

section \<open>Deadlines\<close>

text \<open>\<open>EXPIRE\<close> changes one deadline; a negative time to live takes it away.\<close>

lemma set_ttl_key:
  assumes "stores g ns m" and "a \<in># ns" and "m (e_key (ent g a)) = Some (v, d)"
  obtains g' where "set_ttl g a ttl = Inr g'" and "g_clock g' = g_clock g"
    and "g_tick g' = (if sint ttl < 0 then g_tick g else g_tick g + 1)"
    and "stores g' ns (m(e_key (ent g a) \<mapsto> (v, if sint ttl < 0 then None else Some (g_clock g (g_tick g) + ttl * 1000))))"
proof -
  note S = storesD [OF assms(1)]
  let ?now = "g_clock g (g_tick g)" and ?k = "e_key (ent g a)"
  let ?d = "if sint ttl < 0 then None else Some (?now + ttl * 1000)"
  let ?now' = "if sint ttl < 0 then 0 else ?now"
  let ?g1 = "if sint ttl < 0 then g else g\<lparr>g_tick := g_tick g + 1\<rparr>"
  have "card (dom (deadlines (g_heap g))) \<le> card (set_mset ns)" using S(3) by (intro card_mono) simp_all
  also have "\<dots> = size ns" using arg_cong [OF map_holds_member(2) [OF S(1)], of size] by simp
  finally have room: "card (dom (deadlines (fst (g_heap g, o_idx (g_M g))))) + 1 < 2 ^ 64 - 1"
    using S(4) by (simp add: k_resizing_work_def)
  obtain hp idx where T: "entry_set_ttl ?now' a ttl (g_heap g, o_idx (g_M g)) = Inr (hp, idx)" "timers_ok (hp, idx)"
      "(\<lambda>e. idx e \<noteq> None) = (\<lambda>e. o_idx (g_M g) e \<noteq> None)"
      "deadlines hp = (deadlines (g_heap g))(a := if sint ttl < 0 then None else Some (?now' + ttl * 1000))"
    using timers.set_law [OF S(2) _ room, of a ?now' ttl] S(9) [OF assms(2)] by auto
  have dl: "deadlines hp = (deadlines (g_heap g))(a := ?d)" using T(4) by (cases "sint ttl < 0") simp_all
  let ?g = "?g1\<lparr>g_heap := hp, g_M := (g_M ?g1)\<lparr>o_idx := idx\<rparr>\<rparr>"
  have parts: "o_h (g_M ?g) = o_h (g_M g)" "g_db ?g = g_db g" "o_e (g_M ?g) = o_e (g_M g)" "g_heap ?g = hp"
      "o_idx (g_M ?g) = idx" "g_clock ?g = g_clock g"
      "g_tick ?g = (if sint ttl < 0 then g_tick g else g_tick g + 1)"
    by simp_all
  have same: "ent ?g = ent g" by (simp add: ent_def parts fun_eq_iff)
  have run: "set_ttl g a ttl = Inr ?g"
    using T(1) by (cases "sint ttl < 0") (simp_all add: set_ttl_def get_monotonic_usec_def Let_def)
  have "dom (deadlines hp) \<subseteq> insert a (dom (deadlines (g_heap g)))" unfolding dl by auto
  then have "dom (deadlines hp) \<subseteq> set_mset ns" using S(3) assms(2) by blast
  then have "ttl_ok ?g ns"
    unfolding ttl_ok_def parts same
    using S(1,4,8-11) T(2) fun_cong [OF T(3)] by auto
  moreover have "inj_on (\<lambda>y. e_key (ent ?g y)) (set_mset ns)" using S(5) unfolding same .
  moreover have "dom (m(?k \<mapsto> (v, ?d))) = (\<lambda>y. e_key (ent ?g y)) ` set_mset ns"
    using S(6) assms(2) unfolding same by auto
  moreover have "(m(?k \<mapsto> (v, ?d))) (e_key (ent ?g y)) = Some (e_val (ent ?g y), deadlines (g_heap ?g) y)"
    if "y \<in># ns" for y
  proof (cases "y = a")
    case True
    then show ?thesis using S(7) [OF assms(2)] assms(3) dl unfolding same parts by simp
  next
    case False
    then have "e_key (ent g y) \<noteq> ?k" using S(5) that assms(2) by (auto simp: inj_on_def)
    then show ?thesis using S(7) [OF that] dl False unfolding same parts by simp
  qed
  ultimately have "stores ?g ns (m(?k \<mapsto> (v, ?d)))" unfolding stores_def by blast
  then show ?thesis using that [OF run] parts(6,7) by simp
qed

lemma expire_key:
  assumes "stores g ns m" and "str2int arg = Some ttl"
  obtains g' where "do_expire g [op, key, arg] out = Inr (g', RES_OK, out_int out (if m key = None then 0 else 1))"
    and "g_clock g' = g_clock g"
    and "case m key of None \<Rightarrow> stores g' ns m \<and> g_tick g' = g_tick g
      | Some (v, d) \<Rightarrow>
          if sint ttl < 0 then stores g' ns (m(key \<mapsto> (v, None))) \<and> g_tick g' = g_tick g
          else stores g' ns (m(key \<mapsto> (v, Some (g_clock g (g_tick g) + ttl * 1000)))) \<and> g_tick g' = g_tick g + 1"
proof -
  obtain g1 p where L: "db_lookup g key = Inr (g1, p)" "stores g1 ns m" "o_e (g_M g1) = o_e (g_M g)"
      "o_idx (g_M g1) = o_idx (g_M g)" "g_heap g1 = g_heap g"
      "g_clock g1 = g_clock g" "g_tick g1 = g_tick g"
      "case p of None \<Rightarrow> m key = None | Some a \<Rightarrow> a \<in># ns \<and> e_key (ent g a) = key"
    by (rule lookup_key [OF assms(1)])
  show ?thesis
  proof (cases p)
    case None
    then show ?thesis using that [of g1] L assms(2) by (simp add: do_expire_def)
  next
    case (Some a)
    then have a: "a \<in># ns" "e_key (ent g1 a) = key" using L(3,8) by (simp_all add: ent_def)
    obtain v d where v: "m (e_key (ent g1 a)) = Some (v, d)" using stores_Some [OF L(2) a] a(2) by simp
    obtain g' where G: "set_ttl g1 a ttl = Inr g'" "g_clock g' = g_clock g1"
        "g_tick g' = (if sint ttl < 0 then g_tick g1 else g_tick g1 + 1)"
        "stores g' ns (m(e_key (ent g1 a) \<mapsto> (v, if sint ttl < 0 then None else Some (g_clock g1 (g_tick g1) + ttl * 1000))))"
      by (rule set_ttl_key [OF L(2) a(1) v])
    show ?thesis
    proof (rule that [of g'])
      show "do_expire g [op, key, arg] out = Inr (g', RES_OK, out_int out (if m key = None then 0 else 1))"
        using L(1) Some assms(2) G(1) v a(2) by (simp add: do_expire_def)
      show "g_clock g' = g_clock g" using G(2) L(6) by simp
    qed (use G(3,4) L(6,7) v a(2) in \<open>cases "sint ttl < 0"; simp\<close>)
  qed
qed

lemma ttl_key:
  assumes "stores g ns m"
  obtains g' where "do_ttl g [op, key] out = Inr (g', RES_OK, out_int out (case m key of
        None \<Rightarrow> - 2 | Some (v, None) \<Rightarrow> - 1
      | Some (v, Some d) \<Rightarrow> (let now = g_clock g (g_tick g) in if d > now then (d - now) div 1000 else 0)))"
    and "stores g' ns m" and "g_clock g' = g_clock g"
    and "g_tick g' = (case m key of Some (v, Some d) \<Rightarrow> g_tick g + 1 | _ \<Rightarrow> g_tick g)"
proof -
  obtain g1 p where L: "db_lookup g key = Inr (g1, p)" "stores g1 ns m" "o_e (g_M g1) = o_e (g_M g)"
      "o_idx (g_M g1) = o_idx (g_M g)" "g_heap g1 = g_heap g"
      "g_clock g1 = g_clock g" "g_tick g1 = g_tick g"
      "case p of None \<Rightarrow> m key = None | Some a \<Rightarrow> a \<in># ns \<and> e_key (ent g a) = key"
    by (rule lookup_key [OF assms])
  show ?thesis
  proof (cases p)
    case None
    then show ?thesis using that [of g1] L by (simp add: do_ttl_def)
  next
    case (Some a)
    then have a: "a \<in># ns" "e_key (ent g1 a) = key" using L(3,8) by (simp_all add: ent_def)
    note mk = stores_Some [OF L(2) a]
    note T = storesD(2) [OF L(2)]
    obtain i where i: "o_idx (g_M g1) a = Some i" using storesD(9) [OF L(2) a(1)] by auto
    show ?thesis
    proof (cases "i = - 1")
      case True
      then have "Some a \<notin> hi_ref ` set (g_heap g1)" using timers_index [OF T i] by simp
      then have "deadlines (g_heap g1) a = None" by (simp add: deadlines_None)
      then show ?thesis using that [of g1] L i True Some mk by (simp add: do_ttl_def load_Some)
    next
      case False
      then have x: "unat i < length (g_heap g1)" "hi_ref (g_heap g1 ! unat i) = Some a"
        using timers_index [OF T i] by simp_all
      then have d: "deadlines (g_heap g1) a = Some (hi_val (g_heap g1 ! unat i))"
        using deadlines_Some [OF timers_okD(4) [OF T]] by auto
      have "stores (g1\<lparr>g_tick := g_tick g1 + 1\<rparr>) ns m"
        by (rule stores_cong [OF L(2)]) (use storesD(1) [OF L(2)] in simp_all)
      then show ?thesis
        using that [of "g1\<lparr>g_tick := g_tick g1 + 1\<rparr>"] L i False Some mk d x(1)
        by (simp add: do_ttl_def load_Some get_monotonic_usec_def Let_def)
    qed
  qed
qed

section \<open>Removal of expired keys\<close>

text \<open>The first item of the heap is the entry of a key that the database has.\<close>

lemma first_key:
  assumes "stores g ns m" and "g_heap g = x # hs"
  obtains a v where "hi_ref x = Some a" and "a \<in># ns" and "o_idx (g_M g) a = Some 0"
    and "deadlines (g_heap g) a = Some (hi_val x)" and "m (e_key (ent g a)) = Some (v, Some (hi_val x))"
    and "\<forall>k v d. m k = Some (v, Some d) \<longrightarrow> hi_val x \<le> d"
proof -
  note S = storesD [OF assms(1)]
  note T = timers_okD [OF S(2)]
  obtain a where a: "hi_ref x = Some a" "o_idx (g_M g) a = Some 0"
    using T(2) assms(2) by (force simp: refs_ok_def)
  then have first: "heap_first (g_heap g, o_idx (g_M g)) = Some (a, hi_val x)" by (simp add: heap_first_def assms(2))
  note F = timers.first_Some [OF S(2) first, unfolded fst_conv]
  then have d: "deadlines (g_heap g) a = Some (hi_val x)" by simp
  then have in_ns: "a \<in># ns" using S(3) by blast
  have "\<forall>k v d. m k = Some (v, Some d) \<longrightarrow> hi_val x \<le> d"
  proof (intro allI impI)
    fix k v d assume that: "m k = Some (v, Some d)"
    then have "k \<in> (\<lambda>y. e_key (ent g y)) ` set_mset ns" unfolding S(6) [symmetric] by (rule domI)
    then obtain y where y: "y \<in># ns" "e_key (ent g y) = k" by auto
    have "deadlines (g_heap g) y = Some d"
      using stores_Some [OF assms(1) y] that by simp
    then show "hi_val x \<le> d" using F by blast
  qed
  moreover have "m (e_key (ent g a)) = Some (e_val (ent g a), Some (hi_val x))"
    using stores_Some [OF assms(1) in_ns refl] unfolding d .
  ultimately show ?thesis by (intro that [OF a(1) in_ns a(2) d])
qed

lemma expire_first:
  assumes "stores g ns m" and "g_heap g = x # hs"
  obtains g' ns' k v where "expire_one g = Inr g'" and "m k = Some (v, Some (hi_val x))"
    and "stores g' ns' (m(k := None))" and "g_clock g' = g_clock g" and "g_tick g' = g_tick g"
    and "length (g_heap g') = length hs"
proof -
  note S = storesD [OF assms(1)]
  obtain a v where a: "hi_ref x = Some a" "a \<in># ns" "o_idx (g_M g) a = Some 0"
      "m (e_key (ent g a)) = Some (v, Some (hi_val x))"
    by (rule first_key [OF assms])
  let ?k = "e_key (ent g a)" and ?M = "g_M g"
  obtain n where n: "h_nodes (o_h ?M) a = Some n" "h_code n = str_hash ?k"
    using map_holds_member(1) [OF S(1) a(2)] S(11) [OF a(2)] by (auto simp: map_alive_def code_at_def)
  have key: "heap_key ?M (Some a) = Inr ?k" using S(8) [OF a(2)] by (simp add: heap_key_def load_Some)
  then have "\<forall>y \<in># ns. entry_eq ?M (heap_key ?M (Some a)) y = Inr (e_key (ent g y) = ?k)"
    using S(8) by (simp add: entry_eq_def load_Some)
  then obtain h hm p where D: "hm_delete (o_h ?M) (g_db g) (str_hash ?k) (entry_eq ?M (heap_key ?M (Some a))) = Inr (h, hm, p)"
      "map_holds (h, hm) (ns - mset_set (set_option p))" "code_at h = code_at (o_h ?M)"
      "case p of None \<Rightarrow> m ?k = None | Some b \<Rightarrow> b \<in># ns \<and> e_key (ent g b) = ?k"
    by (rule delete_key [OF assms(1)])
  then have p: "p = Some a" using a(2,4) S(5) by (auto simp: inj_on_def split: option.splits)
  then have hold: "map_holds (h, hm) (ns - {#a#})" using D(2) by simp
  have "0 < length (g_heap g)" "hi_ref (g_heap g ! 0) = Some a" using a(1) assms(2) by simp_all
  note R = ttl_remove [OF S(2) this]
  then obtain hp idx idx1 where H: "heap_remove (g_heap g) 0 (o_idx ?M) = Inr (hp, idx)"
      "update idx (Some a) (\<lambda>_. - 1) = Inr idx1" "timers_ok (hp, idx1)"
      "deadlines hp = (deadlines (g_heap g))(a := None)" "\<forall>r. (idx1 r = None) = (o_idx ?M r = None)"
    by (auto simp: ttl_done_def bindr_eq_Inr)
  have none: "deadlines hp a = None" unfolding H(4) by simp
  obtain g' where G: "entry_del (g\<lparr>g_M := ?M\<lparr>o_h := h, o_idx := idx1\<rparr>, g_db := hm, g_heap := hp\<rparr>) a = Inr g'"
      "stores g' (ns - {#a#}) (m(?k := None))" "g_clock g' = g_clock g" "g_tick g' = g_tick g" "g_heap g' = hp"
    by (rule stores_remove [OF assms(1) a(2) none hold D(3) H(4,3,5) refl])
  have run: "expire_one g = Inr g'"
    using n D(1) p a(1,3) H(1,2) G(1) by (simp add: expire_one_def assms(2) load_Some Let_def)
  have "dom (deadlines hp) = dom (deadlines (g_heap g)) - {a}" unfolding H(4) by auto
  moreover have "a \<in> dom (deadlines (g_heap g))"
    using stores_Some [OF assms(1) a(2) refl] a(4) by (metis domIff option.inject option.simps(3) prod.inject)
  ultimately have "length hp = length hs"
    using card_deadlines(1) [OF timers_okD(2) [OF H(3)]] card_deadlines [OF timers_okD(2) [OF S(2)]]
    by (simp add: assms(2) card_Diff_singleton)
  then show ?thesis using that [OF run a(4) G(2-4)] G(5) by simp
qed

text \<open>The keys that are left when the time is \<open>now\<close>.\<close>

definition unexpired :: "u64 \<Rightarrow> kmap \<Rightarrow> kmap" where
  "unexpired now m k = (case m k of Some (v, Some d) \<Rightarrow> if d < now then None else m k | _ \<Rightarrow> m k)"

lemma expire_all:
  assumes "stores g ns m" and "nworks + length (g_heap g) \<le> k_max_works"
  shows "\<exists>g' ns'. expire_loop nworks now g = Inr g' \<and> stores g' ns' (unexpired now m) \<and>
    g_clock g' = g_clock g \<and> g_tick g' = g_tick g"
  using assms
proof (induction "length (g_heap g)" arbitrary: g ns m nworks)
  case 0
  then have "deadlines (g_heap g) = Map.empty" by (auto simp: deadlines_None)
  then have "unexpired now m k = m k" for k
    using storesD(6,7) [OF 0(2)] stores_None [OF 0(2), of k]
    by (fastforce simp: unexpired_def split: option.splits)
  then have "unexpired now m = m" by blast
  moreover have "expire_loop nworks now g = Inr g" using 0(1) by (subst expire_loop.simps) simp
  ultimately show ?case using 0(2) by auto
next
  case (Suc n)
  obtain x hs where h: "g_heap g = x # hs" using Suc.hyps(2) by (cases "g_heap g") auto
  show ?case
  proof (cases "hi_val x < now")
    case False
    have least: "\<forall>k v d. m k = Some (v, Some d) \<longrightarrow> hi_val x \<le> d"
      by (rule first_key [OF Suc.prems(1) h])
    have "\<not> d < now" if "m k = Some (v, Some d)" for k v d
    proof -
      have "hi_val x \<le> d" using least that by blast
      then show ?thesis using False by simp
    qed
    then have "unexpired now m = m"
      by (auto simp: unexpired_def fun_eq_iff split: option.splits)
    moreover have "expire_loop nworks now g = Inr g" using False h by (subst expire_loop.simps) simp
    ultimately show ?thesis using Suc.prems(1) by auto
  next
    case True
    obtain g1 ns1 k v where F: "expire_one g = Inr g1" "m k = Some (v, Some (hi_val x))"
        "stores g1 ns1 (m(k := None))" "g_clock g1 = g_clock g" "g_tick g1 = g_tick g"
        "length (g_heap g1) = length hs"
      by (rule expire_first [OF Suc.prems(1) h])
    have len: "n = length (g_heap g1)" "nworks + 1 + length (g_heap g1) \<le> k_max_works"
      using Suc.hyps(2) Suc.prems(2) h F(6) by simp_all
    obtain g' ns' where G: "expire_loop (nworks + 1) now g1 = Inr g'"
        "stores g' ns' (unexpired now (m(k := None)))" "g_clock g' = g_clock g1" "g_tick g' = g_tick g1"
      using Suc.hyps(1) [OF len(1) F(3) len(2)] by blast
    have "unexpired now (m(k := None)) = unexpired now m"
      using F(2) True by (auto simp: unexpired_def fun_eq_iff split: option.splits)
    moreover have "expire_loop nworks now g = Inr g'"
      using G(1) F(1) True h len(2) by (subst expire_loop.simps) simp
    ultimately show ?thesis using G(2-4) F(4,5) by auto
  qed
qed

lemma expire_within:
  assumes "stores g ns m" and "get_monotonic_usec g = (now_us, g1)"
  obtains g' ns' where "expire_loop 0 now_us g1 = Inr g'" and "stores g' ns' (unexpired now_us m)"
    and "g_clock g' = g_clock g" and "g_tick g' = g_tick g + 1"
proof -
  have g1: "g1 = g\<lparr>g_tick := g_tick g + 1\<rparr>" using assms(2) by (auto simp: get_monotonic_usec_def)
  have st: "stores g1 ns m" unfolding g1 by (rule stores_cong [OF assms(1)]) (use storesD(1) [OF assms(1)] in simp_all)
  note S = storesD [OF st]
  have "card (dom (deadlines (g_heap g1))) \<le> card (set_mset ns)" by (rule card_mono [OF _ S(3)]) simp
  also have "\<dots> \<le> k_resizing_work"
    using S(4) arg_cong [OF map_holds_member(2) [OF S(1)], of size] by simp
  finally have "0 + length (g_heap g1) \<le> k_max_works"
    using card_deadlines(1) [OF timers_okD(2) [OF S(2)]] by (simp add: k_resizing_work_def k_max_works_def)
  then show ?thesis using expire_all [OF st] that unfolding g1 by force
qed

section \<open>A history of keys that expire\<close>

text \<open>The commands on keys, and the removal of expired keys that \<open>process_timers\<close> ends with.\<close>

datatype kevent = KSet bytes bytes | KGet bytes | KDel bytes | KKeys | KExpire bytes bytes | KTtl bytes | KTimers

fun kwords :: "kevent \<Rightarrow> bytes list" where
  "kwords (KSet k v) = [lit ''set'', k, v]"
| "kwords (KGet k) = [lit ''get'', k]"
| "kwords (KDel k) = [lit ''del'', k]"
| "kwords KKeys = [lit ''keys'']"
| "kwords (KExpire k arg) = [lit ''expire'', k, arg]"
| "kwords (KTtl k) = [lit ''ttl'', k]"
| "kwords KTimers = []"

text \<open>
  The specification: a finite map that knows how often the clock has been read.  \<open>knext\<close> is the next map;
  \<open>kanswer\<close> says which code and reply a command may get.
\<close>

type_synonym kstate = "nat \<times> kmap"

definition kexpire :: "u64 \<Rightarrow> bytes \<Rightarrow> u64 \<Rightarrow> kmap \<Rightarrow> kmap" where
  "kexpire now k ttl m = (case m k of None \<Rightarrow> m
     | Some (v, d) \<Rightarrow> m(k \<mapsto> (v, if sint ttl < 0 then None else Some (now + ttl * 1000))))"

fun knext :: "(nat \<Rightarrow> u64) \<Rightarrow> kevent \<Rightarrow> kstate \<Rightarrow> kstate" where
  "knext clock (KSet k v) (n, m) = (n, m(k \<mapsto> (v, None)))"
| "knext clock (KGet k) (n, m) = (n, m)"
| "knext clock (KDel k) (n, m) = (n, m(k := None))"
| "knext clock KKeys (n, m) = (n, m)"
| "knext clock (KExpire k arg) (n, m) = (case str2int arg of None \<Rightarrow> (n, m)
     | Some ttl \<Rightarrow> (if m k = None \<or> sint ttl < 0 then n else n + 1, kexpire (clock n) k ttl m))"
| "knext clock (KTtl k) (n, m) = (case m k of Some (v, Some d) \<Rightarrow> n + 1 | _ \<Rightarrow> n, m)"
| "knext clock KTimers (n, m) = (n + 1, unexpired (clock n) m)"

fun kanswer :: "u64 \<Rightarrow> kmap \<Rightarrow> kevent \<Rightarrow> u32 \<times> reply \<Rightarrow> bool" where
  "kanswer now m (KSet k v) r = (r = (RES_OK, RInt 0))"
| "kanswer now m (KGet k) r = (r = (case m k of None \<Rightarrow> (RES_NX, RInt 2) | Some (v, d) \<Rightarrow> (RES_OK, RStr v)))"
| "kanswer now m (KDel k) r = (r = (RES_OK, RInt (if m k = None then 0 else 1)))"
| "kanswer now m KKeys r = (\<exists>ks. r = (RES_OK, RArr (map RStr ks)) \<and> distinct ks \<and> set ks = dom m)"
| "kanswer now m (KExpire k arg) r = (r = (if str2int arg = None then (RES_ERR, RErr RES_ERR (lit ''expect int64''))
     else (RES_OK, RInt (if m k = None then 0 else 1))))"
| "kanswer now m (KTtl k) r = (r = (RES_OK, RInt (case m k of None \<Rightarrow> - 2 | Some (v, None) \<Rightarrow> - 1
     | Some (v, Some d) \<Rightarrow> if d > now then (d - now) div 1000 else 0)))"
| "kanswer now m KTimers r = True"

text \<open>
  What the client has to respect: \<open>SET\<close> only for a key that is not there, while there are fewer than 128
  keys, with a value that fits a message; \<open>DEL\<close> only for a key without a deadline.
\<close>

fun kallowed :: "kmap \<Rightarrow> kevent \<Rightarrow> bool" where
  "kallowed m (KSet k v) = (m k = None \<and> card (dom m) < k_resizing_work \<and> length v \<le> k_max_msg)"
| "kallowed m (KDel k) = (case m k of Some (v, Some d) \<Rightarrow> False | _ \<Rightarrow> True)"
| "kallowed m e = True"

fun kallowed_all :: "(nat \<Rightarrow> u64) \<Rightarrow> kstate \<Rightarrow> kevent list \<Rightarrow> bool" where
  "kallowed_all clock s [] = True"
| "kallowed_all clock s (e # es) = (kallowed (snd s) e \<and> kallowed_all clock (knext clock e s) es)"

inductive kanswers :: "(nat \<Rightarrow> u64) \<Rightarrow> kstate \<Rightarrow> kevent list \<Rightarrow> (u32 \<times> bytes) list \<Rightarrow> bool" where
  finish: "kanswers clock s [] []"
| command: "e \<noteq> KTimers \<Longrightarrow> kanswer (clock (fst s)) (snd s) e (r, rep) \<Longrightarrow> kanswers clock (knext clock e s) es rs \<Longrightarrow>
    kanswers clock s (e # es) ((r, enc_reply rep) # rs)"
| timers: "kanswers clock (knext clock KTimers s) es rs \<Longrightarrow> kanswers clock s (KTimers # es) rs"

text \<open>The server on such a history.\<close>

definition expire_keys :: "gdata \<Rightarrow> gdata res" where
  "expire_keys g = (let (now_us, g1) = get_monotonic_usec g in expire_loop 0 now_us g1)"

fun kserve :: "gdata \<Rightarrow> kevent list \<Rightarrow> (gdata \<times> (u32 \<times> bytes) list) res" where
  "kserve g [] = Inr (g, [])"
| "kserve g (e # es) =
     (if e = KTimers then bindr (expire_keys g) (\<lambda>g1. kserve g1 es)
      else bindr (do_request g (kwords e) []) (\<lambda>(g1, r, out).
        bindr (kserve g1 es) (\<lambda>(g2, rs). Inr (g2, (r, out) # rs))))"

lemma lits_differ:
  "lit ''set'' \<noteq> lit ''del''" "lit ''del'' \<noteq> lit ''set''" "lit ''del'' \<noteq> lit ''keys''" "lit ''del'' \<noteq> lit ''get''"
  "lit ''expire'' \<noteq> lit ''zadd''" "lit ''expire'' \<noteq> lit ''zscore''" "lit ''expire'' \<noteq> lit ''zrem''"
  "lit ''expire'' \<noteq> lit ''zquery''" "lit ''expire'' \<noteq> lit ''set''"
  "lit ''ttl'' \<noteq> lit ''zadd''" "lit ''ttl'' \<noteq> lit ''zscore''" "lit ''ttl'' \<noteq> lit ''zrem''" "lit ''ttl'' \<noteq> lit ''zquery''"
  "lit ''ttl'' \<noteq> lit ''get''" "lit ''ttl'' \<noteq> lit ''del''"
  by code_simp+

lemmas dispatch = do_request_def lit_differ lits_differ

text \<open>The state of the server that stands for a state of the specification.\<close>

definition kstate_of :: "(nat \<Rightarrow> u64) \<Rightarrow> gdata \<Rightarrow> kstate \<Rightarrow> bool" where
  "kstate_of clock g s \<longleftrightarrow> g_clock g = clock \<and> g_tick g = fst s \<and> (\<exists>ns. stores g ns (snd s)) \<and>
     (\<forall>k v d. snd s k = Some (v, d) \<longrightarrow> length v \<le> k_max_msg)"

lemma kstate_init: "kstate_of clock (g_init clock) (0, Map.empty)"
proof -
  have "map_holds (o_h (g_M (g_init clock)), g_db (g_init clock)) {#}"
    using empty_map_ok by (auto simp: map_holds_def g_init_def intro!: exI [of _ "[]"])
  then have "stores (g_init clock) {#} Map.empty"
    by (simp add: stores_def ttl_ok_def g_init_def timers_ok_def heap_ok_def refs_ok_def deadlines_def fun_eq_iff)
  then show ?thesis by (auto simp: kstate_of_def g_init_def)
qed

lemma kstate_ofI:
  "stores g ns m \<Longrightarrow> g_clock g = clock \<Longrightarrow> g_tick g = n \<Longrightarrow> \<forall>k v d. m k = Some (v, d) \<longrightarrow> length v \<le> k_max_msg \<Longrightarrow>
    kstate_of clock g (n, m)"
  by (auto simp: kstate_of_def)

text \<open>One command answers as the specification says and leads to the state it says.\<close>

definition kserved :: "(nat \<Rightarrow> u64) \<Rightarrow> kstate \<Rightarrow> kevent \<Rightarrow> cmd_res \<Rightarrow> bool" where
  "kserved clock s e res \<longleftrightarrow> (\<exists>g' r rep. res = Inr (g', r, enc_reply rep) \<and>
     kanswer (clock (fst s)) (snd s) e (r, rep) \<and> kstate_of clock g' (knext clock e s))"

lemma kservedI:
  "res = Inr (g', r, enc_reply rep) \<Longrightarrow> kanswer (clock (fst s)) (snd s) e (r, rep) \<Longrightarrow>
    kstate_of clock g' (knext clock e s) \<Longrightarrow> kserved clock s e res"
  by (auto simp: kserved_def)

lemma kserved_set:
  assumes "kstate_of clock g (n, m)" and "kallowed m (KSet k v)"
  shows "kserved clock (n, m) (KSet k v) (do_request g (kwords (KSet k v)) [])"
proof -
  obtain ns where K: "g_clock g = clock" "g_tick g = n" "stores g ns m"
      "\<forall>k v d. m k = Some (v, d) \<longrightarrow> length v \<le> k_max_msg"
    using assms(1) by (auto simp: kstate_of_def)
  have room: "m k = None" "size ns < k_resizing_work" using assms(2) stores_size(1) [OF K(3)] by simp_all
  obtain g' a where R: "do_set g [lit ''set'', k, v] [] = Inr (g', RES_OK, out_int [] 0)"
      "stores g' (add_mset a ns) (m(k \<mapsto> (v, None)))" "g_clock g' = g_clock g" "g_tick g' = g_tick g"
    by (rule set_key [OF K(3) room])
  have "do_request g (kwords (KSet k v)) [] = Inr (g', RES_OK, enc_reply (RInt 0))"
    using R(1) by (simp add: dispatch)
  moreover have "kstate_of clock g' (n, m(k \<mapsto> (v, None)))"
    by (rule kstate_ofI [OF R(2)]) (use R(3,4) K(1,2,4) assms(2) in auto)
  ultimately show ?thesis by (intro kservedI) simp_all
qed

lemma kserved_get:
  assumes "kstate_of clock g (n, m)"
  shows "kserved clock (n, m) (KGet k) (do_request g (kwords (KGet k)) [])"
proof -
  obtain ns where K: "g_clock g = clock" "g_tick g = n" "stores g ns m"
      "\<forall>k v d. m k = Some (v, d) \<longrightarrow> length v \<le> k_max_msg"
    using assms by (auto simp: kstate_of_def)
  have short: "\<forall>v d. m k = Some (v, d) \<longrightarrow> length v \<le> k_max_msg" using K(4) by blast
  obtain g' where R: "do_get g [lit ''get'', k] [] = (case m k of
        None \<Rightarrow> Inr (g', RES_NX, out_int [] (ucast RES_NX)) | Some (v, d) \<Rightarrow> Inr (g', RES_OK, out_str [] v))"
      "stores g' ns m" "g_clock g' = g_clock g" "g_tick g' = g_tick g"
    by (rule get_key [OF K(3) short])
  have nxt: "kstate_of clock g' (n, m)" by (rule kstate_ofI [OF R(2)]) (use R(3,4) K(1,2,4) in auto)
  have run: "do_request g (kwords (KGet k)) [] = do_get g [lit ''get'', k] []" by (simp add: dispatch)
  show ?thesis
  proof (cases "m k")
    case None
    then show ?thesis
      using nxt run R(1) by (intro kservedI [of _ g' RES_NX "RInt 2"]) (simp_all add: RES_NX_def)
  next
    case (Some x)
    then obtain v d where "m k = Some (v, d)" by (cases x) auto
    then show ?thesis using nxt run R(1) by (intro kservedI [of _ g' RES_OK "RStr v"]) simp_all
  qed
qed

lemma kserved_del:
  assumes "kstate_of clock g (n, m)" and "kallowed m (KDel k)"
  shows "kserved clock (n, m) (KDel k) (do_request g (kwords (KDel k)) [])"
proof -
  obtain ns where K: "g_clock g = clock" "g_tick g = n" "stores g ns m"
      "\<forall>k v d. m k = Some (v, d) \<longrightarrow> length v \<le> k_max_msg"
    using assms(1) by (auto simp: kstate_of_def)
  have "\<forall>v d. m k = Some (v, d) \<longrightarrow> d = None" using assms(2) by (auto split: option.splits)
  then obtain g' ns' where R: "do_del g [lit ''del'', k] [] = Inr (g', RES_OK, out_int [] (if m k = None then 0 else 1))"
      "stores g' ns' (m(k := None))" "g_clock g' = g_clock g" "g_tick g' = g_tick g"
    by (rule del_key [OF K(3)])
  have "do_request g (kwords (KDel k)) [] = Inr (g', RES_OK, enc_reply (RInt (if m k = None then 0 else 1)))"
    using R(1) by (simp add: dispatch)
  moreover have "kstate_of clock g' (n, m(k := None))"
    by (rule kstate_ofI [OF R(2)]) (use R(3,4) K(1,2,4) in auto)
  ultimately show ?thesis by (intro kservedI) simp_all
qed

lemma kserved_keys:
  assumes "kstate_of clock g (n, m)"
  shows "kserved clock (n, m) KKeys (do_request g (kwords KKeys) [])"
proof -
  obtain ns where K: "stores g ns m" using assms by (auto simp: kstate_of_def)
  obtain ks where R: "do_keys g [lit ''keys''] [] = Inr (g, RES_OK, put_reply [] (RArr (map RStr ks)))"
      "distinct ks" "set ks = dom m"
    by (rule all_keys [OF K])
  have "do_request g (kwords KKeys) [] = Inr (g, RES_OK, enc_reply (RArr (map RStr ks)))"
    using R(1) by (simp add: dispatch del: put_reply.simps)
  then show ?thesis by (rule kservedI) (use R(2,3) assms in auto)
qed

lemma kserved_expire:
  assumes "kstate_of clock g (n, m)"
  shows "kserved clock (n, m) (KExpire k arg) (do_request g (kwords (KExpire k arg)) [])"
proof -
  obtain ns where K: "g_clock g = clock" "g_tick g = n" "stores g ns m"
      "\<forall>k v d. m k = Some (v, d) \<longrightarrow> length v \<le> k_max_msg"
    using assms by (auto simp: kstate_of_def)
  have run: "do_request g (kwords (KExpire k arg)) [] = do_expire g [lit ''expire'', k, arg] []" by (simp add: dispatch)
  show ?thesis
  proof (cases "str2int arg")
    case None
    then have "do_request g (kwords (KExpire k arg)) [] = Inr (g, RES_ERR, enc_reply (RErr RES_ERR (lit ''expect int64'')))"
      unfolding run by (simp add: do_expire_def)
    then show ?thesis by (rule kservedI) (use None assms in simp_all)
  next
    case (Some ttl)
    obtain g' where R: "do_expire g [lit ''expire'', k, arg] [] = Inr (g', RES_OK, out_int [] (if m k = None then 0 else 1))"
        "g_clock g' = g_clock g"
        "case m k of None \<Rightarrow> stores g' ns m \<and> g_tick g' = g_tick g
          | Some (v, d) \<Rightarrow>
              if sint ttl < 0 then stores g' ns (m(k \<mapsto> (v, None))) \<and> g_tick g' = g_tick g
              else stores g' ns (m(k \<mapsto> (v, Some (g_clock g (g_tick g) + ttl * 1000)))) \<and> g_tick g' = g_tick g + 1"
      by (rule expire_key [OF K(3) Some])
    have S: "stores g' ns (kexpire (clock n) k ttl m)" "g_tick g' = (if m k = None \<or> sint ttl < 0 then n else n + 1)"
      using R(3) K(1,2) by (auto simp: kexpire_def split: option.splits if_splits)
    have "kstate_of clock g' (if m k = None \<or> sint ttl < 0 then n else n + 1, kexpire (clock n) k ttl m)"
      by (rule kstate_ofI [OF S(1) _ S(2)])
        (use R(2) K(1,4) in \<open>auto simp: kexpire_def split: option.splits if_splits\<close>)
    then show ?thesis
      using run R(1) Some
      by (intro kservedI [of _ g' RES_OK "RInt (if m k = None then 0 else 1)"]) simp_all
  qed
qed

lemma kserved_ttl:
  assumes "kstate_of clock g (n, m)"
  shows "kserved clock (n, m) (KTtl k) (do_request g (kwords (KTtl k)) [])"
proof -
  obtain ns where K: "g_clock g = clock" "g_tick g = n" "stores g ns m"
      "\<forall>k v d. m k = Some (v, d) \<longrightarrow> length v \<le> k_max_msg"
    using assms by (auto simp: kstate_of_def)
  obtain g' where R: "do_ttl g [lit ''ttl'', k] [] = Inr (g', RES_OK, out_int [] (case m k of
        None \<Rightarrow> - 2 | Some (v, None) \<Rightarrow> - 1
      | Some (v, Some d) \<Rightarrow> (let now = g_clock g (g_tick g) in if d > now then (d - now) div 1000 else 0)))"
      "stores g' ns m" "g_clock g' = g_clock g"
      "g_tick g' = (case m k of Some (v, Some d) \<Rightarrow> g_tick g + 1 | _ \<Rightarrow> g_tick g)"
    by (rule ttl_key [OF K(3)])
  have "kstate_of clock g' (case m k of Some (v, Some d) \<Rightarrow> n + 1 | _ \<Rightarrow> n, m)"
    by (rule kstate_ofI [OF R(2)]) (use R(3,4) K(1,2,4) in \<open>auto split: option.splits\<close>)
  then show ?thesis
    using R(1) unfolding Let_def K(1,2)
    by (intro kservedI [of _ g' RES_OK "RInt (case m k of None \<Rightarrow> - 2 | Some (v, None) \<Rightarrow> - 1
          | Some (v, Some d) \<Rightarrow> if d > clock n then (d - clock n) div 1000 else 0)"]) (simp_all add: dispatch)
qed

lemma kevent_served:
  assumes "kstate_of clock g s" and "kallowed (snd s) e" and "e \<noteq> KTimers"
  shows "kserved clock s e (do_request g (kwords e) [])"
proof -
  obtain n m where s: "s = (n, m)" by (cases s)
  show ?thesis
    using assms unfolding s
    by (cases e) (simp_all only: snd_conv kserved_set kserved_get kserved_del kserved_keys kserved_expire kserved_ttl
        simp_thms)
qed

lemma timers_served:
  assumes "kstate_of clock g s"
  obtains g' where "expire_keys g = Inr g'" and "kstate_of clock g' (knext clock KTimers s)"
proof -
  obtain n m where s: "s = (n, m)" by (cases s)
  obtain ns where K: "g_clock g = clock" "g_tick g = n" "stores g ns m"
      "\<forall>k v d. m k = Some (v, d) \<longrightarrow> length v \<le> k_max_msg"
    using assms s by (auto simp: kstate_of_def)
  let ?g = "g\<lparr>g_tick := g_tick g + 1\<rparr>"
  have now: "get_monotonic_usec g = (clock n, ?g)" using K(1,2) by (simp add: get_monotonic_usec_def)
  obtain g' ns' where E: "expire_loop 0 (clock n) ?g = Inr g'" "stores g' ns' (unexpired (clock n) m)"
      "g_clock g' = g_clock g" "g_tick g' = g_tick g + 1"
    by (rule expire_within [OF K(3) now])
  have "\<forall>k v d. unexpired (clock n) m k = Some (v, d) \<longrightarrow> length v \<le> k_max_msg"
    using K(4) by (auto simp: unexpired_def split: option.splits if_splits)
  then have "kstate_of clock g' (n + 1, unexpired (clock n) m)"
    using E(3,4) K(1,2) by (intro kstate_ofI [OF E(2)]) simp_all
  moreover have "expire_keys g = Inr g'" using E(1) now by (simp add: expire_keys_def)
  ultimately show ?thesis using that s by simp
qed

lemma kserve_from:
  assumes "kstate_of clock g s" and "kallowed_all clock s es"
  shows "\<exists>g' rs. kserve g es = Inr (g', rs) \<and> kanswers clock s es rs \<and>
    kstate_of clock g' (foldl (\<lambda>s e. knext clock e s) s es)"
  using assms
proof (induction es arbitrary: g s)
  case Nil
  then show ?case by (simp add: kanswers.finish)
next
  case (Cons e es)
  show ?case
  proof (cases "e = KTimers")
    case True
    obtain g1 where "expire_keys g = Inr g1" "kstate_of clock g1 (knext clock KTimers s)"
      by (rule timers_served [OF Cons.prems(1)])
    then show ?thesis using Cons.IH [of g1 "knext clock KTimers s"] Cons.prems(2) True kanswers.timers by fastforce
  next
    case False
    have "kserved clock s e (do_request g (kwords e) [])"
      by (rule kevent_served [OF Cons.prems(1) _ False]) (use Cons.prems(2) in simp)
    then obtain g1 r rep where S: "do_request g (kwords e) [] = Inr (g1, r, enc_reply rep)"
        "kanswer (clock (fst s)) (snd s) e (r, rep)" "kstate_of clock g1 (knext clock e s)"
      by (auto simp: kserved_def)
    obtain g' rs where "kserve g1 es = Inr (g', rs)" "kanswers clock (knext clock e s) es rs"
        "kstate_of clock g' (foldl (\<lambda>s e. knext clock e s) (knext clock e s) es)"
      using Cons.IH [OF S(3)] Cons.prems(2) by auto
    then show ?thesis using S(1) False kanswers.command [of e clock s r rep es rs] S(2) by auto
  qed
qed

text \<open>
  C2.  Keys that expire: the server, started afresh, refines a finite map from keys to values with optional
  deadlines.  On every history of \<open>SET\<close>, \<open>GET\<close>, \<open>DEL\<close>, \<open>KEYS\<close>, \<open>EXPIRE\<close> and \<open>TTL\<close> and of the timers of
  the event loop, under every clock, no command fails, every reply is the one of the map (\<open>TTL\<close> the time
  left in ms, \<open>KEYS\<close> every key once), and the timers remove exactly the keys whose deadline has passed.
  Clients must set only new keys, at most 128 at a time, and delete only keys without a deadline.
\<close>

theorem expiring_keys_refine_map:
  assumes "kallowed_all clock (0, Map.empty) es"
  shows "\<exists>g rs. kserve (g_init clock) es = Inr (g, rs) \<and> kanswers clock (0, Map.empty) es rs"
  using kserve_from [OF kstate_init assms] by blast

theorem expiring_keys_refine_map_witness:
  "\<exists>g rs. kserve (g_init (\<lambda>n. of_nat n * 1000000))
       [KSet [97] [1], KSet [98] [2], KExpire [97] (lit ''1500''), KTimers, KTtl [97], KTimers, KDel [98], KKeys] = Inr (g, rs) \<and>
     kanswers (\<lambda>n. of_nat n * 1000000) (0, Map.empty)
       [KSet [97] [1], KSet [98] [2], KExpire [97] (lit ''1500''), KTimers, KTtl [97], KTimers, KDel [98], KKeys] rs"
proof (rule expiring_keys_refine_map)
  have "str2int (lit ''1500'') = Some 1500" by code_simp
  then show "kallowed_all (\<lambda>n. of_nat n * 1000000) (0, Map.empty)
      [KSet [97] [1], KSet [98] [2], KExpire [97] (lit ''1500''), KTimers, KTtl [97], KTimers, KDel [98], KKeys]"
    by (simp add: k_resizing_work_def k_max_msg_def kexpire_def unexpired_def)
qed

section \<open>The timers of the event loop\<close>

text \<open>
  C9.  \<open>process_timers\<close>: when the database holds at most 128 strings, each under one key, one call closes
  exactly the connections that have been idle for five seconds, the longest idle first, and removes exactly the keys
  whose deadline is in the past, from the hash table and from the heap; what is left is the idle list of the other
  connections and the map of the other keys.
\<close>

theorem timers_processed:
  assumes "conns_ok sv xs" and "sorted (map (\<lambda>a. c_idle_start (conn_of sv a)) xs)"
    and "\<forall>a \<in> set xs. unat (c_idle_start (conn_of sv a)) + 5000000 < 2 ^ 64"
    and "stores (sv_g sv) ns m" and "now_us = g_clock (sv_g sv) (g_tick (sv_g sv))"
  shows "\<exists>sv' ns'. process_timers sv = Inr sv' \<and>
    sv_closed sv' = sv_closed sv @ map (\<lambda>a. c_fd (conn_of sv a)) (filter (\<lambda>a. expired now_us (conn_of sv a)) xs) \<and>
    conns_ok sv' (filter (\<lambda>a. \<not> expired now_us (conn_of sv a)) xs) \<and>
    (\<forall>a \<in> set xs. sv_conns sv' a = (if expired now_us (conn_of sv a) then None else sv_conns sv a)) \<and>
    stores (sv_g sv') ns' (unexpired now_us m)"
proof -
  let ?g = "(sv_g sv)\<lparr>g_tick := g_tick (sv_g sv) + 1\<rparr>"
  have now: "get_monotonic_usec (sv_g sv) = (now_us, ?g)" by (simp add: get_monotonic_usec_def assms(5))
  obtain sv1 where I: "process_timers sv = bindr (expire_loop 0 now_us ?g) (\<lambda>g1. Inr (sv1\<lparr>sv_g := g1\<rparr>))"
      "sv_closed sv1 = sv_closed sv @ map (\<lambda>a. c_fd (conn_of sv a)) (filter (\<lambda>a. expired now_us (conn_of sv a)) xs)"
      "conns_ok sv1 (filter (\<lambda>a. \<not> expired now_us (conn_of sv a)) xs)"
      "\<forall>a \<in> set xs. sv_conns sv1 a = (if expired now_us (conn_of sv a) then None else sv_conns sv a)"
    by (rule process_timers_idle [OF assms(1-3) now])
  obtain g' ns' where E: "expire_loop 0 now_us ?g = Inr g'" "stores g' ns' (unexpired now_us m)"
    by (rule expire_within [OF assms(4) now])
  show ?thesis
    by (intro exI [of _ "sv1\<lparr>sv_g := g'\<rparr>"] exI [of _ ns']) (use I E in \<open>simp add: conns_ok_sv_g\<close>)
qed

text \<open>The two connections of above, and two keys, one of which is due.\<close>

definition demo_due :: server where
  "demo_due =
     (case kserve (g_init (\<lambda>n. of_nat n * 6000000)) [KSet [97] [1], KSet [98] [2], KExpire [97] (lit ''2000'')] of
        Inr (g, _) \<Rightarrow> demo_idle\<lparr>sv_g := g\<rparr> | Inl _ \<Rightarrow> demo_idle)"

lemma demo_due_ok:
  obtains ns where "stores (sv_g demo_due) ns [[97] \<mapsto> ([1], Some 2000000), [98] \<mapsto> ([2], None)]"
    and "demo_due = demo_idle\<lparr>sv_g := sv_g demo_due\<rparr>" and "g_clock (sv_g demo_due) = (\<lambda>n. of_nat n * 6000000)"
    and "g_tick (sv_g demo_due) = 1"
proof -
  let ?clock = "\<lambda>n. of_nat n * 6000000 :: u64"
  let ?es = "[KSet [97] [1], KSet [98] [2], KExpire [97] (lit ''2000'')]"
  have arg: "str2int (lit ''2000'') = Some 2000" by code_simp
  obtain g rs where R: "kserve (g_init ?clock) ?es = Inr (g, rs)"
      "kstate_of ?clock g (foldl (\<lambda>s e. knext ?clock e s) (0, Map.empty) ?es)"
    using kserve_from [OF kstate_init [of ?clock], of ?es] by (auto simp: arg k_resizing_work_def k_max_msg_def)
  have "kexpire 0 [97] 2000 [[97] \<mapsto> ([1], None), [98] \<mapsto> ([2], None)]
      = [[97] \<mapsto> ([1], Some 2000000), [98] \<mapsto> ([2 :: u8], None)]"
    by (simp add: kexpire_def fun_eq_iff)
  then have "kstate_of ?clock g (1, [[97] \<mapsto> ([1], Some 2000000), [98] \<mapsto> ([2], None)])"
    using R(2) by (simp add: arg)
  moreover have due: "demo_due = demo_idle\<lparr>sv_g := g\<rparr>" unfolding demo_due_def R(1) by simp
  moreover have "sv_g demo_due = g" unfolding due by simp
  ultimately show ?thesis using that by (auto simp: kstate_of_def)
qed

theorem timers_processed_witness:
  "\<exists>sv' ns'. process_timers demo_due = Inr sv' \<and> sv_closed sv' = [0] \<and> conns_ok sv' [8] \<and>
     stores (sv_g sv') ns' [[98] \<mapsto> ([2], None)]"
proof -
  obtain ns where D: "stores (sv_g demo_due) ns [[97] \<mapsto> ([1], Some 2000000), [98] \<mapsto> ([2], None)]"
      "demo_due = demo_idle\<lparr>sv_g := sv_g demo_due\<rparr>" "g_clock (sv_g demo_due) = (\<lambda>n. of_nat n * 6000000)"
      "g_tick (sv_g demo_due) = 1"
    by (rule demo_due_ok)
  have conns: "sv_conns demo_due = sv_conns demo_idle" "sv_closed demo_due = []"
    by (subst D(2), simp add: demo_idle_def)+
  have ok: "conns_ok demo_due [7, 8]" by (subst D(2)) (simp add: conns_ok_sv_g demo_idle_ok)
  have sorted: "sorted (map (\<lambda>a. c_idle_start (conn_of demo_due a)) [7, 8])"
    and bound: "\<forall>a \<in> set [7, 8]. unat (c_idle_start (conn_of demo_due a)) + 5000000 < 2 ^ 64"
    and gone: "filter (\<lambda>a. expired 6000000 (conn_of demo_due a)) [7, 8] = [7]"
      "filter (\<lambda>a. \<not> expired 6000000 (conn_of demo_due a)) [7, 8] = [8]" "c_fd (conn_of demo_due 7) = 0"
    by (simp_all add: conn_of_def conns demo_idle_def expired_def k_idle_timeout_ms_def word_le_nat_alt)
  have left: "unexpired 6000000 [[97] \<mapsto> ([1], Some 2000000), [98] \<mapsto> ([2], None)] = [[98] \<mapsto> ([2 :: u8], None)]"
    by (simp add: unexpired_def fun_eq_iff)
  show ?thesis
    using timers_processed [OF ok sorted bound D(1), of 6000000]
    unfolding gone left by (auto simp: D(3,4) conns gone)
qed

section \<open>Why clients are restricted\<close>

lemma kserve_append:
  "kserve g (es @ fs) = bindr (kserve g es) (\<lambda>(g1, rs). bindr (kserve g1 fs) (\<lambda>(g2, rs'). Inr (g2, rs @ rs')))"
proof (induction es arbitrary: g)
  case Nil
  then show ?case by (cases "kserve g fs") auto
next
  case (Cons e es)
  show ?case
  proof (cases "e = KTimers")
    case True
    then show ?thesis by (cases "expire_keys g") (simp_all add: Cons)
  next
    case False
    show ?thesis
    proof (cases "do_request g (kwords e) []")
      case (Inr x)
      obtain g1 r out where x: "x = (g1, r, out)" by (cases x)
      show ?thesis
      proof (cases "kserve g1 es")
        case (Inr y)
        obtain g2 rs where y: "y = (g2, rs)" by (cases y)
        show ?thesis
          using False Inr y x \<open>do_request g (kwords e) [] = Inr x\<close>
          by (cases "kserve g2 fs") (auto simp: Cons)
      qed (use False x Inr in \<open>simp add: Cons\<close>)
    qed (use False in simp)
  qed
qed

text \<open>A deletion of a key that has a deadline frees the entry, and leaves the heap as it was.\<close>

lemma del_leaves_item:
  assumes "stores g ns m" and a: "a \<in># ns" "e_key (ent g a) = k"
  obtains g' where "do_request g (kwords (KDel k)) [] = Inr (g', RES_OK, out_int [] 1)" and "h_nodes (o_h (g_M g')) a = None"
    and "g_heap g' = g_heap g" and "g_clock g' = g_clock g" and "g_tick g' = g_tick g"
proof -
  note S = storesD [OF assms(1)]
  have "\<forall>y \<in># ns. entry_eq (g_M g) (Inr k) y = Inr (e_key (ent g y) = k)"
    using S(8) by (simp add: entry_eq_def load_Some)
  then obtain h hm p where D: "hm_delete (o_h (g_M g)) (g_db g) (str_hash k) (entry_eq (g_M g) (Inr k)) = Inr (h, hm, p)"
      "case p of None \<Rightarrow> m k = None | Some b \<Rightarrow> b \<in># ns \<and> e_key (ent g b) = k"
    by (rule delete_key [OF assms(1)])
  have "p = Some a"
    using D(2) stores_Some [OF assms(1) a] a S(5) by (cases p) (auto simp: inj_on_def)
  then show ?thesis
    using that S(8,10) [OF a(1)] D(1)
    by (simp add: dispatch do_del_def entry_del_def entry_free_def load_Some)
qed

text \<open>
  C35.  A deletion does not take a deadline out of the heap.  After any history as in \<open>expiring_keys_refine_map\<close>, when a
  client deletes a key whose deadline is the earliest of all, the command answers 1 as for any key; but when the timers of
  the event loop run after that deadline, \<open>process_timers\<close> follows the item that is left to the freed entry, and the
  server accesses freed memory.
\<close>

theorem deleted_deadline_faults:
  assumes "kallowed_all clock (0, Map.empty) es" and "foldl (\<lambda>s e. knext clock e s) (0, Map.empty) es = (n, m)"
    and "m k = Some (v, Some d)" and "\<forall>k' v' d'. m k' = Some (v', Some d') \<longrightarrow> k' \<noteq> k \<longrightarrow> d < d'"
    and "d < clock n"
  shows "(\<exists>g rs. kserve (g_init clock) (es @ [KDel k]) = Inr (g, rs @ [(RES_OK, out_int [] 1)])) \<and>
    kserve (g_init clock) (es @ [KDel k, KTimers]) = Inl BadAddress"
proof -
  obtain g rs where R: "kserve (g_init clock) es = Inr (g, rs)" "kstate_of clock g (n, m)"
    using kserve_from [OF kstate_init assms(1)] assms(2) by auto
  obtain ns where K: "stores g ns m" "g_clock g = clock" "g_tick g = n" using R(2) by (auto simp: kstate_of_def)
  obtain a where a: "a \<in># ns" "e_key (ent g a) = k"
    using assms(3) stores_None [OF K(1), of k] by auto
  obtain g' where D: "do_request g (kwords (KDel k)) [] = Inr (g', RES_OK, out_int [] 1)" "h_nodes (o_h (g_M g')) a = None"
      "g_heap g' = g_heap g" "g_clock g' = g_clock g" "g_tick g' = g_tick g"
    by (rule del_leaves_item [OF K(1) a])
  have "deadlines (g_heap g) a = Some d" using stores_Some [OF K(1) a] assms(3) by simp
  then have "g_heap g \<noteq> []" by (auto simp: deadlines_def)
  then obtain x hs where h: "g_heap g = x # hs" by (cases "g_heap g") auto
  obtain b w where b: "hi_ref x = Some b" "b \<in># ns" "m (e_key (ent g b)) = Some (w, Some (hi_val x))"
      "\<forall>k v d. m k = Some (v, Some d) \<longrightarrow> hi_val x \<le> d"
    using first_key [OF K(1) h] by metis
  have "hi_val x \<le> d" using b(4) assms(3) by blast
  then have key: "e_key (ent g b) = k" using b(3) assms(4) by (metis leD)
  then have ba: "b = a" using storesD(5) [OF K(1)] a b(2) by (auto simp: inj_on_def)
  have due: "hi_val x = d" using b(3) key assms(3) by simp
  let ?g = "g'\<lparr>g_tick := n + 1\<rparr>"
  have "expire_one ?g = Inl BadAddress"
    using h b(1) ba D(2,3) by (simp add: expire_one_def load_def Let_def)
  then have "expire_loop 0 (clock n) ?g = Inl BadAddress"
    using h due assms(5) D(3) by (subst expire_loop.simps) simp
  then have "expire_keys g' = Inl BadAddress"
    using D(4,5) K(2,3) by (simp add: expire_keys_def get_monotonic_usec_def)
  then show ?thesis using R(1) D(1) by (simp add: kserve_append)
qed

theorem deleted_deadline_faults_witness:
  "kserve (g_init (\<lambda>n. of_nat n * 6000000)) [KSet [97] [1], KSet [98] [2], KExpire [97] (lit ''2000''), KDel [97], KTimers]
     = Inl BadAddress"
proof -
  let ?clock = "\<lambda>n. of_nat n * 6000000 :: u64"
  let ?es = "[KSet [97] [1], KSet [98] [2], KExpire [97] (lit ''2000'')]"
  have arg: "str2int (lit ''2000'') = Some 2000" by code_simp
  have ok: "kallowed_all ?clock (0, Map.empty) ?es" by (simp add: k_resizing_work_def k_max_msg_def)
  have "kexpire 0 [97] 2000 [[97] \<mapsto> ([1], None), [98] \<mapsto> ([2], None)]
      = [[97] \<mapsto> ([1], Some 2000000), [98] \<mapsto> ([2 :: u8], None)]"
    by (simp add: kexpire_def fun_eq_iff)
  then have run: "foldl (\<lambda>s e. knext ?clock e s) (0, Map.empty) ?es
      = (1, [[97] \<mapsto> ([1], Some 2000000), [98] \<mapsto> ([2], None)])"
    by (simp add: arg)
  have "kserve (g_init ?clock) (?es @ [KDel [97], KTimers]) = Inl BadAddress"
    using deleted_deadline_faults [OF ok run, of "[97]" "[1]" 2000000] by simp
  then show ?thesis by simp
qed

lemma fails_with: "(case r of Inl e \<Rightarrow> e = f | Inr _ \<Rightarrow> False) \<Longrightarrow> r = Inl f"
  by (simp split: sum.splits)

text \<open>
  A second \<open>SET\<close> of a key with a deadline makes a second entry; \<open>hm_delete\<close> then finds the newer one and the assertion of
  \<open>process_timers\<close> fails.
\<close>

lemma second_set_fails:
  "kserve (g_init (\<lambda>n. of_nat n * 1000000)) [KSet [97] [1], KExpire [97] (lit ''0''), KSet [97] [2], KTimers]
     = Inl AssertFailed"
  by (rule fails_with; code_simp)

end
