(* ===== verification/Server_Loop.thy ===== *)
theory Server_Loop
  imports Event_Loop
begin

text \<open>
  One turn of the server's loop as a whole: it keeps the connections, the idle list and \<open>fd2conn\<close> in
  step with each other, and it faults only where the database does.
\<close>

section \<open>A connection keeps its descriptor\<close>

lemma try_flush_fd: "try_flush_buffer s c = Inr (s', c', again) \<Longrightarrow> c_fd c' = c_fd c"
proof (induction s c rule: try_flush_buffer.induct)
  case (1 s c)
  obtain s1 r where w: "sys_write s (drop (c_sent c) (c_wbuf c)) = (s1, r)" by fastforce
  have le: "c_sent c \<le> length (c_wbuf c)"
    using 1(2) by (subst (asm) try_flush_buffer.simps) (auto simp: bindr_eq_Inr)
  show ?case
  proof (cases "r = Inl EINTR")
    case True
    then have "try_flush_buffer s1 c = Inr (s', c', again)"
      using 1(2) w le by (subst (asm) try_flush_buffer.simps) simp
    then show ?thesis using 1(1) [of "()" s1 r EINTR] le w True by simp
  next
    case False
    then show ?thesis
      using 1(2) w le by (subst (asm) try_flush_buffer.simps)
        (auto simp: Let_def bindr_eq_Inr split: sum.splits if_splits)
  qed
qed

lemma stateres_loop_fd: "stateres_loop fuel s c = Inr (s', c') \<Longrightarrow> c_fd c' = c_fd c"
  by (induction fuel arbitrary: s c)
    (auto simp: bindr_eq_Inr split: if_splits dest!: try_flush_fd)

lemma stateres_fd: "stateres s c = Inr (s', c') \<Longrightarrow> c_fd c' = c_fd c"
  by (auto simp: stateres_def dest!: stateres_loop_fd simp del: stateres_loop.simps)

lemma one_request_fd: "one_request g s c = Inr (g', s', c', again) \<Longrightarrow> c_fd c' = c_fd c"
  by (auto simp: one_request_def Let_def bindr_eq_Inr split: if_splits option.splits dest!: stateres_fd)

lemma request_loop_fd: "request_loop fuel g s c = Inr (g', s', c') \<Longrightarrow> c_fd c' = c_fd c"
  by (induction fuel arbitrary: g s c)
    (auto simp: bindr_eq_Inr split: if_splits dest!: one_request_fd)

lemma try_fill_fd: "try_fill_buffer g s c = Inr (g', s', c', again) \<Longrightarrow> c_fd c' = c_fd c"
  by (auto simp: try_fill_buffer_def Let_def bindr_eq_Inr split: prod.splits sum.splits if_splits
      dest!: request_loop_fd simp del: request_loop.simps)

lemma statereq_loop_fd: "statereq_loop fuel g s c = Inr (g', s', c') \<Longrightarrow> c_fd c' = c_fd c"
  by (induction fuel arbitrary: g s c)
    (auto simp: bindr_eq_Inr split: if_splits dest!: try_fill_fd)

lemma statereq_fd: "statereq g s c = Inr (g', s', c') \<Longrightarrow> c_fd c' = c_fd c"
  by (auto simp: statereq_def dest!: statereq_loop_fd simp del: statereq_loop.simps)

lemma connection_io_keeps:
  assumes "connection_io sv a = Inr sv'" and "sv_conns sv a = Some c"
  obtains c' where "sv_conns sv' = (sv_conns sv)(a \<mapsto> c')" and "c_fd c' = c_fd c"
    and "sv_fd2conn sv' = sv_fd2conn sv" and "idle_touch a (sv_idle sv) = Inr (sv_idle sv')"
    and "\<forall>fd. fd \<noteq> c_fd c \<longrightarrow> sv_socks sv' fd = sv_socks sv fd"
proof -
  obtain now g where "get_monotonic_usec (sv_g sv) = (now, g)" by fastforce
  then show ?thesis
    using assms that
    by (cases "c_state c")
      (auto simp: connection_io_def load_Some Let_def bindr_eq_Inr dest!: statereq_fd stateres_fd)
qed

section \<open>The state between two turns\<close>

text \<open>Every connection is between two events, and sends commands of \<open>C\<close> only.\<close>

definition client_ok :: "bytes list set \<Rightarrow> (nat \<Rightarrow> sock) \<Rightarrow> Conn \<Rightarrow> bool" where
  "client_ok C socks c \<longleftrightarrow> conn_idle c \<and> c_state c \<noteq> STATE_END \<and> sends C (stream c (socks (c_fd c)))"

definition server_ok :: "bytes list set \<Rightarrow> server \<Rightarrow> addr list \<Rightarrow> bool" where
  "server_ok C sv xs \<longleftrightarrow> conns_ok sv xs \<and> (\<forall>a c. sv_conns sv a = Some c \<longrightarrow> client_ok C (sv_socks sv) c)"

text \<open>The database may change by commands of \<open>C\<close> and by the reading of the clock.\<close>

inductive evolves :: "bytes list set \<Rightarrow> gdata \<Rightarrow> gdata \<Rightarrow> bool" for C g0 where
  same: "evolves C g0 g0"
| commands: "evolves C g0 g \<Longrightarrow> runs C g g' \<Longrightarrow> evolves C g0 g'"
| tick: "evolves C g0 g \<Longrightarrow> get_monotonic_usec g = (now, g') \<Longrightarrow> evolves C g0 g'"

lemma evolves_trans: "evolves C b c \<Longrightarrow> evolves C a b \<Longrightarrow> evolves C a c"
  by (induction rule: evolves.induct) (auto intro: evolves.intros)

text \<open>
  The calls of \<open>do_request\<close> in the events of the clients and in a whole turn, in order, and the arguments of \<open>expire_loop\<close>,
  if the turn comes to its timers.
\<close>

definition event_calls :: "server \<Rightarrow> nat \<Rightarrow> calls" where
  "event_calls sv fd = (if fd \<ge> length (sv_fd2conn sv) then [] else (case sv_fd2conn sv ! fd of
       None \<Rightarrow> [] | Some conn \<Rightarrow> connection_calls sv conn))"

fun events_calls :: "server \<Rightarrow> (nat \<times> bool) list \<Rightarrow> calls" where
  "events_calls sv [] = []"
| "events_calls sv ((fd, revents) # ps) = (if revents then event_calls sv fd else []) @
     (case if revents then client_event sv fd else Inr sv of Inl e \<Rightarrow> [] | Inr sv1 \<Rightarrow> events_calls sv1 ps)"

definition turn_start :: "server \<Rightarrow> accepted option \<Rightarrow> (nat \<Rightarrow> bool) \<Rightarrow> (server \<times> (nat \<times> bool) list) res" where
  "turn_start sv acc ready =
     bindr (poll_args (sv_conns sv) (sv_fd2conn sv)) (\<lambda>ps.
     bindr (next_timer_ms sv) (\<lambda>(sv1, timeout_ms).
     bindr (case acc of None \<Rightarrow> Inr sv1 | Some r \<Rightarrow> accept_new_connection sv1 r) (\<lambda>sv2.
     Inr (sv2, map (\<lambda>(fd, ev). (fd, ready fd)) ps))))"

definition turn_calls :: "server \<Rightarrow> accepted option \<Rightarrow> (nat \<Rightarrow> bool) \<Rightarrow> calls" where
  "turn_calls sv acc ready = (case turn_start sv acc ready of Inl e \<Rightarrow> [] | Inr (sv2, evs) \<Rightarrow> events_calls sv2 evs)"

definition turn_expiry :: "server \<Rightarrow> accepted option \<Rightarrow> (nat \<Rightarrow> bool) \<Rightarrow> (u64 \<times> gdata) option" where
  "turn_expiry sv acc ready = (case bindr (turn_start sv acc ready) (\<lambda>(sv2, evs). client_events sv2 evs) of
       Inl e \<Rightarrow> None
     | Inr sv3 \<Rightarrow> Some (get_monotonic_usec (sv_g sv3)))"

lemma server_turn_parts:
  "server_turn sv acc ready = bindr (bindr (turn_start sv acc ready) (\<lambda>(sv2, evs). client_events sv2 evs)) process_timers"
  by (auto simp: server_turn_def turn_start_def bindr_def split: sum.splits prod.splits)

text \<open>What a step of the server leaves, when it makes these calls.\<close>

definition calls_from :: "bytes list set \<Rightarrow> gdata \<Rightarrow> calls \<Rightarrow> bool" where
  "calls_from C g0 qs \<longleftrightarrow> (\<forall>(g, cmd) \<in> set qs. evolves C g0 g \<and> cmd \<in> C)"

lemma calls_from_simps [simp]:
  "calls_from C g0 []" "calls_from C g0 (ps @ qs) \<longleftrightarrow> calls_from C g0 ps \<and> calls_from C g0 qs"
  by (auto simp: calls_from_def)

lemma calls_from_in: "calls_in C g qs \<Longrightarrow> evolves C g0 g \<Longrightarrow> calls_from C g0 qs"
  by (auto simp: calls_from_def calls_in_def intro: evolves.commands)

lemma calls_from_later: "calls_from C g qs \<Longrightarrow> evolves C g0 g \<Longrightarrow> calls_from C g0 qs"
  by (auto simp: calls_from_def intro: evolves_trans)

definition step_ok :: "bytes list set \<Rightarrow> gdata \<Rightarrow> calls \<Rightarrow> server res \<Rightarrow> bool" where
  "step_ok C g0 qs r \<longleftrightarrow> calls_from C g0 qs \<and> (case r of Inl e \<Rightarrow> blames qs e
     | Inr sv \<Rightarrow> evolves C g0 (sv_g sv) \<and> (\<exists>xs. server_ok C sv xs))"

lemma step_ok_bind:
  assumes "step_ok C g0 ps r"
    and "\<And>sv xs. r = Inr sv \<Longrightarrow> server_ok C sv xs \<Longrightarrow> evolves C g0 (sv_g sv) \<Longrightarrow> step_ok C (sv_g sv) (qs sv) (f sv)"
  shows "step_ok C g0 (ps @ (case r of Inl e \<Rightarrow> [] | Inr sv \<Rightarrow> qs sv)) (bindr r f)"
proof (cases r)
  case (Inr sv)
  then obtain xs where sv: "evolves C g0 (sv_g sv)" "server_ok C sv xs" using assms(1) by (auto simp: step_ok_def)
  from assms(2) [OF Inr sv(2,1)] have "step_ok C (sv_g sv) (qs sv) (f sv)" .
  then show ?thesis
    using Inr sv(1) assms(1) evolves_trans calls_from_later by (auto simp: step_ok_def blames_append split: sum.splits)
qed (use assms(1) in \<open>simp add: step_ok_def\<close>)

section \<open>An event of a client\<close>

lemma conns_ok_drop:
  assumes "conns_ok sv (ys @ a # zs)" and "sv_conns sv a = Some c" and "ring d idle_head (ys @ zs)"
  shows "conns_ok (sv\<lparr>sv_fd2conn := (sv_fd2conn sv)[c_fd c := None], sv_closed := cl,
      sv_idle := d(a := None), sv_conns := (sv_conns sv)(a := None)\<rparr>) (ys @ zs)"
proof -
  have a: "a \<notin> set (idle_head # ys @ zs)" using assms(1) by (auto simp: conns_ok_def ring_def)
  then have "ring (d(a := None)) idle_head (ys @ zs)"
    using assms(3) ring_cong [of idle_head "ys @ zs" "d(a := None)" d] by auto
  moreover have "dom ((sv_conns sv)(a := None)) = set (ys @ zs)" using a assms(1) by (auto simp: conns_ok_def)
  ultimately show ?thesis
    using assms(1,2) unfolding conns_ok_place [OF assms(1,2)] by (auto simp: conns_ok_def)
qed

lemma conns_ok_io:
  assumes "conns_ok sv xs" and "sv_conns sv a = Some c" and "sv_conns sv' = (sv_conns sv)(a \<mapsto> c')"
    and "c_fd c' = c_fd c" and "sv_fd2conn sv' = sv_fd2conn sv" and "ring (sv_idle sv') idle_head ys"
    and "set ys = set xs"
  shows "conns_ok sv' ys"
proof -
  have "a \<in> set xs" using assms(1,2) by (auto simp: conns_ok_def)
  then have "dom (sv_conns sv') = set ys" using assms(1,3,7) by (auto simp: conns_ok_def)
  then show ?thesis using assms(1-6) by (auto simp: conns_ok_def)
qed

lemma client_event_ok:
  assumes "server_ok C sv xs"
  shows "step_ok C (sv_g sv) (event_calls sv fd) (client_event sv fd)"
proof (cases "fd < length (sv_fd2conn sv) \<and> sv_fd2conn sv ! fd \<noteq> None")
  case False
  then show ?thesis
    using assms evolves.same by (auto simp: client_event_def event_calls_def step_ok_def split: option.splits)
next
  case True
  then obtain a where a: "fd < length (sv_fd2conn sv)" "sv_fd2conn sv ! fd = Some a" by auto
  have ok: "conns_ok sv xs" using assms by (simp add: server_ok_def)
  then obtain c where c: "sv_conns sv a = Some c" "c_fd c = fd" using a unfolding conns_ok_def by blast
  have idle: "conn_idle c" "c_state c \<noteq> STATE_END" "sends C (stream c (sv_socks sv (c_fd c)))"
    using assms c(1) by (auto simp: server_ok_def client_ok_def)
  have "a \<in> set xs" using ok c(1) by (auto simp: conns_ok_def)
  then obtain ys zs where xs: "xs = ys @ a # zs" by (meson split_list)
  obtain d where d: "idle_touch a (sv_idle sv) = Inr d" "ring d idle_head (ys @ zs @ [a])"
    using idle_touch_spec [of "sv_idle sv" ys a zs] ok xs by (auto simp: conns_ok_def)
  obtain now g0 where clock: "get_monotonic_usec (sv_g sv) = (now, g0)" by fastforce
  have g0: "evolves C (sv_g sv) g0" by (rule evolves.tick [OF evolves.same clock])
  note io = connection_io_blame [OF c(1) idle(1,2) d(1) clock idle(3)]
  have calls: "event_calls sv fd = connection_calls sv a" using a by (simp add: event_calls_def)
  have origin: "calls_from C (sv_g sv) (event_calls sv fd)"
    unfolding calls using io g0 by (blast intro: calls_from_in)
  from io [THEN conjunct2] show ?thesis
  proof (elim disjE exE conjE)
    fix e assume "connection_io sv a = Inl e" "blames (connection_calls sv a) e"
    then show ?thesis using a origin unfolding calls by (auto simp: client_event_def step_ok_def)
  next
    fix sv1 c1 assume io: "connection_io sv a = Inr sv1" "runs C g0 (sv_g sv1)" "sv_conns sv1 a = Some c1"
      "conn_idle c1" "sends C (stream c1 (sv_socks sv1 (c_fd c)))"
    obtain c2 where k: "sv_conns sv1 = (sv_conns sv)(a \<mapsto> c2)" "c_fd c2 = c_fd c" "sv_fd2conn sv1 = sv_fd2conn sv"
        "idle_touch a (sv_idle sv) = Inr (sv_idle sv1)" "\<forall>fd. fd \<noteq> c_fd c \<longrightarrow> sv_socks sv1 fd = sv_socks sv fd"
      by (rule connection_io_keeps [OF io(1) c(1)])
    have c1: "c2 = c1" "c_fd c1 = fd" using k(1,2) io(3) c(2) by simp_all
    have d1: "sv_idle sv1 = d" using d(1) k(4) by simp
    have ok1: "conns_ok sv1 ((ys @ zs) @ a # [])"
      by (rule conns_ok_io [OF ok c(1) k(1-3)]) (use d(2) d1 xs in auto)
    have ev: "evolves C (sv_g sv) (sv_g sv1)" by (rule evolves.commands [OF g0 io(2)])
    have others: "client_ok C (sv_socks sv1) x" if x: "sv_conns sv1 b = Some x" "b \<noteq> a" for b x
    proof -
      have b: "sv_conns sv b = Some x" using x k(1) by simp
      then have "sv_fd2conn sv ! c_fd x = Some b" using ok by (simp add: conns_ok_def)
      then have "c_fd x \<noteq> c_fd c" using a(2) c(2) x(2) by auto
      then show ?thesis using b k(5) assms by (simp add: server_ok_def client_ok_def)
    qed
    show ?thesis
    proof (cases "c_state c1 = STATE_END")
      case False
      then have "client_ok C (sv_socks sv1) c1" using io(4,5) c c1(2) by (simp add: client_ok_def)
      then have "server_ok C sv1 ((ys @ zs) @ a # [])"
        using ok1 others io(3) unfolding server_ok_def by (metis option.inject)
      then show ?thesis
        using a io(1,3) False ev origin by (auto simp: client_event_def step_ok_def load_Some)
    next
      case True
      have "ring (sv_idle sv1) idle_head ((ys @ zs) @ a # [])" using ok1 by (simp only: conns_ok_def)
      then obtain e where "dlist_detach (sv_idle sv1) (Some a) = Inr e" "ring e idle_head ((ys @ zs) @ [])"
          "dom e = dom (sv_idle sv1)"
        by (rule ring_detach_spec)
      then have e: "dlist_detach (sv_idle sv1) (Some a) = Inr e" "ring e idle_head (ys @ zs)" by simp_all
      let ?sv = "sv1\<lparr>sv_fd2conn := (sv_fd2conn sv1)[c_fd c1 := None], sv_closed := sv_closed sv1 @ [c_fd c1],
          sv_idle := e(a := None), sv_conns := (sv_conns sv1)(a := None)\<rparr>"
      have "conns_ok ?sv (ys @ zs)"
        using conns_ok_drop [OF ok1 io(3), of e] e(2) by simp
      then have "server_ok C ?sv (ys @ zs)" using others by (auto simp: server_ok_def)
      moreover have "client_event sv fd = Inr ?sv"
        using a io(1,3) True e(1) c1(2) k(3) by (simp add: client_event_def load_Some aset_def idle_close_def)
      ultimately show ?thesis using ev origin by (auto simp: step_ok_def)
    qed
  qed
qed

lemma client_events_ok: "server_ok C sv xs \<Longrightarrow> step_ok C (sv_g sv) (events_calls sv ps) (client_events sv ps)"
proof (induction sv ps arbitrary: xs rule: client_events.induct)
  case (1 sv)
  then show ?case using evolves.same by (auto simp: step_ok_def)
next
  case (2 sv fd revents ps)
  have "step_ok C (sv_g sv) (if revents then event_calls sv fd else []) (if revents then client_event sv fd else Inr sv)"
    using client_event_ok [OF 2(2)] 2(2) evolves.same by (auto simp: step_ok_def)
  then show ?case
    unfolding client_events.simps events_calls.simps by (rule step_ok_bind) (rule 2(1))
qed

section \<open>Accepting, polling and the timers\<close>

text \<open>
  What the kernel and the allocator promise: a new connection is given memory and a descriptor that are
  not in use.  The new client sends commands of \<open>C\<close>, too.
\<close>

fun fresh_conn :: "bytes list set \<Rightarrow> server \<Rightarrow> accepted option \<Rightarrow> bool" where
  "fresh_conn C sv (Some (Accepted fd a)) \<longleftrightarrow> a \<noteq> idle_head \<and> sv_conns sv a = None \<and>
     (\<forall>b c. sv_conns sv b = Some c \<longrightarrow> c_fd c \<noteq> fd) \<and> sends C (inputs (sk_in (sv_socks sv fd)))"
| "fresh_conn C sv _ \<longleftrightarrow> True"

lemma conn_put_nth:
  "c_fd c < length (conn_put fds a c) \<and> conn_put fds a c ! c_fd c = Some a \<and>
   (\<forall>i < length (conn_put fds a c). i \<noteq> c_fd c \<longrightarrow>
      conn_put fds a c ! i = (if i < length fds then fds ! i else None)) \<and> length fds \<le> length (conn_put fds a c)"
  by (auto simp: conn_put_def Let_def nth_append nth_list_update)

lemma conns_ok_put:
  assumes "conns_ok sv xs" and "sv_conns sv a = None" and "\<forall>b c'. sv_conns sv b = Some c' \<longrightarrow> c_fd c' \<noteq> c_fd c"
    and "sv_conns sv' = (sv_conns sv)(a \<mapsto> c)" and "sv_fd2conn sv' = conn_put (sv_fd2conn sv) a c"
    and "ring (sv_idle sv') idle_head (xs @ [a])"
  shows "conns_ok sv' (xs @ [a])"
proof -
  note P = conn_put_nth [of c "sv_fd2conn sv" a]
  have old: "c_fd x < length (sv_fd2conn sv)" "sv_fd2conn sv ! c_fd x = Some b" if "sv_conns sv b = Some x" for b x
    using assms(1) that by (auto simp: conns_ok_def)
  have "dom (sv_conns sv') = set (xs @ [a])" using assms(1,4) by (auto simp: conns_ok_def)
  moreover have "c_fd x < length (sv_fd2conn sv') \<and> sv_fd2conn sv' ! c_fd x = Some b"
    if "sv_conns sv' b = Some x" for b x
  proof (cases "b = a")
    case False
    then have b: "sv_conns sv b = Some x" using that assms(4) by simp
    then show ?thesis using old [OF b] assms(3,5) P by auto
  qed (use that assms(4,5) P in auto)
  moreover have "\<exists>x. sv_conns sv' b = Some x \<and> c_fd x = i"
    if i: "i < length (sv_fd2conn sv')" "sv_fd2conn sv' ! i = Some b" for i b
  proof (cases "i = c_fd c")
    case True
    then show ?thesis using i P assms(4,5) by simp
  next
    case False
    then have "i < length (sv_fd2conn sv)" "sv_fd2conn sv ! i = Some b"
      using i P assms(5) by (auto split: if_splits)
    then obtain x where x: "sv_conns sv b = Some x" "c_fd x = i" using assms(1) unfolding conns_ok_def by blast
    then have "b \<noteq> a" using assms(2) by auto
    then show ?thesis using x assms(4) by simp
  qed
  ultimately show ?thesis using assms(6) unfolding conns_ok_def by blast
qed

lemma accept_ok:
  assumes "server_ok C sv xs" and "fresh_conn C sv (Some acc)"
  shows "step_ok C (sv_g sv) [] (accept_new_connection sv acc)"
proof (cases acc)
  case AcceptError
  then show ?thesis using assms(1) evolves.same by (auto simp: accept_new_connection_def step_ok_def)
next
  case (NoMemory fd)
  have "server_ok C (sv\<lparr>sv_closed := sv_closed sv @ [fd]\<rparr>) xs" using assms(1) by (simp add: server_ok_def conns_ok_def)
  then show ?thesis using NoMemory evolves.same by (auto simp: accept_new_connection_def step_ok_def)
next
  case (Accepted fd a)
  have ok: "conns_ok sv xs" using assms(1) by (simp add: server_ok_def)
  obtain now g where clock: "get_monotonic_usec (sv_g sv) = (now, g)" by fastforce
  have a: "a \<notin> set (idle_head # xs)" "sv_conns sv a = None" using assms(2) Accepted ok by (auto simp: conns_ok_def)
  let ?d = "(sv_idle sv)(a \<mapsto> \<lparr>d_prev = None, d_next = None\<rparr>)"
  have "ring ?d idle_head xs"
    using ok a(1) ring_cong [of idle_head xs ?d "sv_idle sv"] by (auto simp: conns_ok_def)
  moreover have "idle_known ?d a" using a(1) by (simp add: idle_known_def)
  ultimately obtain d where d: "idle_open a ?d = Inr d" "ring d idle_head (xs @ [a])"
    using idle_open_spec [of ?d xs a] a(1) by auto
  let ?c = "\<lparr>c_fd = fd, c_state = STATE_REQ, c_rbuf = [], c_wbuf = [], c_sent = 0, c_idle_start = now\<rparr>"
  let ?sv = "sv\<lparr>sv_g := g, sv_conns := (sv_conns sv)(a \<mapsto> ?c), sv_idle := d,
      sv_fd2conn := conn_put (sv_fd2conn sv) a ?c\<rparr>"
  have run: "accept_new_connection sv acc = Inr ?sv"
    using Accepted clock d(1) by (simp add: accept_new_connection_def Let_def)
  have "conns_ok ?sv (xs @ [a])"
    by (rule conns_ok_put [OF ok a(2), of ?c]) (use assms(2) Accepted d(2) in auto)
  then have "server_ok C ?sv (xs @ [a])"
    using assms(1) assms(2) Accepted by (auto simp: server_ok_def client_ok_def stream_def conn_idle_def conn_ok_def buf_size_def)
  moreover have "evolves C (sv_g sv) g" by (rule evolves.tick [OF evolves.same clock])
  ultimately show ?thesis unfolding run step_ok_def by auto
qed

lemma poll_args_ok:
  assumes "conns_ok sv xs" and "set fds \<subseteq> set (sv_fd2conn sv)"
  shows "\<exists>ps. poll_args (sv_conns sv) fds = Inr ps"
  using assms(2)
proof (induction fds)
  case (Cons p fds)
  show ?case
  proof (cases p)
    case (Some a)
    then obtain i where "i < length (sv_fd2conn sv)" "sv_fd2conn sv ! i = Some a"
      using Cons.prems by (auto simp: in_set_conv_nth)
    then obtain c where "sv_conns sv a = Some c" using assms(1) unfolding conns_ok_def by blast
    then show ?thesis using Cons Some by (auto simp: load_Some)
  qed (use Cons in simp)
qed simp

lemma next_timer_ok:
  assumes "server_ok C sv xs"
  shows "\<exists>sv' ms. next_timer_ms sv = Inr (sv', ms) \<and> server_ok C sv' xs \<and> evolves C (sv_g sv) (sv_g sv') \<and>
    sv_conns sv' = sv_conns sv \<and> sv_socks sv' = sv_socks sv"
proof (cases xs)
  case Nil
  then have "dList_empty (sv_idle sv) (Some idle_head) = Inr True"
    using assms ring_empty_spec [of "sv_idle sv" idle_head xs] by (simp add: server_ok_def conns_ok_def)
  then show ?thesis using assms evolves.same by (simp add: next_timer_ms_def)
next
  case (Cons x ys)
  have ok: "conns_ok sv (x # ys)" using assms Cons by (simp add: server_ok_def)
  then have r: "ring (sv_idle sv) idle_head (x # ys)" by (simp add: conns_ok_def)
  obtain h where h: "load (sv_idle sv) (Some idle_head) = Inr h" "d_next h = Some x"
    using load_links [of "sv_idle sv" idle_head] ring_alive [OF r, of idle_head] ring_first [OF r] by auto
  have "x \<in> dom (sv_conns sv)" using ok by (simp add: conns_ok_def)
  then obtain c where c: "sv_conns sv x = Some c" by auto
  obtain now g where clock: "get_monotonic_usec (sv_g sv) = (now, g)" by fastforce
  have "server_ok C (sv\<lparr>sv_g := g\<rparr>) xs" using assms by (simp add: server_ok_def conns_ok_def)
  then show ?thesis
    using ring_empty_spec [OF r] h c clock evolves.tick [OF evolves.same clock]
    by (auto simp: next_timer_ms_def load_Some Let_def)
qed

lemma process_timers_ok:
  assumes "server_ok C sv xs" and "get_monotonic_usec (sv_g sv) = (now, g)"
  shows "(\<exists>e. process_timers sv = Inl e \<and> expire_loop 0 now g = Inl e) \<or>
    (\<exists>sv' ys. process_timers sv = Inr sv' \<and> server_ok C sv' ys \<and> expire_loop 0 now g = Inr (sv_g sv'))"
proof -
  let ?sv = "sv\<lparr>sv_g := g\<rparr>"
  have ok: "conns_ok ?sv xs" using assms(1) by (simp add: server_ok_def conns_ok_def)
  have fuel: "length xs < Suc (length (sv_fd2conn sv))"
    using ring_length [of sv xs] assms(1) by (simp add: server_ok_def)
  obtain gone rest d where loop: "idle_loop (Suc (length (sv_fd2conn sv))) now ?sv = Inr (without gone d ?sv)"
      "conns_ok (without gone d ?sv) rest"
    using idle_loop_spec [OF ok fuel, of now] by blast
  have run: "process_timers sv = bindr (expire_loop 0 now g) (\<lambda>g1. Inr ((without gone d ?sv)\<lparr>sv_g := g1\<rparr>))"
    using assms(2) loop(1) by (simp add: process_timers_def without_def)
  show ?thesis
  proof (cases "expire_loop 0 now g")
    case (Inr g1)
    have "server_ok C ((without gone d ?sv)\<lparr>sv_g := g1\<rparr>) rest"
      using loop(2) assms(1) by (auto simp: server_ok_def conns_ok_def without_def restrict_map_def split: if_splits)
    then show ?thesis using run Inr by force
  qed (use run in simp)
qed

text \<open>
  A turn faults only where its last call of \<open>do_request\<close> does, or the removal of expired keys it comes to.
\<close>

definition turn_blames :: "bytes list set \<Rightarrow> server \<Rightarrow> accepted option \<Rightarrow> (nat \<Rightarrow> bool) \<Rightarrow> fault \<Rightarrow> bool" where
  "turn_blames C sv acc ready e \<longleftrightarrow>
     (\<exists>qs g cmd. turn_calls sv acc ready = qs @ [(g, cmd)] \<and> cmd \<in> C \<and> evolves C (sv_g sv) g \<and> do_request g cmd [] = Inl e) \<or>
     (\<exists>now g. turn_expiry sv acc ready = Some (now, g) \<and> evolves C (sv_g sv) g \<and> expire_loop 0 now g = Inl e)"

lemma turn_start_ok:
  assumes "server_ok C sv xs" and "fresh_conn C sv acc"
  obtains sv2 evs ys where "turn_start sv acc ready = Inr (sv2, evs)" and "server_ok C sv2 ys"
    and "evolves C (sv_g sv) (sv_g sv2)"
proof -
  have ok: "conns_ok sv xs" using assms(1) by (simp add: server_ok_def)
  obtain ps where ps: "poll_args (sv_conns sv) (sv_fd2conn sv) = Inr ps"
    using poll_args_ok [OF ok order_refl] by blast
  obtain sv1 ms where sv1: "next_timer_ms sv = Inr (sv1, ms)" "server_ok C sv1 xs" "evolves C (sv_g sv) (sv_g sv1)"
      "sv_conns sv1 = sv_conns sv" "sv_socks sv1 = sv_socks sv"
    using next_timer_ok [OF assms(1)] by blast
  have fresh: "fresh_conn C sv1 acc" using assms(2) sv1(4,5) by (cases "(C, sv, acc)" rule: fresh_conn.cases) auto
  let ?acc = "case acc of None \<Rightarrow> Inr sv1 | Some r \<Rightarrow> accept_new_connection sv1 r"
  have "step_ok C (sv_g sv1) [] ?acc"
    using accept_ok [OF sv1(2)] fresh sv1(2) evolves.same by (auto simp: step_ok_def split: option.splits)
  then obtain sv2 ys where "?acc = Inr sv2" "evolves C (sv_g sv1) (sv_g sv2)" "server_ok C sv2 ys"
    by (auto simp: step_ok_def blames_def split: sum.splits)
  then show ?thesis
    using that ps sv1(1) evolves_trans [OF _ sv1(3)] by (simp add: turn_start_def)
qed

lemma server_turn_run:
  assumes "server_ok C sv xs" and "fresh_conn C sv acc"
  shows "(\<exists>e. server_turn sv acc ready = Inl e \<and> turn_blames C sv acc ready e) \<or>
    (\<exists>sv' ys g now_us. server_turn sv acc ready = Inr sv' \<and> server_ok C sv' ys \<and>
      evolves C (sv_g sv) g \<and> expire_loop 0 now_us g = Inr (sv_g sv'))"
proof -
  obtain sv2 evs ys where S: "turn_start sv acc ready = Inr (sv2, evs)" "server_ok C sv2 ys" "evolves C (sv_g sv) (sv_g sv2)"
    by (rule turn_start_ok [OF assms])
  note E = client_events_ok [OF S(2), of evs]
  have calls: "turn_calls sv acc ready = events_calls sv2 evs" using S(1) by (simp add: turn_calls_def)
  have turn: "server_turn sv acc ready = bindr (client_events sv2 evs) process_timers"
    using S(1) by (simp add: server_turn_parts)
  show ?thesis
  proof (cases "client_events sv2 evs")
    case (Inl e)
    then have B: "blames (events_calls sv2 evs) e" "calls_from C (sv_g sv) (events_calls sv2 evs)"
      using E calls_from_later [OF _ S(3)] by (simp_all add: step_ok_def)
    then obtain qs q where q: "events_calls sv2 evs = qs @ [q]" by (metis append_butlast_last_id blames_def)
    obtain g cmd where "q = (g, cmd)" by fastforce
    then have "turn_blames C sv acc ready e"
      using B q unfolding turn_blames_def calls by (auto simp: blames_def calls_from_def)
    then show ?thesis using turn Inl by simp
  next
    case (Inr sv3)
    then obtain zs where sv3: "server_ok C sv3 zs" "evolves C (sv_g sv) (sv_g sv3)"
      using E evolves_trans [OF _ S(3)] by (auto simp: step_ok_def)
    obtain now g where clock: "get_monotonic_usec (sv_g sv3) = (now, g)" by fastforce
    have expiry: "turn_expiry sv acc ready = Some (now, g)" using S(1) Inr clock by (simp add: turn_expiry_def)
    have ev: "evolves C (sv_g sv) g" by (rule evolves.tick [OF sv3(2) clock])
    have "server_turn sv acc ready = process_timers sv3" using turn Inr by simp
    then show ?thesis
      using process_timers_ok [OF sv3(1) clock] expiry ev unfolding turn_blames_def by metis
  qed
qed

text \<open>
  One turn of the loop.  Whatever \<open>poll\<close> and \<open>accept\<close> return, however the kernel cuts up what is
  read and written, and whatever the clock says: a server whose idle list and \<open>fd2conn\<close> refer to
  exactly its connections, each waiting for a request or with an answer to send, is in such a state again
  after the turn.  No freed connection is accessed and no assertion of the connection code fails; the only
  fault a turn can end in is one of the database, in a command that a client has sent (\<open>C\<close>) or in the removal
  of expired keys.
\<close>

theorem server_turn_safe:
  assumes "server_ok C sv xs" and "fresh_conn C sv acc"
  shows "(\<exists>e. server_turn sv acc ready = Inl e \<and> turn_blames C sv acc ready e) \<or>
    (\<exists>sv' ys. server_turn sv acc ready = Inr sv' \<and> server_ok C sv' ys)"
  using server_turn_run [OF assms] by blast

lemma demo_idle_server: "server_ok {} demo_idle [7, 8]"
proof -
  have "sends {} []" by (simp add: sends_def frames_short)
  then show ?thesis
    using demo_idle_ok
    by (auto simp: server_ok_def client_ok_def stream_def demo_idle_def conn_idle_def conn_ok_def buf_size_def
        split: if_splits)
qed

text \<open>Clients that send nothing: a turn succeeds, when no key is due.\<close>

lemma silent_db:
  assumes "g_heap (sv_g sv) = []"
  shows "\<not> turn_blames {} sv acc ready e"
proof -
  have runs: "runs {} g g' \<Longrightarrow> g' = g" for g g' by (induction rule: runs.induct) auto
  have "evolves {} (sv_g sv) g \<Longrightarrow> g_heap g = []" for g
    by (induction rule: evolves.induct) (use assms runs in \<open>auto simp: get_monotonic_usec_def\<close>)
  then have "expire_loop 0 now_us g = Inr g" if "evolves {} (sv_g sv) g" for now_us g
    using that by (subst expire_loop.simps) simp
  then show ?thesis by (auto simp: turn_blames_def)
qed

theorem server_turn_safe_witness:
  "\<exists>sv' ys. server_turn demo_idle (Some (Accepted 2 9)) (\<lambda>fd. fd = 1) = Inr sv' \<and> server_ok {} sv' ys"
proof -
  have "fresh_conn {} demo_idle (Some (Accepted 2 9))"
    by (auto simp: demo_idle_def idle_head_def sends_def frames_short split: if_splits)
  from server_turn_safe [OF demo_idle_server this] show ?thesis
    using silent_db [of demo_idle] by (auto simp: demo_idle_def g_init_def)
qed

end
