(* ===== verification/Thread_Pool.thy ===== *)
theory Thread_Pool
  imports Prelude
begin

text \<open>
  \<open>thread.cpp\<close>: a pool of threads that take jobs from a queue guarded by a mutex and a condition
  variable.  The threads and the thread that queues jobs are a transition system of their atomic
  steps.
\<close>

section \<open>States\<close>

text \<open>
  Where a worker is in its loop: before \<open>pthread_mutex_lock\<close>, at the test of the queue, inside
  \<open>pthread_cond_wait\<close> (blocked, or awake and waiting for the mutex), at the unlock with its job, at the job.
\<close>

datatype 'w worker_pc = WLock | WTest | WWait | WWoken | WUnlock 'w | WJob 'w

text \<open>The producer, in \<open>thread_pool_queue\<close> or outside it.\<close>

datatype 'w producer_pc = PIdle | PLock 'w | PPush 'w | PSignal | PUnlock

datatype owner = Producer | Worker nat

text \<open>
  \<open>tp_todo\<close> are the jobs the producer will still queue, \<open>tp_started\<close> the jobs taken off the queue, in
  order, and \<open>tp_done\<close> those finished.  \<open>tp_spurious\<close> bounds the spurious wake-ups still to come.
\<close>

record 'w pool =
  tp_workers :: "'w worker_pc list"
  tp_queue :: "'w list"
  tp_mu :: "owner option"
  tp_producer :: "'w producer_pc"
  tp_todo :: "'w list"
  tp_started :: "'w list"
  tp_done :: "'w list"
  tp_spurious :: nat

definition thread_pool_init :: "nat \<Rightarrow> 'w list \<Rightarrow> nat \<Rightarrow> 'w pool res" where
  "thread_pool_init num_threads todo spurious =
     bindr (checkr AssertFailed (num_threads > 0)) (\<lambda>_.
     Inr \<lparr>tp_workers = replicate num_threads WLock, tp_queue = [], tp_mu = None, tp_producer = PIdle,
          tp_todo = todo, tp_started = [], tp_done = [], tp_spurious = spurious\<rparr>)"

section \<open>Steps\<close>

abbreviation at :: "'w pool \<Rightarrow> nat \<Rightarrow> 'w worker_pc \<Rightarrow> bool" where
  "at s i pc \<equiv> i < length (tp_workers s) \<and> tp_workers s ! i = pc"

abbreviation goto :: "'w pool \<Rightarrow> nat \<Rightarrow> 'w worker_pc \<Rightarrow> 'w worker_pc list" where
  "goto s i pc \<equiv> (tp_workers s)[i := pc]"

text \<open>One step of worker \<open>i\<close>.\<close>

inductive worker_step :: "nat \<Rightarrow> 'w pool \<Rightarrow> 'w pool \<Rightarrow> bool" where
  lock: "at s i WLock \<Longrightarrow> tp_mu s = None \<Longrightarrow>
    worker_step i s (s\<lparr>tp_workers := goto s i WTest, tp_mu := Some (Worker i)\<rparr>)"
| wait: "at s i WTest \<Longrightarrow> tp_queue s = [] \<Longrightarrow>
    worker_step i s (s\<lparr>tp_workers := goto s i WWait, tp_mu := None\<rparr>)"
| spurious: "at s i WWait \<Longrightarrow> tp_spurious s = Suc n \<Longrightarrow>
    worker_step i s (s\<lparr>tp_workers := goto s i WWoken, tp_spurious := n\<rparr>)"
| relock: "at s i WWoken \<Longrightarrow> tp_mu s = None \<Longrightarrow>
    worker_step i s (s\<lparr>tp_workers := goto s i WTest, tp_mu := Some (Worker i)\<rparr>)"
| take_job: "at s i WTest \<Longrightarrow> tp_queue s = w # q \<Longrightarrow>
    worker_step i s (s\<lparr>tp_workers := goto s i (WUnlock w), tp_queue := q, tp_started := tp_started s @ [w]\<rparr>)"
| unlock: "at s i (WUnlock w) \<Longrightarrow>
    worker_step i s (s\<lparr>tp_workers := goto s i (WJob w), tp_mu := None\<rparr>)"
| run: "at s i (WJob w) \<Longrightarrow>
    worker_step i s (s\<lparr>tp_workers := goto s i WLock, tp_done := tp_done s @ [w]\<rparr>)"

text \<open>One step of the producer.  A signal wakes one of the workers blocked at that moment, if any is.\<close>

inductive producer_step :: "'w pool \<Rightarrow> 'w pool \<Rightarrow> bool" where
  call: "tp_producer s = PIdle \<Longrightarrow> tp_todo s = w # ws \<Longrightarrow>
    producer_step s (s\<lparr>tp_producer := PLock w, tp_todo := ws\<rparr>)"
| plock: "tp_producer s = PLock w \<Longrightarrow> tp_mu s = None \<Longrightarrow>
    producer_step s (s\<lparr>tp_producer := PPush w, tp_mu := Some Producer\<rparr>)"
| push: "tp_producer s = PPush w \<Longrightarrow>
    producer_step s (s\<lparr>tp_producer := PSignal, tp_queue := tp_queue s @ [w]\<rparr>)"
| signal: "tp_producer s = PSignal \<Longrightarrow> at s i WWait \<Longrightarrow>
    producer_step s (s\<lparr>tp_producer := PUnlock, tp_workers := goto s i WWoken\<rparr>)"
| signal_none: "tp_producer s = PSignal \<Longrightarrow> WWait \<notin> set (tp_workers s) \<Longrightarrow>
    producer_step s (s\<lparr>tp_producer := PUnlock\<rparr>)"
| punlock: "tp_producer s = PUnlock \<Longrightarrow>
    producer_step s (s\<lparr>tp_producer := PIdle, tp_mu := None\<rparr>)"

inductive pool_step :: "'w pool \<Rightarrow> 'w pool \<Rightarrow> bool" where
  worker: "worker_step i s s' \<Longrightarrow> pool_step s s'"
| producer: "producer_step s s' \<Longrightarrow> pool_step s s'"

code_pred (modes: i \<Rightarrow> i \<Rightarrow> o \<Rightarrow> bool) worker_step .

inductive_cases worker_stepE: "worker_step i s s'"
inductive_cases producer_stepE: "producer_step s s'"
inductive_cases pool_stepE: "pool_step s s'"

section \<open>Invariant\<close>

fun holds_mu :: "'w worker_pc \<Rightarrow> bool" where
  "holds_mu WTest = True" | "holds_mu (WUnlock w) = True" | "holds_mu _ = False"

fun job_of :: "'w worker_pc \<Rightarrow> 'w list" where
  "job_of (WUnlock w) = [w]" | "job_of (WJob w) = [w]" | "job_of _ = []"

fun p_holds_mu :: "'w producer_pc \<Rightarrow> bool" where
  "p_holds_mu (PPush w) = True" | "p_holds_mu PSignal = True" | "p_holds_mu PUnlock = True"
| "p_holds_mu _ = False"

fun p_job :: "'w producer_pc \<Rightarrow> 'w list" where
  "p_job (PLock w) = [w]" | "p_job (PPush w) = [w]" | "p_job _ = []"

definition mutex_ok :: "'w pool \<Rightarrow> bool" where
  "mutex_ok s \<longleftrightarrow>
     (\<forall>i < length (tp_workers s). holds_mu (tp_workers s ! i) = (tp_mu s = Some (Worker i))) \<and>
     (\<forall>i. tp_mu s = Some (Worker i) \<longrightarrow> i < length (tp_workers s)) \<and>
     p_holds_mu (tp_producer s) = (tp_mu s = Some Producer)"

text \<open>Every job, in the order in which it is queued.\<close>

definition all_jobs :: "'w pool \<Rightarrow> 'w list" where
  "all_jobs s = tp_started s @ tp_queue s @ p_job (tp_producer s) @ tp_todo s"

definition jobs_ok :: "'w pool \<Rightarrow> bool" where
  "jobs_ok s \<longleftrightarrow> mset (tp_done s) + mset (concat (map job_of (tp_workers s))) = mset (tp_started s)"

text \<open>When there is a job in the queue, some worker is not blocked or the signal is about to be sent.\<close>

definition awake_ok :: "'w pool \<Rightarrow> bool" where
  "awake_ok s \<longleftrightarrow> tp_workers s \<noteq> [] \<and>
     (tp_queue s = [] \<or> tp_producer s = PSignal \<or> (\<exists>pc \<in> set (tp_workers s). pc \<noteq> WWait))"

definition pool_ok :: "'w pool \<Rightarrow> bool" where
  "pool_ok s \<longleftrightarrow> mutex_ok s \<and> jobs_ok s \<and> awake_ok s"

lemma mset_jobs_update:
  "i < length pcs \<Longrightarrow> mset (concat (map job_of (pcs[i := pc]))) + mset (job_of (pcs ! i))
     = mset (concat (map job_of pcs)) + mset (job_of pc)"
  using mset_concat_update [of i "map job_of pcs" "job_of pc"] by (simp add: map_update)

lemma worker_step_mutex: "worker_step i s s' \<Longrightarrow> mutex_ok s \<Longrightarrow> mutex_ok s'"
  by (erule worker_stepE) (fastforce simp: mutex_ok_def nth_list_update)+

lemma producer_step_mutex: "producer_step s s' \<Longrightarrow> mutex_ok s \<Longrightarrow> mutex_ok s'"
  by (erule producer_stepE) (fastforce simp: mutex_ok_def nth_list_update)+

lemma worker_step_jobs:
  assumes "worker_step i s s'" and "jobs_ok s"
  shows "jobs_ok s' \<and> all_jobs s' = all_jobs s"
  using assms(1)
proof cases
  case (unlock w)
  then show ?thesis
    using assms(2) mset_jobs_update [of i "tp_workers s" "WJob w"] by (simp add: jobs_ok_def all_jobs_def)
next
  case (run w)
  then have "add_mset w (mset (concat (map job_of (goto s i WLock)))) = mset (concat (map job_of (tp_workers s)))"
    using mset_jobs_update [of i "tp_workers s" WLock] by simp
  then show ?thesis
    using assms(2) run by (simp add: jobs_ok_def all_jobs_def) (metis union_mset_add_mset_right)
qed (use assms(2) mset_jobs_update [of i "tp_workers s"] in \<open>auto simp: jobs_ok_def all_jobs_def\<close>)

lemma producer_step_jobs:
  assumes "producer_step s s'" and "jobs_ok s"
  shows "jobs_ok s' \<and> all_jobs s' = all_jobs s"
  using assms(1)
proof cases
  case (signal i)
  then show ?thesis
    using assms(2) mset_jobs_update [of i "tp_workers s" WWoken] by (simp add: jobs_ok_def all_jobs_def)
qed (use assms(2) in \<open>auto simp: jobs_ok_def all_jobs_def\<close>)


lemma worker_step_awake:
  assumes "worker_step i s s'" and "mutex_ok s" and "awake_ok s"
  shows "awake_ok s'"
  using assms(1)
proof cases
  case wait
  then show ?thesis using assms(3) by (auto simp: awake_ok_def)
next
  case take_job
  then show ?thesis using assms(3) set_update_memI [of i "tp_workers s"] by (auto simp: awake_ok_def)
qed (use assms(3) set_update_memI [of i "tp_workers s"] in \<open>fastforce simp: awake_ok_def\<close>)+

lemma producer_step_awake:
  assumes "producer_step s s'" and "awake_ok s"
  shows "awake_ok s'"
  using assms(1)
proof cases
  case (signal i)
  then show ?thesis using assms(2) set_update_memI [of i "tp_workers s" WWoken] by (auto simp: awake_ok_def)
next
  case signal_none
  then show ?thesis using assms(2) by (cases "tp_workers s") (auto simp: awake_ok_def)
qed (use assms(2) in \<open>auto simp: awake_ok_def\<close>)

lemma pool_step_ok:
  assumes "pool_step s s'" and "pool_ok s"
  shows "pool_ok s' \<and> all_jobs s' = all_jobs s \<and> length (tp_workers s') = length (tp_workers s)"
  using assms(1)
proof cases
  case (worker i)
  moreover have "length (tp_workers s') = length (tp_workers s)" using worker by cases auto
  ultimately show ?thesis
    using assms(2) worker_step_mutex worker_step_jobs worker_step_awake unfolding pool_ok_def by blast
next
  case producer
  moreover have "length (tp_workers s') = length (tp_workers s)" using producer by cases auto
  ultimately show ?thesis
    using assms(2) producer_step_mutex producer_step_jobs producer_step_awake unfolding pool_ok_def by blast
qed

section \<open>Progress\<close>

text \<open>A bound on the steps still to come; every step lowers it.\<close>

fun w_cost :: "'w worker_pc \<Rightarrow> nat" where
  "w_cost WWait = 0" | "w_cost WTest = 1" | "w_cost WLock = 2" | "w_cost WWoken = 2"
| "w_cost (WJob w) = 3" | "w_cost (WUnlock w) = 4"

fun p_cost :: "'w producer_pc \<Rightarrow> nat" where
  "p_cost PIdle = 0" | "p_cost PUnlock = 1" | "p_cost PSignal = 4" | "p_cost (PPush w) = 9"
| "p_cost (PLock w) = 10"

definition pool_cost :: "'w pool \<Rightarrow> nat" where
  "pool_cost s = sum_list (map w_cost (tp_workers s)) + 4 * length (tp_queue s) + p_cost (tp_producer s)
     + 11 * length (tp_todo s) + 3 * tp_spurious s"

lemma cost_update:
  "i < length pcs \<Longrightarrow> sum_list (map w_cost (pcs[i := pc])) + w_cost (pcs ! i)
     = sum_list (map w_cost pcs) + w_cost pc"
  by (induction pcs arbitrary: i) (auto simp: nth_Cons split: nat.splits)

lemma worker_step_cost:
  "worker_step i s s' \<Longrightarrow> \<exists>pc. i < length (tp_workers s) \<and> tp_workers s' = goto s i pc \<and>
     tp_producer s' = tp_producer s \<and> tp_todo s' = tp_todo s \<and>
     w_cost pc + 4 * length (tp_queue s') + 3 * tp_spurious s'
       < w_cost (tp_workers s ! i) + 4 * length (tp_queue s) + 3 * tp_spurious s"
  by (erule worker_stepE) auto

lemma pool_step_cost:
  assumes "pool_step s s'"
  shows "pool_cost s' < pool_cost s"
  using assms
proof cases
  case (worker i)
  from worker_step_cost [OF this] obtain pc where "i < length (tp_workers s)" "tp_workers s' = goto s i pc"
      "tp_producer s' = tp_producer s" "tp_todo s' = tp_todo s"
      "w_cost pc + 4 * length (tp_queue s') + 3 * tp_spurious s'
       < w_cost (tp_workers s ! i) + 4 * length (tp_queue s) + 3 * tp_spurious s" by blast
  then show ?thesis using cost_update [of i "tp_workers s" pc] by (simp add: pool_cost_def)
next
  case producer
  then show ?thesis
  proof cases
    case (signal i)
    then show ?thesis using cost_update [of i "tp_workers s" WWoken] by (simp add: pool_cost_def)
  qed (auto simp: pool_cost_def)
qed

text \<open>A state in which nothing can happen: every job has been done.\<close>

lemma worker_can_step:
  assumes "at s i pc" and "pc \<noteq> WWait" and "holds_mu pc \<or> tp_mu s = None \<or> (\<exists>w. pc = WJob w)"
  shows "\<exists>s'. worker_step i s s'"
proof (cases pc)
  case WTest
  show ?thesis
  proof (cases "tp_queue s")
    case Nil
    show ?thesis using worker_step.wait [OF _ Nil] assms(1) WTest by blast
  next
    case (Cons w q)
    show ?thesis using worker_step.take_job [OF _ Cons] assms(1) WTest by blast
  qed
next
  case WLock
  then show ?thesis using worker_step.lock [of i s] assms by auto
next
  case WWoken
  then show ?thesis using worker_step.relock [of i s] assms by auto
next
  case (WUnlock w)
  then show ?thesis using worker_step.unlock [of i s w] assms(1) by auto
next
  case (WJob w)
  then show ?thesis using worker_step.run [of i s w] assms(1) by auto
qed (use assms in simp)

lemma producer_can_step:
  assumes "p_holds_mu (tp_producer s) \<or> tp_mu s = None"
    and "tp_producer s \<noteq> PIdle \<or> tp_todo s \<noteq> []"
  shows "\<exists>s'. producer_step s s'"
proof (cases "tp_producer s")
  case PIdle
  then obtain w ws where "tp_todo s = w # ws" using assms(2) by (cases "tp_todo s") auto
  then show ?thesis using producer_step.call [OF PIdle] by blast
next
  case (PLock w)
  then show ?thesis using producer_step.plock [OF PLock] assms(1) by auto
next
  case (PPush w)
  then show ?thesis using producer_step.push [OF PPush] by blast
next
  case PSignal
  show ?thesis
  proof (cases "WWait \<in> set (tp_workers s)")
    case True
    then obtain i where "at s i WWait" by (auto simp: in_set_conv_nth)
    then show ?thesis using producer_step.signal [OF PSignal] by blast
  next
    case False
    then show ?thesis using producer_step.signal_none [OF PSignal] by blast
  qed
next
  case PUnlock
  then show ?thesis using producer_step.punlock [OF PUnlock] by blast
qed

lemma stuck_mu:
  assumes "pool_ok s" and "\<nexists>s'. pool_step s s'"
  shows "tp_mu s = None"
proof (cases "tp_mu s")
  case (Some ow)
  have no: "\<nexists>s'. producer_step s s'" "\<nexists>s' i. worker_step i s s'"
    using assms(2) pool_step.intros by blast+
  have m: "mutex_ok s" using assms(1) by (simp add: pool_ok_def)
  show ?thesis
  proof (cases ow)
    case Producer
    then have "p_holds_mu (tp_producer s)" using m Some by (simp add: mutex_ok_def)
    then have False using no(1) producer_can_step [of s] by (cases "tp_producer s") auto
    then show ?thesis ..
  next
    case (Worker i)
    then have "i < length (tp_workers s)" "holds_mu (tp_workers s ! i)"
      using m Some by (auto simp: mutex_ok_def)
    then have False using no(2) worker_can_step [of i s] by (metis holds_mu.simps(4))
    then show ?thesis ..
  qed
qed

lemma stuck_done:
  assumes "pool_ok s" and "\<nexists>s'. pool_step s s'"
  shows "tp_queue s = [] \<and> tp_started s = all_jobs s \<and> mset (tp_done s) = mset (all_jobs s)"
proof -
  note mu = stuck_mu [OF assms]
  have no: "\<nexists>s'. producer_step s s'" "\<nexists>s' i. worker_step i s s'"
    using assms(2) pool_step.intros by blast+
  have all: "tp_workers s ! i = WWait" if "i < length (tp_workers s)" for i
    using worker_can_step [of i s] that mu no(2) by blast
  then have w: "\<forall>pc \<in> set (tp_workers s). pc = WWait" by (auto simp: in_set_conv_nth)
  have p: "tp_producer s = PIdle" "tp_todo s = []" using no(1) producer_can_step [of s] mu by blast+
  have "tp_queue s = []" using assms(1) w p by (auto simp: pool_ok_def awake_ok_def)
  moreover have "concat (map job_of (tp_workers s)) = []" using w by auto
  ultimately show ?thesis
    using assms(1) p by (simp add: pool_ok_def jobs_ok_def all_jobs_def del: concat_eq_Nil_conv)
qed

lemma pool_run:
  assumes "(pool_step ^^ n) s s'" and "pool_ok s"
  shows "pool_ok s' \<and> all_jobs s' = all_jobs s \<and> length (tp_workers s') = length (tp_workers s) \<and>
    pool_cost s' + n \<le> pool_cost s"
  using assms(1)
proof (induction n arbitrary: s')
  case (Suc n)
  then obtain t where "(pool_step ^^ n) s t" "pool_step t s'" by auto
  then show ?case using Suc.IH [of t] pool_step_ok [of t s'] pool_step_cost [of t s'] by fastforce
qed (use assms(2) in simp)

lemma pool_init_ok:
  assumes "thread_pool_init k jobs spurious = Inr s"
  shows "pool_ok s" and "all_jobs s = jobs" and "length (tp_workers s) = k"
    and "pool_cost s = 2 * k + 11 * length jobs + 3 * spurious"
proof -
  have s: "0 < k" "s = \<lparr>tp_workers = replicate k WLock, tp_queue = [], tp_mu = None, tp_producer = PIdle,
          tp_todo = jobs, tp_started = [], tp_done = [], tp_spurious = spurious\<rparr>"
    using assms by (auto simp: thread_pool_init_def bindr_eq_Inr)
  have "mutex_ok s" using s(2) by (simp add: mutex_ok_def)
  moreover have "concat (map job_of (replicate k (WLock :: 'a worker_pc))) = []" by (induction k) auto
  then have "jobs_ok s" using s(2) by (simp add: jobs_ok_def)
  moreover have "awake_ok s" using s by (simp add: awake_ok_def)
  ultimately show "pool_ok s" by (simp add: pool_ok_def)
  show "all_jobs s = jobs" "length (tp_workers s) = k"
    "pool_cost s = 2 * k + 11 * length jobs + 3 * spurious"
    by (simp_all add: s(2) all_jobs_def pool_cost_def sum_list_replicate)
qed

section \<open>Properties\<close>

text \<open>
  C11.  Whatever the interleaving of the workers and of the thread that queues jobs, and with
  spurious wake-ups: jobs are started in the order in which they were queued, each once; a job is
  finished only after it was started, and once; and never do two threads hold the mutex, so that
  the queue is only touched by one.
\<close>

theorem pool_mutual_exclusion:
  assumes "thread_pool_init k jobs spurious = Inr s0" and "(pool_step ^^ m) s0 s"
  shows "(\<exists>rest. jobs = tp_started s @ tp_queue s @ rest) \<and> mset (tp_done s) \<subseteq># mset (tp_started s) \<and>
    (\<forall>i j. i < k \<longrightarrow> j < k \<longrightarrow> holds_mu (tp_workers s ! i) \<longrightarrow> holds_mu (tp_workers s ! j) \<longrightarrow> i = j) \<and>
    (\<forall>i < k. holds_mu (tp_workers s ! i) \<longrightarrow> \<not> p_holds_mu (tp_producer s))"
proof -
  note I = pool_init_ok [OF assms(1)]
  note R = pool_run [OF assms(2) I(1)]
  have m: "mutex_ok s" and j: "jobs_ok s" using R by (auto simp: pool_ok_def)
  have "mset (tp_done s) \<subseteq># mset (tp_started s)"
    using j unfolding jobs_ok_def by (metis mset_subset_eq_add_left)
  moreover have "jobs = all_jobs s" using R I(2) by simp
  then have "\<exists>rest. jobs = tp_started s @ tp_queue s @ rest" unfolding all_jobs_def by blast
  ultimately show ?thesis using m R I(3) by (auto simp: mutex_ok_def)
qed

definition demo_pool :: "nat pool" where
  "demo_pool = \<lparr>tp_workers = [WLock, WLock], tp_queue = [], tp_mu = None, tp_producer = PIdle,
     tp_todo = [7, 8], tp_started = [], tp_done = [], tp_spurious = 1\<rparr>"

definition demo_pool2 :: "nat pool" where
  "demo_pool2 = demo_pool\<lparr>tp_workers := [WLock, WTest], tp_mu := Some (Worker 1), tp_producer := PLock 7,
     tp_todo := [8]\<rparr>"

lemma demo_pool_run: "thread_pool_init 2 [7, 8] 1 = Inr demo_pool" "(pool_step ^^ 2) demo_pool demo_pool2"
proof -
  show "thread_pool_init 2 [7, 8] 1 = Inr demo_pool"
    by (simp add: thread_pool_init_def demo_pool_def numeral_2_eq_2)
  let ?s = "demo_pool\<lparr>tp_producer := PLock 7, tp_todo := [8]\<rparr>"
  have "producer_step demo_pool ?s" by (rule producer_step.call) (simp_all add: demo_pool_def)
  moreover have "worker_step 1 ?s (?s\<lparr>tp_workers := goto ?s 1 WTest, tp_mu := Some (Worker 1)\<rparr>)"
    by (rule worker_step.lock) (simp_all add: demo_pool_def)
  ultimately have "pool_step demo_pool ?s" "pool_step ?s demo_pool2"
    by (auto intro: pool_step.intros simp: demo_pool2_def demo_pool_def)
  then show "(pool_step ^^ 2) demo_pool demo_pool2" by (auto simp: numeral_2_eq_2)
qed

theorem pool_mutual_exclusion_witness:
  "mset (tp_done demo_pool2) \<subseteq># mset (tp_started demo_pool2) \<and> holds_mu (tp_workers demo_pool2 ! 1) \<and>
   (\<exists>rest. [7, 8] = tp_started demo_pool2 @ tp_queue demo_pool2 @ rest)"
  using pool_mutual_exclusion [OF demo_pool_run] by (simp add: demo_pool2_def)

text \<open>
  C12.  Every run ends, and when it does every job is done: no run has more than
  two steps for each worker, eleven for each job and three for each spurious wake-up, and in a
  state from which no thread can move on all jobs have been started, in order, and finished.  No
  wake-up is lost and no thread waits for ever on the mutex.
\<close>

theorem pool_finishes:
  assumes "thread_pool_init k jobs spurious = Inr s0" and "(pool_step ^^ m) s0 s"
  shows "m \<le> 2 * k + 11 * length jobs + 3 * spurious \<and>
    ((\<nexists>s'. pool_step s s') \<longrightarrow> tp_queue s = [] \<and> tp_started s = jobs \<and> mset (tp_done s) = mset jobs)"
proof -
  note I = pool_init_ok [OF assms(1)]
  note R = pool_run [OF assms(2) I(1)]
  have "m \<le> 2 * k + 11 * length jobs + 3 * spurious" using R I(4) by simp
  moreover have "all_jobs s = jobs" "pool_ok s" using R I(2) by simp_all
  ultimately show ?thesis using stuck_done [of s] by simp
qed

theorem pool_finishes_witness:
  "(pool_step ^^ 2) demo_pool demo_pool2 \<and> (2 :: nat) \<le> 2 * 2 + 11 * length [7 :: nat, 8] + 3 * 1"
  using pool_finishes [OF demo_pool_run] demo_pool_run(2) by blast

end
