(* ===== verification/Startup.thy ===== *)
theory Startup
  imports Database Server_Loop Thread_Pool
begin

text \<open>
  The processes as a whole: \<open>main\<close> of the server (\<open>Server.cpp\<close>) and of the client (\<open>client.cpp\<close>) from their start,
  with \<open>fd_set_nb\<close> (\<open>utils.cpp\<close>) and \<open>die\<close> (\<open>common.cpp\<close>).
\<close>

unbundle bit_operations_syntax

section \<open>System calls\<close>

text \<open>An address of the family \<open>AF_INET\<close>; its fields are in network byte order, as \<open>htons\<close> and \<open>htonl\<close> put them.\<close>

record sockaddr_in =
  sin_port :: bytes
  sin_addr :: bytes

definition htons :: "16 word \<Rightarrow> bytes" where
  "htons v = [ucast (drop_bit 8 v), ucast v]"

definition htonl :: "u32 \<Rightarrow> bytes" where
  "htonl v = [ucast (drop_bit 24 v), ucast (drop_bit 16 v), ucast (drop_bit 8 v), ucast v]"

datatype sys = Socket | SetReuseAddr int | Bind int sockaddr_in | Listen int | Connect int sockaddr_in
  | FcntlGetFl int | FcntlSetFl int u32 | Close int

text \<open>
  The kernel answers a call, after the calls so far, with a result and the value of \<open>errno\<close>, which the code has
  set to 0 where it reads it.
\<close>

type_synonym kernel = "sys list \<Rightarrow> sys \<Rightarrow> int \<times> nat"

text \<open>
  A part of a process: the calls so far and \<open>Inl\<close> of a message that \<open>die\<close> has printed before it exited with
  \<open>EXIT_FAILURE\<close>, or \<open>Inr\<close> of the value with which the process goes on.
\<close>

type_synonym 'a proc = "sys list \<times> (string + 'a)"

definition die :: "sys list \<Rightarrow> string \<Rightarrow> 'a proc" where
  "die log msg = (log, Inl msg)"

fun bindp :: "'a proc \<Rightarrow> (sys list \<Rightarrow> 'a \<Rightarrow> 'b proc) \<Rightarrow> 'b proc" where
  "bindp (log, Inl msg) f = (log, Inl msg)"
| "bindp (log, Inr x) f = f log x"

text \<open>\<open>O_NONBLOCK\<close> of Linux.\<close>

definition O_NONBLOCK :: u32 where
  "O_NONBLOCK = 0x800"

definition fd_set_nb :: "kernel \<Rightarrow> sys list \<Rightarrow> int \<Rightarrow> unit proc" where
  "fd_set_nb k log fd =
     (let (flags, errno) = k log (FcntlGetFl fd); log1 = log @ [FcntlGetFl fd] in
      if errno \<noteq> 0 then die log1 ''fcntl error''
      else
        let set = FcntlSetFl fd (word_of_int flags OR O_NONBLOCK);
            (_, errno1) = k log1 set; log2 = log1 @ [set] in
        if errno1 \<noteq> 0 then die log2 ''fcntl error'' else (log2, Inr ()))"

section \<open>The server\<close>

text \<open>\<open>main\<close> up to its loop: the descriptor that listens, the state of the server and the pool of threads.\<close>

definition server_addr :: sockaddr_in where
  "server_addr = \<lparr>sin_port = htons 1234, sin_addr = htonl 0\<rparr>"

definition server_start :: "kernel \<Rightarrow> (nat \<Rightarrow> u64) \<Rightarrow> (nat \<Rightarrow> sock) \<Rightarrow> 'w list \<Rightarrow> nat \<Rightarrow>
    (int \<times> server res \<times> 'w pool res) proc" where
  "server_start k clock socks todo spurious =
     (let fd = fst (k [] Socket); log = [Socket] in
      if fd < 0 then die log ''socket()''
      else
        let sv = server_init clock socks; pool = thread_pool_init 4 todo spurious;
            log1 = log @ [SetReuseAddr fd];
            rv = fst (k log1 (Bind fd server_addr)); log2 = log1 @ [Bind fd server_addr] in
        if rv \<noteq> 0 then die log2 ''bind()''
        else
          let rv1 = fst (k log2 (Listen fd)); log3 = log2 @ [Listen fd] in
          if rv1 \<noteq> 0 then die log3 ''listen()''
          else bindp (fd_set_nb k log3 fd) (\<lambda>log4 _. (log4, Inr (fd, sv, pool))))"

text \<open>What \<open>poll\<close> returns: an error, or what is ready.\<close>

datatype polled = PollError | Polled "accepted option" "nat \<Rightarrow> bool"

datatype outcome = Died string | Fault fault | Running server

text \<open>The loop for as long as results of \<open>poll\<close> are given; the arguments of \<open>poll\<close> are computed before it fails.\<close>

fun server_loop :: "polled list \<Rightarrow> server \<Rightarrow> outcome" where
  "server_loop [] sv = Running sv"
| "server_loop (PollError # ps) sv =
     (case bindr (poll_args (sv_conns sv) (sv_fd2conn sv)) (\<lambda>_. next_timer_ms sv) of
        Inl e \<Rightarrow> Fault e
      | Inr _ \<Rightarrow> Died ''poll()'')"
| "server_loop (Polled acc ready # ps) sv =
     (case server_turn sv acc ready of Inl e \<Rightarrow> Fault e | Inr sv1 \<Rightarrow> server_loop ps sv1)"

definition server_main :: "kernel \<Rightarrow> (nat \<Rightarrow> u64) \<Rightarrow> (nat \<Rightarrow> sock) \<Rightarrow> polled list \<Rightarrow> sys list \<times> outcome" where
  "server_main k clock socks ps =
     (case server_start k clock socks ([] :: addr list) 0 of
        (log, Inl msg) \<Rightarrow> (log, Died msg)
      | (log, Inr (fd, sv, pool)) \<Rightarrow> (log, case bindr sv (\<lambda>sv1. bindr pool (\<lambda>_. Inr sv1)) of
          Inl e \<Rightarrow> Fault e | Inr sv1 \<Rightarrow> server_loop ps sv1))"

section \<open>The client\<close>

definition client_addr :: sockaddr_in where
  "client_addr = \<lparr>sin_port = htons 1234, sin_addr = htonl 0x7F000001\<rparr>"

text \<open>\<open>main\<close> of the client: its exit status and what it prints.  Unless it faults it closes the socket.\<close>

definition client_start :: "kernel \<Rightarrow> sock \<Rightarrow> bytes list \<Rightarrow> (sock \<times> (nat \<times> item list) res) proc" where
  "client_start k s argv =
     (let fd = fst (k [] Socket); log = [Socket] in
      if fd < 0 then die log ''socket()''
      else
        let rv = fst (k log (Connect fd client_addr)); log1 = log @ [Connect fd client_addr] in
        if rv \<noteq> 0 then die log1 ''connect()''
        else
          let (s1, r) = client_main s (drop 1 argv) in
          (case r of Inl e \<Rightarrow> log1 | Inr _ \<Rightarrow> log1 @ [Close fd], Inr (s1, r)))"

lemma bindp_Inr: "bindp p f = (log, Inr y) \<longleftrightarrow> (\<exists>log' x. p = (log', Inr x) \<and> f log' x = (log, Inr y))"
  by (cases "(p, f)" rule: bindp.cases) auto

lemma server_start_up:
  "server_start k clock socks todo spurious = (log, Inr x) \<Longrightarrow>
    \<exists>fd. x = (fd, server_init clock socks, thread_pool_init 4 todo spurious)"
  by (auto simp: server_start_def Let_def die_def bindp_Inr split: if_splits)

section \<open>The listening socket\<close>

text \<open>What the kernel knows of a descriptor, and what a call that does not fail changes; only a bound socket can listen.\<close>

record ksock =
  ks_bound :: "sockaddr_in option"
  ks_listening :: bool
  ks_flags :: u32

definition failed :: "sys \<Rightarrow> int \<times> nat \<Rightarrow> bool" where
  "failed c r = (case c of
       FcntlGetFl fd \<Rightarrow> snd r \<noteq> 0 | FcntlSetFl fd v \<Rightarrow> snd r \<noteq> 0 | Socket \<Rightarrow> fst r < 0 | _ \<Rightarrow> fst r \<noteq> 0)"

definition call_effect :: "sys \<Rightarrow> (int \<Rightarrow> ksock) \<Rightarrow> int \<Rightarrow> ksock" where
  "call_effect c f = (case c of
       Bind fd a \<Rightarrow> f(fd := (f fd)\<lparr>ks_bound := Some a\<rparr>)
     | Listen fd \<Rightarrow> f(fd := (f fd)\<lparr>ks_listening := ks_bound (f fd) \<noteq> None\<rparr>)
     | FcntlSetFl fd v \<Rightarrow> f(fd := (f fd)\<lparr>ks_flags := v\<rparr>)
     | _ \<Rightarrow> f)"

fun kstate :: "kernel \<Rightarrow> (int \<Rightarrow> ksock) \<Rightarrow> sys list \<Rightarrow> sys list \<Rightarrow> int \<Rightarrow> ksock" where
  "kstate k f past [] = f"
| "kstate k f past (c # cs) = kstate k (if failed c (k past c) then f else call_effect c f) (past @ [c]) cs"

text \<open>The kernel reports the flags a descriptor has.\<close>

definition truthful :: "kernel \<Rightarrow> (int \<Rightarrow> ksock) \<Rightarrow> bool" where
  "truthful k f \<longleftrightarrow> (\<forall>log fd. \<not> failed (FcntlGetFl fd) (k log (FcntlGetFl fd)) \<longrightarrow>
     fst (k log (FcntlGetFl fd)) = uint (ks_flags (kstate k f [] log fd)))"

fun message :: "sys \<Rightarrow> string" where
  "message Socket = ''socket()''"
| "message (Bind _ _) = ''bind()''"
| "message (Listen _) = ''listen()''"
| "message _ = ''fcntl error''"

lemma truthful_flags:
  assumes "truthful k f" and "k log (FcntlGetFl fd) = (v, 0)"
  shows "(word_of_int v :: u32) = ks_flags (kstate k f [] log fd)"
proof -
  have "\<not> failed (FcntlGetFl fd) (k log (FcntlGetFl fd))" using assms(2) by (simp add: failed_def)
  then have "fst (k log (FcntlGetFl fd)) = uint (ks_flags (kstate k f [] log fd))"
    using assms(1) unfolding truthful_def by blast
  then show ?thesis using assms(2) by simp
qed

text \<open>
  C36.  The start of the server, for any kernel, whichever of its calls fail.  When the server comes to its loop, the
  socket it polls first is bound to port 1234 of every address, and was so when it was told to listen, and it is
  non-blocking with its other flags as before; the process has changed no other descriptor.  Otherwise the process has
  exited with the message for its last call, which has failed, and has changed no flags.
\<close>

theorem server_listens:
  assumes "truthful k f" and "server_start k clock socks todo spurious = (log, r)" and "fd = fst (k [] Socket)"
  shows "case r of
      Inr (l, _) \<Rightarrow> l = fd \<and> 0 \<le> fd \<and> kstate k f [] log = f(fd := \<lparr>ks_bound = Some \<lparr>sin_port = [4, 210], sin_addr = [0, 0, 0, 0]\<rparr>,
        ks_listening = True, ks_flags = ks_flags (f fd) OR O_NONBLOCK\<rparr>)
    | Inl msg \<Rightarrow> \<exists>past c. log = past @ [c] \<and> failed c (k past c) \<and> msg = message c \<and>
        (\<forall>x. ks_flags (kstate k f [] log x) = ks_flags (f x))"
proof -
  have addr: "server_addr = \<lparr>sin_port = [4, 210], sin_addr = [0, 0, 0, 0]\<rparr>"
    by (simp add: server_addr_def htons_def htonl_def)
  let ?l3 = "[Socket, SetReuseAddr fd, Bind fd server_addr, Listen fd]"
  let ?l4 = "?l3 @ [FcntlGetFl fd]"
  show ?thesis
  proof (cases "fd < 0 \<or> fst (k [Socket, SetReuseAddr fd] (Bind fd server_addr)) \<noteq> 0 \<or>
      fst (k [Socket, SetReuseAddr fd, Bind fd server_addr] (Listen fd)) \<noteq> 0 \<or> snd (k ?l3 (FcntlGetFl fd)) \<noteq> 0")
    case True
    then show ?thesis
      using assms(2) unfolding server_start_def assms(3) [symmetric] Let_def die_def fd_set_nb_def
      by (auto simp: failed_def call_effect_def append_eq_Cons_conv assms(3) [symmetric] split: if_splits prod.splits)
  next
    case False
    obtain v where v: "k ?l3 (FcntlGetFl fd) = (v, 0)" using False by (metis prod.collapse)
    have up: "kstate k f [] ?l3 = f(fd := (f fd)\<lparr>ks_bound := Some server_addr, ks_listening := True\<rparr>)"
      using False by (simp add: failed_def call_effect_def assms(3) [symmetric])
    then have flags: "(word_of_int v :: u32) = ks_flags (f fd)" using truthful_flags [OF assms(1) v] by simp
    let ?set = "FcntlSetFl fd (ks_flags (f fd) OR O_NONBLOCK)"
    obtain w e where w: "k ?l4 ?set = (w, e)" by fastforce
    have run: "server_start k clock socks todo spurious = (if e \<noteq> 0 then (?l4 @ [?set], Inl ''fcntl error'')
        else (?l4 @ [?set], Inr (fd, server_init clock socks, thread_pool_init 4 todo spurious)))"
      using False v w flags by (simp add: server_start_def assms(3) [symmetric] Let_def die_def fd_set_nb_def)
    have st: "kstate k f [] (?l4 @ [?set]) = (if e \<noteq> 0 then kstate k f [] ?l3
        else call_effect ?set (kstate k f [] ?l3))"
      using v w by (simp add: failed_def call_effect_def)
    show ?thesis
    proof (cases "e = 0")
      case True
      then show ?thesis using run st False assms(2) unfolding up by (auto simp: call_effect_def addr)
    next
      case err: False
      then have "log = ?l4 @ [?set]" "r = Inl ''fcntl error''" using run assms(2) by simp_all
      moreover have "failed ?set (k ?l4 ?set)" using err w by (simp add: failed_def)
      moreover have "ks_flags (kstate k f [] (?l4 @ [?set]) x) = ks_flags (f x)" for x using st err unfolding up by simp
      ultimately show ?thesis by auto
    qed
  qed
qed

text \<open>A kernel without errors, where every socket is descriptor 3, with the flags \<open>O_RDWR\<close> (2) at first.\<close>

definition demo_flags :: "sys list \<Rightarrow> int \<Rightarrow> u32" where
  "demo_flags log fd = foldl (\<lambda>v c. case c of FcntlSetFl d w \<Rightarrow> if d = fd then w else v | _ \<Rightarrow> v) 2 log"

definition demo_kernel :: kernel where
  "demo_kernel log c = (case c of Socket \<Rightarrow> (3, 0) | FcntlGetFl fd \<Rightarrow> (uint (demo_flags log fd), 0) | _ \<Rightarrow> (0, 0))"

text \<open>The same, but the port is in use.\<close>

definition demo_busy :: kernel where
  "demo_busy log c = (case c of Bind fd a \<Rightarrow> (-1, 98) | _ \<Rightarrow> demo_kernel log c)"

definition demo_fds :: "int \<Rightarrow> ksock" where
  "demo_fds fd = \<lparr>ks_bound = None, ks_listening = False, ks_flags = 2\<rparr>"

lemma demo_kstate:
  assumes "\<forall>log fd v. \<not> failed (FcntlSetFl fd v) (k log (FcntlSetFl fd v))"
  shows "ks_flags (kstate k f past log fd) = foldl (\<lambda>v c. case c of FcntlSetFl d w \<Rightarrow> if d = fd then w else v | _ \<Rightarrow> v) (ks_flags (f fd)) log"
  using assms by (induction log arbitrary: f past) (auto simp: call_effect_def split: sys.splits)

lemma demo_truthful: "truthful demo_kernel demo_fds" "truthful demo_busy demo_fds"
proof -
  have "\<not> failed (FcntlSetFl fd v) (demo_kernel log (FcntlSetFl fd v))" for log fd v
    by (simp add: failed_def demo_kernel_def)
  moreover have "\<not> failed (FcntlSetFl fd v) (demo_busy log (FcntlSetFl fd v))" for log fd v
    by (simp add: failed_def demo_busy_def demo_kernel_def)
  ultimately show "truthful demo_kernel demo_fds" "truthful demo_busy demo_fds"
    by (simp_all add: truthful_def demo_kstate) (simp_all add: demo_busy_def demo_kernel_def demo_flags_def demo_fds_def)
qed

theorem server_listens_witness:
  "(\<exists>log pool. server_start demo_kernel (\<lambda>_. 0) (\<lambda>_. \<lparr>sk_in = [], sk_out = [], sk_sent = []\<rparr>) ([] :: addr list) 0
      = (log, Inr (3, server_init (\<lambda>_. 0) (\<lambda>_. \<lparr>sk_in = [], sk_out = [], sk_sent = []\<rparr>), pool)) \<and>
    kstate demo_kernel demo_fds [] log = demo_fds(3 := \<lparr>ks_bound = Some \<lparr>sin_port = [4, 210], sin_addr = [0, 0, 0, 0]\<rparr>,
      ks_listening = True, ks_flags = 0x802\<rparr>)) \<and>
   (\<exists>log. server_start demo_busy (\<lambda>_. 0) (\<lambda>_. \<lparr>sk_in = [], sk_out = [], sk_sent = []\<rparr>) ([] :: addr list) 0
      = (log, Inl ''bind()''))"
proof (intro conjI, goal_cases)
  case 1
  let ?r = "server_start demo_kernel (\<lambda>_. 0) (\<lambda>_. \<lparr>sk_in = [], sk_out = [], sk_sent = []\<rparr>) ([] :: addr list) 0"
  obtain log r where r: "?r = (log, r)" by fastforce
  have "case ?r of (_, Inl msg) \<Rightarrow> False | _ \<Rightarrow> True" by code_simp
  then obtain l sv pool where up: "r = Inr (l, sv, pool)" unfolding r by (cases r) auto
  have "sv = server_init (\<lambda>_. 0) (\<lambda>_. \<lparr>sk_in = [], sk_out = [], sk_sent = []\<rparr>)"
    using server_start_up [OF r [unfolded up]] by auto
  then show ?case
    using server_listens [OF demo_truthful(1) r refl] r unfolding up
    by (auto simp: demo_kernel_def demo_fds_def O_NONBLOCK_def)
next
  case 2
  let ?r = "server_start demo_busy (\<lambda>_. 0) (\<lambda>_. \<lparr>sk_in = [], sk_out = [], sk_sent = []\<rparr>) ([] :: addr list) 0"
  obtain log r where r: "?r = (log, r)" by fastforce
  have "case ?r of (log, Inl msg) \<Rightarrow> last log = Bind 3 server_addr | _ \<Rightarrow> False" by code_simp
  then obtain msg where down: "r = Inl msg" "last log = Bind 3 server_addr" unfolding r by (cases r) auto
  then have "msg = ''bind()''" using server_listens [OF demo_truthful(2) r refl] by auto
  then show ?case using r down(1) by simp
qed

section \<open>From the start through any number of turns\<close>

text \<open>The states of the database a server passes through when its clients send commands of \<open>C\<close> only.\<close>

inductive lives :: "bytes list set \<Rightarrow> gdata \<Rightarrow> gdata \<Rightarrow> bool" for C g0 where
  start: "lives C g0 g0"
| command: "lives C g0 g \<Longrightarrow> cmd \<in> C \<Longrightarrow> do_request g cmd [] = Inr (g', r, out) \<Longrightarrow> lives C g0 g'"
| clock: "lives C g0 g \<Longrightarrow> get_monotonic_usec g = (now, g') \<Longrightarrow> lives C g0 g'"
| expiry: "lives C g0 g \<Longrightarrow> expire_loop 0 now g = Inr g' \<Longrightarrow> lives C g0 g'"

lemma lives_trans: "lives C b c \<Longrightarrow> lives C a b \<Longrightarrow> lives C a c"
  by (induction rule: lives.induct) (auto intro: lives.intros)

lemma runs_lives: "runs C a b \<Longrightarrow> lives C a b"
  by (induction rule: runs.induct) (auto intro: lives.intros)

lemma evolves_lives: "evolves C a b \<Longrightarrow> lives C a b"
  by (induction rule: evolves.induct) (auto intro: lives.intros lives_trans runs_lives)

text \<open>What the kernel and the allocator promise in every turn (\<open>fresh_conn\<close>).\<close>

fun turns_fresh :: "bytes list set \<Rightarrow> server \<Rightarrow> polled list \<Rightarrow> bool" where
  "turns_fresh C sv [] = True"
| "turns_fresh C sv (PollError # ps) = True"
| "turns_fresh C sv (Polled acc ready # ps) = (fresh_conn C sv acc \<and>
     (case server_turn sv acc ready of Inl e \<Rightarrow> True | Inr sv1 \<Rightarrow> turns_fresh C sv1 ps))"

text \<open>A fault ends the first turn that faults, and this turn blames its last call or the removal of expired keys.\<close>

definition outcome_ok :: "bytes list set \<Rightarrow> gdata \<Rightarrow> server \<Rightarrow> polled list \<Rightarrow> outcome \<Rightarrow> bool" where
  "outcome_ok C g0 sv ps out \<longleftrightarrow> (case out of
       Died msg \<Rightarrow> True
     | Fault e \<Rightarrow> \<exists>qs acc ready rs sv' xs. ps = qs @ Polled acc ready # rs \<and> server_loop qs sv = Running sv' \<and>
         lives C g0 (sv_g sv') \<and> server_ok C sv' xs \<and> server_turn sv' acc ready = Inl e \<and> turn_blames C sv' acc ready e
     | Running sv' \<Rightarrow> lives C g0 (sv_g sv') \<and> (\<exists>xs. server_ok C sv' xs))"

lemma outcome_later:
  assumes "outcome_ok C g0 sv1 ps out" and "server_turn sv acc ready = Inr sv1"
  shows "outcome_ok C g0 sv (Polled acc ready # ps) out"
proof (cases out)
  case (Fault e)
  obtain qs acc' ready' rs sv' xs where W: "ps = qs @ Polled acc' ready' # rs" "server_loop qs sv1 = Running sv'"
      "lives C g0 (sv_g sv')" "server_ok C sv' xs" "server_turn sv' acc' ready' = Inl e" "turn_blames C sv' acc' ready' e"
    using assms(1) Fault by (auto simp: outcome_ok_def)
  show ?thesis
    using W assms(2) unfolding Fault outcome_ok_def outcome.case
    by (intro exI [of _ "Polled acc ready # qs"] exI [of _ acc'] exI [of _ ready'] exI [of _ rs] exI [of _ sv'] exI [of _ xs]) simp
qed (use assms in \<open>auto simp: outcome_ok_def\<close>)

lemma server_loop_ok:
  assumes "server_ok C sv xs" and "lives C g0 (sv_g sv)" and "turns_fresh C sv ps"
  shows "outcome_ok C g0 sv ps (server_loop ps sv)"
  using assms
proof (induction ps sv arbitrary: xs rule: server_loop.induct)
  case (1 sv)
  then show ?case by (auto simp: outcome_ok_def)
next
  case (2 ps sv)
  obtain as where "poll_args (sv_conns sv) (sv_fd2conn sv) = Inr as"
    using poll_args_ok [of sv xs "sv_fd2conn sv"] 2(1) by (auto simp: server_ok_def)
  moreover obtain sv' ms where "next_timer_ms sv = Inr (sv', ms)" using next_timer_ok [OF 2(1)] by blast
  ultimately show ?case by (simp add: outcome_ok_def)
next
  case (3 acc ready ps sv)
  have fresh: "fresh_conn C sv acc" using 3(4) by simp
  from server_turn_run [OF 3(2) fresh, of ready] show ?case
  proof (elim disjE exE conjE)
    fix e assume e: "server_turn sv acc ready = Inl e" "turn_blames C sv acc ready e"
    have "outcome_ok C g0 sv (Polled acc ready # ps) (Fault e)"
      unfolding outcome_ok_def outcome.case
      by (intro exI [of _ "[]"] exI [of _ acc] exI [of _ ready] exI [of _ ps] exI [of _ sv] exI [of _ xs])
        (use e 3(2,3) in simp)
    then show ?thesis using e(1) by simp
  next
    fix sv1 ys g now
    assume turn: "server_turn sv acc ready = Inr sv1" "server_ok C sv1 ys" "evolves C (sv_g sv) g"
        "expire_loop 0 now g = Inr (sv_g sv1)"
    have "lives C g0 (sv_g sv1)"
      by (rule lives.expiry [OF lives_trans [OF evolves_lives [OF turn(3)] 3(3)] turn(4)])
    then have "outcome_ok C g0 sv1 ps (server_loop ps sv1)" using 3(1) [OF turn(1,2)] 3(4) turn(1) by simp
    then show ?thesis using outcome_later [OF _ turn(1)] turn(1) by simp
  qed
qed

lemma server_init_ok:
  obtains sv where "server_init clock socks = Inr sv" and "server_ok C sv []" and "sv_g sv = g_init clock"
    and "sv_socks sv = socks"
proof -
  obtain d where "dList_init [idle_head \<mapsto> \<lparr>d_prev = None, d_next = None\<rparr>] (Some idle_head) = Inr d"
      "ring d idle_head []"
    using ring_init_spec [of "[idle_head \<mapsto> \<lparr>d_prev = None, d_next = None\<rparr>]" idle_head] by auto
  then show ?thesis using that by (simp add: server_init_def server_ok_def conns_ok_def)
qed

lemma server_main_ok:
  assumes "server_init clock socks = Inr sv" and "turns_fresh C sv ps"
  shows "outcome_ok C (g_init clock) sv ps (snd (server_main k clock socks ps))"
proof -
  have sv: "server_ok C sv []" "sv_g sv = g_init clock"
    using server_init_ok [of clock socks C] assms(1) by auto
  obtain log r where S: "server_start k clock socks ([] :: addr list) 0 = (log, r)" by fastforce
  show ?thesis
  proof (cases r)
    case (Inl msg)
    then show ?thesis by (simp add: server_main_def S outcome_ok_def)
  next
    case (Inr x)
    then obtain fd where "r = Inr (fd, server_init clock socks, thread_pool_init 4 [] 0)"
      using server_start_up S by blast
    then have "snd (server_main k clock socks ps) = server_loop ps sv"
      by (simp add: server_main_def S assms(1) thread_pool_init_def)
    then show ?thesis using server_loop_ok [OF sv(1) _ assms(2)] sv(2) lives.start by simp
  qed
qed

text \<open>
  C4.  The server from its start, for any kernel, clock, clients and number of turns, when its clients send the commands
  in \<open>C\<close>: the process exits with a message because a system call has failed, or it runs on in a state where idle list
  and \<open>fd2conn\<close> refer to exactly its connections, or one of the turns ends in a fault.  The turn starts in such a
  state, too, and the fault is that of the last call of \<open>do_request\<close> the turn makes, for a command in \<open>C\<close>, or it is that of
  the removal of expired keys at the end of the turn: no code of the connections, of the timers for idle connections or
  of the loop faults.
\<close>

theorem server_main_safe:
  assumes "server_init clock socks = Inr sv" and "turns_fresh C sv ps"
  shows "case snd (server_main k clock socks ps) of
      Died msg \<Rightarrow> True
    | Running sv' \<Rightarrow> lives C (g_init clock) (sv_g sv') \<and> (\<exists>xs. server_ok C sv' xs)
    | Fault e \<Rightarrow> \<exists>qs acc ready rs sv' xs. ps = qs @ Polled acc ready # rs \<and> server_loop qs sv = Running sv' \<and>
        server_ok C sv' xs \<and> server_turn sv' acc ready = Inl e \<and>
        ((\<exists>before g cmd. turn_calls sv' acc ready = before @ [(g, cmd)] \<and> cmd \<in> C \<and> do_request g cmd [] = Inl e) \<or>
         (\<exists>now g. turn_expiry sv' acc ready = Some (now, g) \<and> expire_loop 0 now g = Inl e))"
  using server_main_ok [OF assms, of k] unfolding outcome_ok_def turn_blames_def
  by (cases "snd (server_main k clock socks ps)") (simp_all, blast)

text \<open>Two turns: a connection is accepted, and its client is heard.\<close>

definition demo_socks :: "bytes \<Rightarrow> nat \<Rightarrow> sock" where
  "demo_socks bs fd = \<lparr>sk_in = [RData bs], sk_out = [WOk 100], sk_sent = []\<rparr>"

definition demo_turns :: "polled list" where
  "demo_turns = [Polled (Some (Accepted 0 9)) (\<lambda>_. False), Polled None (\<lambda>_. True)]"

lemma demo_turns_fresh:
  assumes "sends C bs"
  obtains sv where "server_init (\<lambda>_. 0) (demo_socks bs) = Inr sv" and "turns_fresh C sv demo_turns"
proof -
  obtain sv where sv: "server_init (\<lambda>_. 0) (demo_socks bs) = Inr sv" "server_ok C sv []" "sv_socks sv = demo_socks bs"
    by (rule server_init_ok)
  then have "sv_conns sv = Map.empty" by (simp add: server_ok_def conns_ok_def)
  then have "turns_fresh C sv demo_turns"
    using assms sv(3) by (simp add: demo_turns_def idle_head_def demo_socks_def split: sum.splits)
  then show ?thesis by (rule that [OF sv(1)])
qed

text \<open>The client sends \<open>ZADD\<close> with a score that is no number.\<close>

definition demo_zadd :: "bytes list" where
  "demo_zadd = [lit ''zadd'', lit ''k'', lit ''x'', lit ''a'']"

definition demo_zadd_bytes :: bytes where
  "demo_zadd_bytes = [27, 0, 0, 0, 4, 0, 0, 0, 4, 0, 0, 0, 122, 97, 100, 100, 1, 0, 0, 0, 107, 1, 0, 0, 0, 120, 1, 0, 0, 0, 97]"

theorem server_main_safe_witness:
  "\<exists>sv e qs acc ready rs sv'. server_init (\<lambda>_. 0) (demo_socks demo_zadd_bytes) = Inr sv \<and>
    snd (server_main demo_kernel (\<lambda>_. 0) (demo_socks demo_zadd_bytes) demo_turns) = Fault e \<and>
    demo_turns = qs @ Polled acc ready # rs \<and> server_loop qs sv = Running sv' \<and> server_turn sv' acc ready = Inl e \<and>
    ((\<exists>before g. turn_calls sv' acc ready = before @ [(g, demo_zadd)] \<and> do_request g demo_zadd [] = Inl e) \<or>
     (\<exists>now g. turn_expiry sv' acc ready = Some (now, g) \<and> expire_loop 0 now g = Inl e))"
proof -
  have "frames demo_zadd_bytes = [demo_zadd]" by code_simp
  then have "sends {demo_zadd} demo_zadd_bytes" by (simp add: sends_def)
  then obtain sv where sv: "server_init (\<lambda>_. 0) (demo_socks demo_zadd_bytes) = Inr sv" "turns_fresh {demo_zadd} sv demo_turns"
    by (rule demo_turns_fresh)
  have "case snd (server_main demo_kernel (\<lambda>_. 0) (demo_socks demo_zadd_bytes) demo_turns) of Fault e \<Rightarrow> True | _ \<Rightarrow> False"
    by code_simp
  then obtain e where "snd (server_main demo_kernel (\<lambda>_. 0) (demo_socks demo_zadd_bytes) demo_turns) = Fault e"
    by (auto split: outcome.splits)
  then show ?thesis using server_main_safe [OF sv, of demo_kernel] sv(1) by fastforce
qed

section \<open>Clients of strings\<close>

text \<open>Any command but those on sorted sets and on deadlines, and \<open>DEL\<close>.\<close>

definition plain_cmd :: "bytes list \<Rightarrow> bool" where
  "plain_cmd cmd \<longleftrightarrow> cmd = [] \<or>
     cmd ! 0 \<notin> {lit ''del'', lit ''zadd'', lit ''zscore'', lit ''zrem'', lit ''zquery'', lit ''expire'', lit ''ttl''}"

text \<open>The words of a request are no longer than its frame.\<close>

definition short_cmd :: "bytes list \<Rightarrow> bool" where
  "short_cmd cmd \<longleftrightarrow> (\<forall>w \<in> set cmd. length w \<le> k_max_msg)"

definition framed_plain :: "bytes list set" where
  "framed_plain = {cmd. plain_cmd cmd \<and> short_cmd cmd}"

lemma frames_words: "cmd \<in> set (frames bs) \<Longrightarrow> short_cmd cmd"
proof (induction bs rule: frames.induct)
  case (1 bs)
  let ?len = "unat (rd_le32 (take 4 bs))"
  obtain c where c: "\<not> length bs < 4" "\<not> (?len > k_max_msg \<or> 4 + ?len > length bs)"
      "parse_req (drop 4 bs) ?len = Inr (Some c)" "cmd = c \<or> cmd \<in> set (frames (drop (4 + ?len) bs))"
    using 1(2) unfolding frames.simps [of bs] Let_def
    by (auto split: if_splits sum.splits option.splits dest!: sym [of "Inr (Some _)"])
  have len: "?len \<le> length (drop 4 bs)" "?len \<le> k_max_msg" using c(1,2) by auto
  have "length w \<le> k_max_msg" if "w \<in> set c" for w
  proof -
    have "length (enc_cmd c) \<le> ?len" using parse_req_iff [OF len] c(3) by (metis length_take min.cobounded2)
    then show ?thesis using length_enc_args_arg [OF that] len(2) by simp
  qed
  then show ?case using 1(1) [OF c(1) refl c(2,3)] c(4) by (auto simp: short_cmd_def)
qed

lemma sends_framed: "sends {cmd. plain_cmd cmd} = sends framed_plain"
  using frames_words by (fastforce simp: sends_def framed_plain_def fun_eq_iff)

lemma turns_framed: "turns_fresh {cmd. plain_cmd cmd} sv ps = turns_fresh framed_plain sv ps"
proof -
  have "fresh_conn {cmd. plain_cmd cmd} sv acc = fresh_conn framed_plain sv acc" for sv acc
    by (cases "(framed_plain, sv, acc)" rule: fresh_conn.cases) (simp_all add: sends_framed)
  then show ?thesis
    by (induction framed_plain sv ps rule: turns_fresh.induct) (auto split: sum.splits)
qed

lemma lives_mono: "lives C g0 g \<Longrightarrow> C \<subseteq> D \<Longrightarrow> lives D g0 g"
  by (induction rule: lives.induct) (auto intro: lives.intros)

lemma plain_cases:
  assumes "cmd \<in> framed_plain"
  shows "(\<exists>c. writes_short c \<and> cmd = words c) \<or> do_request g cmd out = Inr (g, RES_ERR, out)"
proof -
  consider "cmd = [lit ''keys'']" | k where "cmd = [lit ''get'', k]" | k v where "cmd = [lit ''set'', k, v]"
    | "do_request g cmd out = Inr (g, RES_ERR, out)"
  proof (cases "cmd ! 0 = lit ''keys'' \<and> length cmd = 1 \<or> cmd ! 0 = lit ''get'' \<and> length cmd = 2 \<or>
      cmd ! 0 = lit ''set'' \<and> length cmd = 3")
    case True
    then show ?thesis
      using that by (auto simp: length_Suc_conv numeral_2_eq_2 numeral_3_eq_3)
  next
    case False
    show ?thesis
    proof (cases "cmd = []")
      case True
      then show ?thesis using that(4) by (simp add: do_request_def)
    next
      case ne: False
      have words: "cmd ! 0 \<noteq> lit ''zadd''" "cmd ! 0 \<noteq> lit ''zscore''" "cmd ! 0 \<noteq> lit ''zrem''" "cmd ! 0 \<noteq> lit ''zquery''"
          "\<not> (cmd ! 0 = lit ''del'' \<and> length cmd = 2)" "\<not> (cmd ! 0 = lit ''expire'' \<and> length cmd = 3)"
          "\<not> (cmd ! 0 = lit ''ttl'' \<and> length cmd = 2)"
        using assms ne by (auto simp: plain_cmd_def framed_plain_def)
      have "\<not> (cmd ! 0 = lit ''keys'' \<and> length cmd = 1)" "\<not> (cmd ! 0 = lit ''get'' \<and> length cmd = 2)"
          "\<not> (cmd ! 0 = lit ''set'' \<and> length cmd = 3)"
        using False by blast+
      then show ?thesis using that(4) unfolding do_request_def by (simp only: ne words if_False simp_thms)
    qed
  qed
  then show ?thesis
  proof cases
    case 1
    then show ?thesis by (intro disjI1 exI [of _ Keys]) simp
  next
    case (2 k)
    then show ?thesis by (intro disjI1 exI [of _ "Get k"]) simp
  next
    case (3 k v)
    then show ?thesis using assms by (intro disjI1 exI [of _ "Set k v"]) (auto simp: framed_plain_def short_cmd_def)
  qed simp
qed

text \<open>A database of strings without deadlines, and one that has as many entries as can be counted.\<close>

definition plain_db :: "gdata \<Rightarrow> bool" where
  "plain_db g \<longleftrightarrow> g_heap g = [] \<and> (\<exists>B. holds_db g B \<and> short B)"

definition full_db :: "gdata \<Rightarrow> bool" where
  "full_db g \<longleftrightarrow> (\<exists>B. holds_db g B \<and> 2 ^ 64 \<le> size B + 1)"

lemma words_heap:
  assumes "do_request g (words c) [] = Inr (g', r, out)"
  shows "g_heap g' = g_heap g"
proof (cases c)
  case (Set k v)
  then show ?thesis
    using assms by (auto simp: do_request_def lit_differ do_set_def Let_def bindr_eq_Inr split: prod.splits)
next
  case (Get k)
  then show ?thesis
    using assms by (auto simp: do_request_def lit_differ do_get_def db_lookup_def Let_def bindr_eq_Inr split: if_splits)
next
  case Keys
  then show ?thesis
    using assms by (auto simp: do_request_def lit_differ do_keys_def Let_def bindr_eq_Inr)
qed

lemma plain_step:
  assumes "plain_db g" and "\<not> full_db g" and "cmd \<in> framed_plain"
  obtains g' r out where "do_request g cmd [] = Inr (g', r, out)" and "plain_db g'"
proof -
  obtain B where B: "g_heap g = []" "holds_db g B" "short B" "size B + 1 < 2 ^ 64"
    using assms(1,2) by (fastforce simp: plain_db_def full_db_def)
  show ?thesis
  proof (cases "do_request g cmd [] = Inr (g, RES_ERR, [])")
    case True
    then show ?thesis using that assms(1) by blast
  next
    case False
    then obtain c where c: "writes_short c" "cmd = words c" using plain_cases [OF assms(3)] by blast
    obtain g' r rep B' where A: "do_request g (words c) [] = Inr (g', r, enc_reply rep)" "holds_db g' B'" "short B'"
      by (rule answer_one [OF B(2-4) c(1)])
    then show ?thesis using that words_heap [OF A(1)] B(1) c(2) by (auto simp: plain_db_def)
  qed
qed

lemma plain_lives:
  assumes "lives framed_plain (g_init clock) g"
  shows "plain_db g \<or> (\<exists>g'. lives framed_plain (g_init clock) g' \<and> full_db g')"
  using assms
proof (induction rule: lives.induct)
  case start
  have "short {#}" by (simp add: short_def)
  then show ?case using fresh_db [of clock] by (auto simp: plain_db_def g_init_def)
next
  case (command g cmd g' r out)
  show ?case
  proof (cases "plain_db g \<and> \<not> full_db g")
    case True
    then show ?thesis using plain_step [of g cmd] command by auto
  qed (use command in blast)
next
  case (clock g now g')
  have g': "g_M g' = g_M g" "g_db g' = g_db g" "g_heap g' = g_heap g"
    using clock(2) by (auto simp: get_monotonic_usec_def)
  have "ent g' = ent g" by (simp add: ent_def fun_eq_iff g'(1))
  then have "db_ok g' bs1 bs2 = db_ok g bs1 bs2" "contents g' = contents g" for bs1 bs2
    by (simp_all add: db_ok_def contents_def fun_eq_iff g'(1,2))
  then have "plain_db g' = plain_db g" by (simp add: plain_db_def holds_db_def g'(3))
  then show ?case using clock(3) by blast
next
  case (expiry g now g')
  have "expire_loop 0 now g = Inr g" if "plain_db g"
    using that by (subst expire_loop.simps) (simp add: plain_db_def)
  then show ?case using expiry by auto
qed

lemma plain_no_fault:
  assumes "plain_db g" and "\<not> full_db g"
  shows "cmd \<in> framed_plain \<Longrightarrow> do_request g cmd [] \<noteq> Inl e" and "expire_loop 0 now g = Inr g"
proof -
  show "do_request g cmd [] \<noteq> Inl e" if "cmd \<in> framed_plain"
    using plain_step [OF assms that] by (metis sum.simps(4))
  show "expire_loop 0 now g = Inr g" using assms(1) by (subst expire_loop.simps) (simp add: plain_db_def)
qed

lemma plain_blame:
  assumes "lives framed_plain (g_init clock) (sv_g sv)" and "turn_blames framed_plain sv acc ready e"
  shows "\<exists>g. lives framed_plain (g_init clock) g \<and> full_db g"
proof -
  obtain g where g: "evolves framed_plain (sv_g sv) g"
      "(\<exists>cmd \<in> framed_plain. do_request g cmd [] = Inl e) \<or> (\<exists>now. expire_loop 0 now g = Inl e)"
    using assms(2) unfolding turn_blames_def by blast
  have live: "lives framed_plain (g_init clock) g" by (rule lives_trans [OF evolves_lives [OF g(1)] assms(1)])
  have "\<not> (plain_db g \<and> \<not> full_db g)" using g(2) plain_no_fault [of g] by (metis sum.simps(4))
  then show ?thesis using plain_lives [OF live] live by blast
qed


text \<open>A client that sets a key to the bytes of a request for \<open>DEL\<close>.\<close>

definition demo_set_bytes :: bytes where
  "demo_set_bytes = [40, 0, 0, 0, 3, 0, 0, 0, 3, 0, 0, 0, 115, 101, 116, 1, 0, 0, 0, 107,
     20, 0, 0, 0, 16, 0, 0, 0, 2, 0, 0, 0, 3, 0, 0, 0, 100, 101, 108, 1, 0, 0, 0, 107]"


section \<open>The client\<close>

lemma server_address: "sin_port server_addr = [4, 210]" "sin_addr server_addr = [0, 0, 0, 0]"
    "sin_port client_addr = sin_port server_addr" "sin_addr client_addr = [127, 0, 0, 1]"
  by (simp_all add: server_addr_def client_addr_def htons_def htonl_def)

text \<open>
  C24.  The client from its start: when its socket is made and connected, it calls nothing but \<open>connect\<close> to port 1234 of
  the local host and, at the end, \<open>close\<close>; it sends the words of its command line as one request and prints the
  items of the reply it receives, both cut up in any way, and exits with status 1.
\<close>

theorem client_process:
  assumes "fst (k [] Socket) = fd" and "0 \<le> fd" and "fst (k [Socket] (Connect fd client_addr)) = 0"
    and "send_req cmd = Some msg" and "accepting (sk_out s)" and "length msg \<le> room (sk_out s)"
    and "flowing (sk_in s)"
    and "inputs (sk_in s) = le32 (of_nat (length (put_reply [] r))) @ put_reply [] r @ rest"
    and "length (put_reply [] r) \<le> k_max_msg"
  shows "\<exists>s'. client_start k s (prog # cmd) = ([Socket, Connect fd client_addr, Close fd], Inr (s', Inr (1, reply_items r))) \<and>
    sk_sent s' = sk_sent s @ msg \<and> inputs (sk_in s') = rest"
  using client_run [OF assms(4-9)] assms(1-3) by (auto simp: client_start_def Let_def)

theorem client_process_witness:
  "\<exists>s' msg. send_req [[107]] = Some msg \<and>
     client_start demo_kernel demo_sock [[114], [107]]
       = ([Socket, Connect 3 client_addr, Close 3], Inr (s', Inr (1, [IStr [97]]))) \<and>
     sk_sent s' = msg \<and> inputs (sk_in s') = [5]"
proof -
  have f: "send_req [[107]] = Some [9, 0, 0, 0, 1, 0, 0, 0, 1, 0, 0, 0, 107]" by code_simp
  have n: "length (put_reply [] (RStr [97])) \<le> k_max_msg" by (simp add: out_defs k_max_msg_def)
  have k: "fst (demo_kernel [] Socket) = 3" "fst (demo_kernel [Socket] (Connect 3 client_addr)) = 0"
    by (simp_all add: demo_kernel_def)
  show ?thesis
    using client_process [OF k(1) _ k(2) f demo_sock_ok(2) _ demo_sock_ok(1,3) n] demo_sock_ok(4) f
    by (simp add: demo_sock_def)
qed

end
