(* ===== verification/AVL_Delete.thy ===== *)
theory AVL_Delete
  imports ZSet_Order
begin

text \<open>
  \<open>avl_del\<close> of any node of a tree: of the root or another, with and without a right child, whose successor
  takes its place.
\<close>

section \<open>Renaming a node\<close>

text \<open>\<open>*victim = *node\<close> with the pointers to it: the tree with one address replaced by another.\<close>

definition ren_node :: "(addr \<Rightarrow> addr) \<Rightarrow> AVLNode \<Rightarrow> AVLNode" where
  "ren_node f n = n\<lparr>a_left := map_option f (a_left n), a_right := map_option f (a_right n),
     a_parent := map_option f (a_parent n)\<rparr>"

lemma avl_map [simp]: "avl (map_tree f t) = avl t"
  by (induction t) simp_all

lemma tree_at_rename:
  assumes "tree_at m p par t" and "\<forall>b \<in> set_tree t. m' (f b) = map_option (ren_node f) (m b)"
  shows "tree_at m' (map_option f p) (map_option f par) (map_tree f t)"
  using assms
proof (induction t arbitrary: p par)
  case (Node l a r)
  obtain n where n: "p = Some a" "m a = Some n" "a_parent n = par"
      "a_depth n = of_nat (height (Node l a r))" "a_count n = of_nat (size (Node l a r))"
      "tree_at m (a_left n) (Some a) l" "tree_at m (a_right n) (Some a) r"
    using Node.prems(1) by auto
  have "tree_at m' (map_option f (a_left n)) (Some (f a)) (map_tree f l)"
      "tree_at m' (map_option f (a_right n)) (Some (f a)) (map_tree f r)"
    using Node.IH(1) [OF n(6)] Node.IH(2) [OF n(7)] Node.prems(2) by auto
  then show ?case using n Node.prems(2) by (auto simp: ren_node_def)
qed simp

text \<open>Where the pointers of a node in a tree lead.\<close>

lemma tree_child:
  assumes "tree_at m p par t" and "b \<in> set_tree t" and "m b = Some n" and "a_left n = Some c \<or> a_right n = Some c"
  shows "c \<in> set_tree t \<and> (\<exists>k. m c = Some k \<and> a_parent k = Some b)"
  using assms
proof (induction t arbitrary: p par)
  case (Node l a r)
  obtain k where k: "m a = Some k" "tree_at m (a_left k) (Some a) l" "tree_at m (a_right k) (Some a) r"
    using Node.prems(1) by auto
  have kid: "q = Some d \<Longrightarrow> tree_at m q (Some a) u \<Longrightarrow> d \<in> set_tree u \<and> (\<exists>k. m d = Some k \<and> a_parent k = Some a)"
    for q d u by (cases u) auto
  consider "b = a" | "b \<in> set_tree l" | "b \<in> set_tree r" using Node.prems(2) by auto
  then show ?case
  proof cases
    case 1
    then show ?thesis using k Node.prems(3,4) kid [OF _ k(2)] kid [OF _ k(3)] by auto
  qed (use Node.IH k(2,3) Node.prems(3,4) in auto)
qed simp

lemma tree_parent:
  assumes "tree_at m p par t" and "distinct (inorder t)" and "b \<in> set_tree t" and "m b = Some n"
  shows "p = Some b \<and> a_parent n = par \<or>
    p \<noteq> Some b \<and> (\<exists>q k. a_parent n = Some q \<and> q \<in> set_tree t \<and> m q = Some k \<and> (a_left k = Some b \<or> a_right k = Some b))"
  using assms
proof (induction t arbitrary: p par)
  case (Node l a r)
  obtain k where k: "p = Some a" "m a = Some k" "a_parent k = par" "tree_at m (a_left k) (Some a) l"
      "tree_at m (a_right k) (Some a) r"
    using Node.prems(1) by auto
  consider "b = a" | "b \<in> set_tree l" "b \<noteq> a" | "b \<in> set_tree r" "b \<noteq> a" using Node.prems(2,3) by auto
  then show ?case
  proof cases
    case 1
    then show ?thesis using k Node.prems(4) by simp
  next
    case 2
    from Node.IH(1) [OF k(4) _ 2(1) Node.prems(4)] Node.prems(2) have
      "a_left k = Some b \<and> a_parent n = Some a \<or>
       (\<exists>q k. a_parent n = Some q \<and> q \<in> set_tree l \<and> m q = Some k \<and> (a_left k = Some b \<or> a_right k = Some b))" by auto
    then show ?thesis using k(1,2) 2(2) by auto
  next
    case 3
    from Node.IH(2) [OF k(5) _ 3(1) Node.prems(4)] Node.prems(2) have
      "a_right k = Some b \<and> a_parent n = Some a \<or>
       (\<exists>q k. a_parent n = Some q \<and> q \<in> set_tree r \<and> m q = Some k \<and> (a_left k = Some b \<or> a_right k = Some b))" by auto
    then show ?thesis using k(1,2) 3(2) by auto
  qed
qed simp

lemma tree_alive: "tree_at m p par t \<Longrightarrow> b \<in> set_tree t \<Longrightarrow> m b \<noteq> None"
  by (induction t arbitrary: p par) auto

text \<open>The links of one node are different from each other and from the node.\<close>

lemma tree_links:
  assumes "tree_at m p par t" and "distinct (inorder t)" and "b \<in> set_tree t" and "m b = Some n" and "par = None"
  shows "a_left n \<noteq> Some b" and "a_right n \<noteq> Some b" and "a_parent n \<noteq> Some b"
    and "a_left n = Some c \<Longrightarrow> a_right n \<noteq> Some c"
proof -
  have "a_left n \<noteq> Some b \<and> a_right n \<noteq> Some b \<and> (a_left n = Some c \<longrightarrow> a_right n \<noteq> Some c)" for c
    using assms(1-4)
  proof (induction t arbitrary: p par)
    case (Node l a r)
    obtain k where k: "m a = Some k" "tree_at m (a_left k) (Some a) l" "tree_at m (a_right k) (Some a) r"
      using Node.prems(1) by auto
    have root: "q = Some d \<Longrightarrow> tree_at m q (Some a) u \<Longrightarrow> d \<in> set_tree u" for q d u by (cases u) auto
    consider "b = a" | "b \<in> set_tree l" | "b \<in> set_tree r" using Node.prems(3) by auto
    then show ?case
    proof cases
      case 1
      then show ?thesis using Node.prems(2,4) k root [OF _ k(2)] root [OF _ k(3)] by fastforce
    next
      case 2
      then show ?thesis using Node.IH(1) [OF k(2)] Node.prems(2,4) by auto
    next
      case 3
      then show ?thesis using Node.IH(2) [OF k(3)] Node.prems(2,4) by auto
    qed
  qed simp
  then show l: "a_left n \<noteq> Some b" and r: "a_right n \<noteq> Some b"
    and "a_left n = Some c \<Longrightarrow> a_right n \<noteq> Some c" by blast+
  show "a_parent n \<noteq> Some b"
    using tree_parent [OF assms(1-4)] assms(4,5) l r by auto
qed

section \<open>The successor takes the place of a node\<close>

definition take_place :: "amem \<Rightarrow> addr \<Rightarrow> addr \<Rightarrow> ptr \<Rightarrow> (amem \<times> ptr) res" where
  "take_place m1 a v root =
     bindr (load m1 (Some a)) (\<lambda>n1.
     bindr (update m1 (Some v) (\<lambda>_. n1)) (\<lambda>m2.
     bindr (set_parent m2 (a_left n1) (Some v)) (\<lambda>m3.
     bindr (set_parent m3 (a_right n1) (Some v)) (\<lambda>m4.
     bindr (load m4 (Some a)) (\<lambda>n4.
     if a_parent n4 \<noteq> None
     then bindr (replace_child m4 (a_parent n4) (Some a) (Some v)) (\<lambda>m5. Inr (m5, root))
     else Inr (m4, Some v))))))"

lemma avl_del_right:
  assumes "m a = Some n" and "a_right n = Some b" and "leftmost fuel m (a_right n) = Inr (Some v)"
    and "avl_del fuel m (Some v) = Inr (m1, root)"
  shows "avl_del (Suc fuel) m (Some a) = take_place m1 a v root"
  using assms by (simp add: take_place_def load_Some)

definition with_parent :: "ptr \<Rightarrow> ptr \<Rightarrow> amem \<Rightarrow> amem" where
  "with_parent q x m = (\<lambda>b. if q = Some b then map_option (\<lambda>k. k\<lparr>a_parent := x\<rparr>) (m b) else m b)"

lemma set_parent_with:
  assumes "\<forall>c. q = Some c \<longrightarrow> m c \<noteq> None"
  shows "set_parent m q x = Inr (with_parent q x m)"
proof (cases q)
  case (Some c)
  then obtain k where "m c = Some k" using assms by auto
  then show ?thesis using Some by (auto simp: set_parent_def update_Some with_parent_def fun_eq_iff)
qed (simp add: set_parent_def with_parent_def)

definition with_child :: "ptr \<Rightarrow> ptr \<Rightarrow> ptr \<Rightarrow> amem \<Rightarrow> amem" where
  "with_child q x y m = (\<lambda>b. if q = Some b
     then map_option (\<lambda>k. if a_left k = x then k\<lparr>a_left := y\<rparr> else k\<lparr>a_right := y\<rparr>) (m b) else m b)"

lemma replace_child_with:
  assumes "m c \<noteq> None"
  shows "replace_child m (Some c) x y = Inr (with_child (Some c) x y m)"
proof -
  obtain k where "m c = Some k" using assms by auto
  then show ?thesis by (auto simp: replace_child_def update_Some with_child_def fun_eq_iff)
qed

lemma ren_ptr: "map_option (id(a := v)) x = (if x = Some a then Some v else x)"
  by (cases x) auto

lemma take_place_spec:
  assumes t: "tree_at m p None t" and dist: "distinct (inorder t)" and a: "a \<in> set_tree t" and v: "v \<notin> set_tree t" "m v \<noteq> None"
  obtains m' where "take_place m a v p = Inr (m', map_option (id(a := v)) p)"
    and "tree_at m' (map_option (id(a := v)) p) None (map_tree (id(a := v)) t)"
    and "\<forall>b. b \<noteq> v \<longrightarrow> b \<notin> set_tree t \<longrightarrow> m' b = m b" and "\<forall>b. (m' b = None) = (m b = None)"
proof -
  obtain n where n: "m a = Some n" using tree_alive [OF t a] by auto
  note L = tree_links [OF t dist a n refl]
  let ?f = "id(a := v)" and ?m2 = "m(v \<mapsto> n)"
  let ?m3 = "with_parent (a_left n) (Some v) ?m2"
  let ?m4 = "with_parent (a_right n) (Some v) ?m3"
  let ?m5 = "with_child (a_parent n) (Some a) (Some v) ?m4"
  have child: "c \<in> set_tree t \<and> (\<exists>k. m c = Some k \<and> a_parent k = Some a)" if "a_left n = Some c \<or> a_right n = Some c" for c
    by (rule tree_child [OF t a n that])
  have va: "a \<noteq> v" using a v(1) by auto
  have s3: "set_parent ?m2 (a_left n) (Some v) = Inr ?m3"
    by (rule set_parent_with) (use child in auto)
  have s4: "set_parent ?m3 (a_right n) (Some v) = Inr ?m4"
    by (rule set_parent_with) (use child L(4) in \<open>auto simp: with_parent_def\<close>)
  have n4: "?m4 a = Some n" using L(1,2) n va by (simp add: with_parent_def)
  have up: "p = Some a \<and> a_parent n = None \<or> p \<noteq> Some a \<and> (\<exists>q k. a_parent n = Some q \<and> q \<in> set_tree t \<and>
      m q = Some k \<and> (a_left k = Some a \<or> a_right k = Some a))"
    by (rule tree_parent [OF t dist a n])
  have run: "take_place m a v p = Inr (?m5, map_option ?f p)"
  proof (cases "a_parent n")
    case None
    moreover have "?m5 = ?m4" using None by (simp add: with_child_def)
    ultimately show ?thesis
      using up n v(2) s3 s4 n4 by (auto simp: take_place_def load_Some update_Some)
  next
    case (Some q)
    then have "?m4 q \<noteq> None" using up v(1) by (auto simp: with_parent_def)
    then have "replace_child ?m4 (Some q) (Some a) (Some v) = Inr ?m5" using replace_child_with [of ?m4 q] Some by simp
    then show ?thesis
      using Some up n v(2) s3 s4 n4 unfolding ren_ptr by (auto simp: take_place_def load_Some update_Some)
  qed
  have "?m5 (?f b) = map_option (ren_node ?f) (m b)" if b: "b \<in> set_tree t" for b
  proof (cases "b = a")
    case True
    have "?m5 v = Some n" using child up v(1) by (auto simp: with_child_def with_parent_def)
    then show ?thesis using True n L(1-3) by (simp add: ren_node_def ren_ptr)
  next
    case False
    obtain k where k: "m b = Some k" using tree_alive [OF t b] by auto
    have bv: "b \<noteq> v" using b v(1) by auto
    have down: "a_left n = Some b \<or> a_right n = Some b \<longleftrightarrow> a_parent k = Some a"
      using child [of b] tree_parent [OF t dist b k] k n by auto
    have "a_left k = Some a \<or> a_right k = Some a \<longleftrightarrow> a_parent n = Some b"
      using tree_child [OF t b k, of a] up k n by auto
    moreover have "a_left k = Some a \<Longrightarrow> a_right k \<noteq> Some a" by (rule tree_links(4) [OF t dist b k refl])
    ultimately show ?thesis
      using False bv k down by (auto simp: with_child_def with_parent_def ren_node_def ren_ptr)
  qed
  then have "tree_at ?m5 (map_option ?f p) None (map_tree ?f t)" using tree_at_rename [OF t, of ?m5 ?f] by simp
  moreover have "?m5 b = m b" if "b \<noteq> v" "b \<notin> set_tree t" for b
    using child up that by (auto simp: with_child_def with_parent_def)
  moreover have "(?m5 b = None) = (m b = None)" for b
    using v(2) by (auto simp: with_child_def with_parent_def)
  ultimately show ?thesis using that run by blast
qed

section \<open>Deleting any node\<close>

text \<open>
  Every unlinking of a node without right child leaves nodes that are balanced, but perhaps the root
  (\<open>path_ok\<close>).  This is so in a balanced tree of at most four nodes.
\<close>

definition del_ok :: "addr tree \<Rightarrow> bool" where
  "del_ok t \<longleftrightarrow> (\<forall>c f l a. t = plug (Node l a Leaf) (f # c) \<longrightarrow> path_ok (fill f l) c)"

fun left_ctx :: "addr tree \<Rightarrow> ctx \<Rightarrow> addr tree \<times> ctx" where
  "left_ctx Leaf c = (Leaf, c)"
| "left_ctx (Node Leaf a r) c = (Node Leaf a r, c)"
| "left_ctx (Node l a r) c = left_ctx l ((True, a, r) # c)"

lemma left_ctx_spec:
  assumes "t \<noteq> Leaf" and "left_ctx t c = (u, c')"
  shows "plug u c' = plug t c" and "\<exists>v r. u = Node Leaf v r" and "length c \<le> length c'"
    and "length c' + height u \<le> length c + height t"
  using assms by (induction t c rule: left_ctx.induct) (auto simp: fill_def)

lemma left_ctx_hd: "t \<noteq> Leaf \<Longrightarrow> left_ctx t c = (Node Leaf v r, c') \<Longrightarrow> hd (inorder t) = v"
  by (induction t c rule: left_ctx.induct) (auto simp: hd_append)

lemma leftmost_spec:
  assumes "tree_at m p par t" and "t \<noteq> Leaf" and "left_ctx t c = (Node Leaf v r, c')" and "height t \<le> fuel"
  shows "leftmost fuel m p = Inr (Some v)"
  using assms
proof (induction t c arbitrary: p par fuel rule: left_ctx.induct)
  case (2 a s c)
  then show ?case by (cases fuel) (auto simp: load_Some)
next
  case (3 l b s a r c)
  then show ?case by (cases fuel) (auto simp: load_Some)
qed simp

lemma first_split: "us @ x # vs = us' @ x # vs' \<Longrightarrow> x \<notin> set us \<Longrightarrow> x \<notin> set us' \<Longrightarrow> us = us' \<and> vs = vs'"
  by (induction us arbitrary: us') (auto simp: Cons_eq_append_conv)

lemma split_at_nth:
  assumes "xs = us @ xs ! i # vs" and "distinct xs" and "i < length xs"
  shows "us = take i xs \<and> vs = drop (Suc i) xs"
  using first_split [of us "xs ! i" vs "take i xs" "drop (Suc i) xs"] id_take_nth_drop [OF assms(3)]
    assms(2) unfolding assms(1) [symmetric] by (metis assms(1) distinct_append distinct.simps(2) not_distinct_conv_prefix)

text \<open>What is left of a tree without \<open>a\<close>: a balanced tree, and memory as before outside.\<close>

definition deleted :: "amem \<Rightarrow> addr tree \<Rightarrow> addr list \<Rightarrow> (amem \<times> ptr) res \<Rightarrow> bool" where
  "deleted m t rest res \<longleftrightarrow> (\<exists>m' q t'. res = Inr (m', q) \<and> tree_at m' q None t' \<and> avl t' \<and> inorder t' = rest \<and>
     (\<forall>b. b \<notin> set_tree t \<longrightarrow> m' b = m b) \<and> (\<forall>b. (m' b = None) = (m b = None)))"

lemma deleted_no_right:
  assumes "tree_at m p None (plug (Node l a Leaf) c)" and "distinct (inorder (plug (Node l a Leaf) c))"
    and "size (plug (Node l a Leaf) c) < 2 ^ 31" and "avl (plug (Node l a Leaf) c)"
    and "del_ok (plug (Node l a Leaf) c)" and "length c + 1 < fuel"
  shows "deleted m (plug (Node l a Leaf) c) (inorder (plug l c)) (avl_del fuel m (Some a))"
proof (cases c)
  case Nil
  obtain f where f: "fuel = Suc f" using assms(6) by (cases fuel) auto
  obtain n where n: "p = Some a" "m a = Some n" "a_parent n = None" "tree_at m (a_left n) (Some a) l" "a_right n = None"
    using assms(1) Nil by auto
  obtain m1 where m1: "set_parent m (a_left n) None = Inr m1" "tree_at m1 (a_left n) None l"
      "\<forall>b. Some b \<noteq> a_left n \<longrightarrow> m1 b = m b"
    using set_parent_at [OF n(4)] assms(2) Nil by auto
  have "avl_del fuel m (Some a) = Inr (m1, a_left n)" using f n m1(1) by (simp add: load_Some)
  moreover have "m1 b = m b" if "b \<notin> set_tree l" for b
    using m1(3) that tree_at_root [OF n(4)] by (cases l) auto
  moreover have "(m1 b = None) = (m b = None)" for b
    using calculation(2) [of b] tree_alive [OF m1(2), of b] tree_alive [OF n(4), of b]
    by (cases "b \<in> set_tree l") auto
  ultimately show ?thesis using m1(2) assms(4) Nil by (auto simp: deleted_def)
next
  case (Cons fr c')
  obtain d q s where fr: "fr = (d, q, s)" by (cases fr)
  obtain par where at: "tree_at m (Some a) par (Node l a Leaf)" "ctx_at m ((d, q, s) # c') a par"
    using tree_at_hole [OF assms(1)] Cons fr by auto
  have ok: "path_ok (fill (d, q, s) l) c'" using assms(5) Cons fr unfolding del_ok_def by blast
  have pre: "distinct (inorder (plug (Node l a Leaf) ((d, q, s) # c')))" "size (plug (Node l a Leaf) ((d, q, s) # c')) < 2 ^ 31"
      "length c' + 1 < fuel"
    using assms(2,3,6) Cons fr by simp_all
  obtain m' r t' where D: "avl_del fuel m (Some a) = Inr (m', r)" "balanced_to m None (plug l ((d, q, s) # c')) m' r t'"
    by (rule avl_del_no_right [OF at ok pre])
  then have B: "tree_at m' r None t'" "avl t'" "inorder t' = inorder (plug l c)"
      "\<forall>b. b \<notin> set_tree (plug l c) \<longrightarrow> m' b = m b"
    using Cons fr by (simp_all add: balanced_to_def)
  have sub: "set_tree (plug l c) \<subseteq> set_tree (plug (Node l a Leaf) c)" by (auto simp: set_plug)
  have "(m' b = None) = (m b = None)" for b
  proof (cases "b \<in> set_tree (plug l c)")
    case True
    then have "b \<in> set_tree t'" using arg_cong [OF B(3), of set] by simp
    then show ?thesis using tree_alive [OF B(1), of b] tree_alive [OF assms(1), of b] True sub by auto
  qed (use B(4) in simp)
  then show ?thesis using D(1) B sub by (auto simp: deleted_def)
qed

lemma avl_del_at:
  assumes "tree_at m p None t" and "distinct (inorder t)" and "size t < 2 ^ 31" and "avl t" and "del_ok t"
    and "t = plug (Node l a r) c" and "\<And>u. inorder (plug u c) = us @ inorder u @ vs"
    and "length c + 2 * height (Node l a r) + 2 \<le> fuel"
  shows "deleted m t (us @ inorder l @ inorder r @ vs) (avl_del fuel m (Some a))"
  using assms(6-8)
proof (induction fuel arbitrary: l a r c us vs)
  case (Suc f)
  show ?case
  proof (cases "r = Leaf")
    case True
    have "length c + 1 < Suc f" using Suc.prems(3) by simp
    then show ?thesis
      using deleted_no_right [of m p l a c "Suc f"] assms(1-5) Suc.prems(1,2) True by simp
  next
    case False
    obtain u c' where L: "left_ctx r ((False, a, l) # c) = (u, c')" by fastforce
    note S = left_ctx_spec [OF False L]
    obtain v rv where u: "u = Node Leaf v rv" using S(2) by blast
    have t': "t = plug (Node Leaf v rv) c'" using S(1) Suc.prems(1) u by (simp add: fill_def)
    obtain us' vs' where io: "\<And>u. inorder (plug u c') = us' @ inorder u @ vs'" using plug_split by blast
    have le: "length c' + 2 * height (Node Leaf v rv) + 2 \<le> f"
      using S(3,4) u Suc.prems(3) by simp
    obtain zs where zs: "inorder r = v # zs"
      using left_ctx_hd [OF False] L u False by (cases r; cases "inorder r") auto
    have it: "inorder t = us' @ v # inorder rv @ vs'" "inorder t = (us @ inorder l @ [a]) @ v # zs @ vs"
      using io [of "Node Leaf v rv"] t' Suc.prems(2) [of "Node l a r"] zs unfolding Suc.prems(1) [symmetric] by simp_all
    have "v \<notin> set us'" using assms(2) unfolding it(1) by simp
    moreover have "v \<notin> set (us @ inorder l @ [a])" using assms(2) unfolding it(2) distinct_append by auto
    ultimately
    have same: "us' = us @ inorder l @ [a]" "inorder rv @ vs' = zs @ vs"
      using first_split [of us' v "inorder rv @ vs'" "us @ inorder l @ [a]" "zs @ vs"] it by auto
    obtain m1 q t1 where D: "avl_del f m (Some v) = Inr (m1, q)" "tree_at m1 q None t1" "avl t1"
        "inorder t1 = us @ inorder l @ a # zs @ vs" "\<forall>b. b \<notin> set_tree t \<longrightarrow> m1 b = m b" "\<forall>b. (m1 b = None) = (m b = None)"
      using Suc.IH [OF t' io le] same by (auto simp: deleted_def)
    have dist: "distinct (inorder t1)" "v \<notin> set_tree t1" "a \<in> set_tree t1"
      using assms(2) D(4) it(2) by (auto simp: set_inorder [symmetric] simp del: set_inorder)
    obtain par where at: "tree_at m (Some a) par (Node l a r)" using tree_at_hole assms(1) Suc.prems(1) by blast
    then obtain n where n: "m a = Some n" "tree_at m (a_right n) (Some a) r" by auto
    have "v \<in> set_tree t" using it(1) by (auto simp: set_inorder [symmetric] simp del: set_inorder)
    then have v: "m v \<noteq> None" using tree_alive [OF assms(1)] by blast
    obtain b where b: "a_right n = Some b" using n(2) False by (cases r) auto
    have "leftmost f m (a_right n) = Inr (Some v)"
      by (rule leftmost_spec [OF n(2) False L [unfolded u]]) (use Suc.prems(3) in simp)
    then have del: "avl_del (Suc f) m (Some a) = take_place m1 a v q"
      by (rule avl_del_right [OF n(1) b _ D(1)])
    have m1v: "m1 v \<noteq> None" using v unfolding D(6) [rule_format, symmetric, of v] .
    obtain m' where T: "take_place m1 a v q = Inr (m', map_option (id(a := v)) q)"
        "tree_at m' (map_option (id(a := v)) q) None (map_tree (id(a := v)) t1)"
        "\<forall>b. b \<noteq> v \<longrightarrow> b \<notin> set_tree t1 \<longrightarrow> m' b = m1 b" "\<forall>b. (m' b = None) = (m1 b = None)"
      by (rule take_place_spec [OF D(2) dist(1,3,2) m1v])
    have "map (id(a := v)) (inorder t1) = us @ inorder l @ inorder r @ vs"
      using dist(1) unfolding D(4) zs by (auto simp: map_idI)
    moreover have "set_tree t1 \<subseteq> set_tree t"
      using it(2) D(4) by (auto simp: set_inorder [symmetric] simp del: set_inorder)
    ultimately show ?thesis
      unfolding del deleted_def using T D(3,5,6) \<open>v \<in> set_tree t\<close>
      by (intro exI [of _ m'] exI [of _ "map_option (id(a := v)) q"] exI [of _ "map_tree (id(a := v)) t1"])
        (auto simp: inorder_map)
  qed
qed simp

section \<open>Small trees\<close>

lemma size_fill [simp]: "size (fill (d, p, s) t) = size s + size t + 1"
  and height_fill [simp]: "height (fill (d, p, s) t) = max (height s) (height t) + 1"
  and avl_fill [simp]: "avl (fill (d, p, s) t) \<longleftrightarrow> avl s \<and> avl t \<and> height s \<le> height t + 1 \<and> height t \<le> height s + 1"
  and bal2_fill [simp]: "bal2 (fill (d, p, s) t) \<longleftrightarrow> avl s \<and> avl t \<and> height s \<le> height t + 2 \<and> height t \<le> height s + 2"
  by (auto simp: fill_def bal2_def)

lemma height_le_size: "size t \<le> n \<Longrightarrow> height t \<le> n" for t :: "addr tree"
  using height_le_size_tree [of t] by simp

lemma ctx_cases:
  assumes "length c \<le> 3"
  obtains "c = []" | f where "c = [f]" | f g where "c = [f, g]" | f g h where "c = [f, g, h]"
  using assms by (cases c; cases "tl c"; cases "tl (tl c)"; cases "tl (tl (tl c))") auto

lemma small_path_ok:
  assumes "avl t" and "size t \<le> 3" and "t = plug Leaf c"
  shows "path_ok (Node Leaf a Leaf) c"
proof -
  have "length c \<le> 3" using length_ctx [of c Leaf] assms(2,3) by simp
  then show ?thesis
  proof (cases rule: ctx_cases)
    case (2 f)
    then show ?thesis using assms by (cases f) auto
  next
    case (3 f g)
    obtain d p s d' p' s' where fg: "f = (d, p, s)" "g = (d', p', s')" by (cases f; cases g)
    then have "size s \<le> 1" "size s' \<le> 1" using assms(2,3) 3 by simp_all
    then show ?thesis using assms 3 fg height_le_size [of s] height_le_size [of s'] by auto
  next
    case (4 f g h)
    obtain d p s d' p' s' d'' p'' s'' where fg: "f = (d, p, s)" "g = (d', p', s')" "h = (d'', p'', s'')"
      by (cases f; cases g; cases h)
    then have "s = Leaf" "s' = Leaf" "s'' = Leaf" using assms(2,3) 4 by (simp_all add: eq_size_0)
    then show ?thesis using assms 4 fg by simp
  qed (simp add: bal2_def)
qed

lemma small_del_ok:
  assumes "avl t" and "size t \<le> 4"
  shows "del_ok t"
  unfolding del_ok_def
proof (intro allI impI)
  fix c f l a
  assume t: "t = plug (Node l a Leaf) (f # c)"
  have "length c \<le> 3" using length_ctx [of "f # c" "Node l a Leaf"] assms(2) t by simp
  obtain d p s where f: "f = (d, p, s)" by (cases f)
  from \<open>length c \<le> 3\<close> show "path_ok (fill f l) c"
  proof (cases rule: ctx_cases)
    case 1
    then show ?thesis using assms t f by auto
  next
    case (2 g)
    obtain d' p' s' where g: "g = (d', p', s')" by (cases g)
    then have "size s \<le> 1" "size s' \<le> 1" "size l \<le> 1" using assms(2) t f 2 by simp_all
    then show ?thesis
      using assms t f g 2 height_le_size [of s] height_le_size [of s'] height_le_size [of l] by auto
  next
    case (3 g h)
    obtain d' p' s' d'' p'' s'' where gh: "g = (d', p', s')" "h = (d'', p'', s'')" by (cases g; cases h)
    then have "s = Leaf" "s' = Leaf" "s'' = Leaf" "l = Leaf" using assms(2) t f 3 by (simp_all add: eq_size_0)
    then show ?thesis using assms t f gh 3 by simp
  next
    case (4 g h k)
    then show ?thesis using length_ctx [of "f # c" "Node l a Leaf"] assms(2) t by simp
  qed
qed

lemma avl_del_any:
  assumes "tree_at m p None t" and "distinct (inorder t)" and "avl t" and "size t \<le> 4" and "i < size t"
    and "2 * size t + 2 \<le> fuel"
  shows "\<exists>m' q t'. avl_del fuel m (Some (inorder t ! i)) = Inr (m', q) \<and> tree_at m' q None t' \<and> avl t' \<and>
    inorder t' = take i (inorder t) @ drop (Suc i) (inorder t) \<and>
    (\<forall>b. b \<notin> set_tree t \<longrightarrow> m' b = m b) \<and> (\<forall>b. (m' b = None) = (m b = None))"
proof -
  obtain l r c where t: "t = plug (Node l (inorder t ! i) r) c" using hole_at [OF assms(2,5)] by blast
  let ?a = "inorder t ! i"
  obtain us vs where io: "\<And>u. inorder (plug u c) = us @ inorder u @ vs" using plug_split by blast
  have "length c + size (Node l ?a r) \<le> size t" using length_ctx [of c "Node l ?a r"] t by metis
  then have fuel: "length c + 2 * height (Node l ?a r) + 2 \<le> fuel"
    using assms(6) height_le_size_tree [of "Node l ?a r"] by linarith
  have "inorder t = (us @ inorder l) @ ?a # inorder r @ vs" using io [of "Node l ?a r"] t by simp
  then have split: "us @ inorder l = take i (inorder t)" "inorder r @ vs = drop (Suc i) (inorder t)"
    using assms(2,5) split_at_nth [of "inorder t" "us @ inorder l" i "inorder r @ vs"] by simp_all
  have "deleted m t (us @ inorder l @ inorder r @ vs) (avl_del fuel m (Some ?a))"
    using assms(4) by (intro avl_del_at [OF assms(1,2) _ assms(3) small_del_ok [OF assms(3,4)] t io fuel]) simp
  then have "deleted m t (take i (inorder t) @ drop (Suc i) (inorder t)) (avl_del fuel m (Some ?a))"
    unfolding split [symmetric] append_assoc .
  then show ?thesis unfolding deleted_def .
qed

section \<open>Property\<close>

text \<open>
  C29.  \<open>avl_del\<close> of any node, the root or another, with or without children, removes exactly this node and leaves a
  balanced tree of the others in the same order, with right depths, counts and parents, in a balanced tree of at most four
  nodes.  Nothing outside the tree is touched and nothing is freed.
\<close>

theorem avl_del_small:
  assumes "tree_at m p None t" and "distinct (inorder t)" and "avl t" and "size t \<le> 4" and "i < size t"
    and "2 * size t + 2 \<le> fuel"
  shows "\<exists>m' q t'. avl_del fuel m (Some (inorder t ! i)) = Inr (m', q) \<and> tree_at m' q None t' \<and> avl t' \<and>
    inorder t' = take i (inorder t) @ drop (Suc i) (inorder t) \<and>
    (\<forall>b. b \<notin> set_tree t \<longrightarrow> m' b = m b) \<and> (\<forall>b. (m' b = None) = (m b = None))"
  using avl_del_any [OF assms] .

theorem avl_del_small_witness:
  "\<exists>m' q t. avl_del 8 (o_t demo_add_objs) (Some 2) = Inr (m', q) \<and> tree_at m' q None t \<and> avl t \<and> inorder t = [1, 3]"
  using avl_del_small [OF demo_add_at, where i = 1 and fuel = 8] by auto

end
