(* ===== verification/Small_Sets.thy ===== *)
theory Small_Sets
  imports AVL_Delete ZSet_Members Expiring_Keys
begin

text \<open>
  Sorted sets of at most four members.  Up to this size no rotation is needed below the root, and additions,
  changes of scores, lookups by name and range queries together are the operations of an ordered list of members.
\<close>

section \<open>The list of members\<close>

text \<open>The specification: the members in their order, a new one after those it is not below.\<close>

definition zins :: "ZNode \<Rightarrow> ZNode list \<Rightarrow> ZNode list" where
  "zins q xs = takeWhile (\<lambda>p. \<not> zless_nodes q p) xs @ q # dropWhile (\<lambda>p. \<not> zless_nodes q p) xs"

definition zmember :: "bytes \<Rightarrow> ZNode list \<Rightarrow> ZNode option" where
  "zmember name xs = find (\<lambda>q. zn_name q = name) xs"

definition zput :: "bytes \<Rightarrow> dbl \<Rightarrow> ZNode list \<Rightarrow> ZNode list" where
  "zput name score xs = (let q = \<lparr>zn_score = score, zn_name = name\<rparr> in case zmember name xs of
       None \<Rightarrow> zins q xs
     | Some p \<Rightarrow> if dbl_eq (zn_score p) score then xs else zins q (filter (\<lambda>p. zn_name p \<noteq> name) xs))"

text \<open>The member \<open>offset\<close> places from the first one that is not below a score.\<close>

definition zfrom :: "dbl \<Rightarrow> int \<Rightarrow> ZNode list \<Rightarrow> ZNode option" where
  "zfrom score offset xs =
     (let i = length (takeWhile (\<lambda>p. zless_nodes p \<lparr>zn_score = score, zn_name = []\<rparr>) xs); k = int i + offset in
      if i < length xs \<and> 0 \<le> k \<and> k < int (length xs) then Some (xs ! nat k) else None)"

section \<open>Operations of the hash map and the rest of the heap\<close>

lemma map_holds_other:
  assumes "map_holds (m, hm) ns" and "\<forall>x \<in># ns. h_nodes m' x = h_nodes m x"
    and "\<forall>b \<in> tabs hm. h_arrs m' b = h_arrs m b" and "h_brk m \<le> h_brk m'"
  shows "map_holds (m', hm) ns"
proof -
  obtain bs1 bs2 where B: "hm_ok m hm bs1 bs2" "mset (nodes_of bs1 bs2) = ns"
    using assms(1) by (auto simp: map_holds_def)
  have "\<forall>x \<in> set (nodes_of bs1 bs2). h_nodes m' x = h_nodes m x"
    using assms(2) unfolding B(2) [symmetric] set_mset_mset .
  then have "hm_ok m' hm bs1 bs2" by (rule hm_ok_other [OF B(1) _ assms(3,4)])
  then show ?thesis using B(2) by (auto simp only: map_holds_def fst_conv snd_conv)
qed

lemma map_holds_tabs:
  assumes "map_holds (m, hm) ns" and "b \<in> tabs hm"
  shows "b < h_brk m"
proof -
  obtain bs1 bs2 where "hm_ok m hm bs1 bs2" using assms(1) by (auto simp: map_holds_def)
  then have "hm_shape m hm bs1 bs2" by (simp add: hm_ok_def hm_rep_def)
  then have "tab_shape m (ht1 hm) bs1" "tab_shape m (ht2 hm) bs2" by (simp_all add: hm_shape_def)
  then show ?thesis using assms(2) by (auto simp: tabs_def elem_set dest: tab_shape_Some [THEN iffD1, rotated])
qed

lemma map_look_framed:
  assumes "map_holds (m, hm) ns" and "\<forall>y \<in># ns. code_at m y = c \<longrightarrow> eq y = Inr (E y)"
  obtains m' hm' p where "hm_lookup m hm c eq = Inr (m', hm', p)" and "map_holds (m', hm') ns"
    and "frame (set_mset ns) (tabs hm) m m'" and "tabs hm' \<subseteq> tabs hm"
    and "found (code_eq c E (code_at m)) ns p"
proof -
  obtain bs1 bs2 where B: "hm_ok m hm bs1 bs2" "mset (nodes_of bs1 bs2) = ns"
    using assms(1) by (auto simp: map_holds_def)
  have "\<forall>y \<in> set (nodes_of bs1 bs2). code_at m y = c \<longrightarrow> eq y = Inr (E y)"
    using assms(2) unfolding B(2) [symmetric] set_mset_mset .
  then obtain m' hm' p c1 c2 where L: "hm_lookup m hm c eq = Inr (m', hm', p)" "hm_ok m' hm' c1 c2"
      "mset (nodes_of c1 c2) = mset (nodes_of bs1 bs2)" "frame (set (nodes_of bs1 bs2)) (tabs hm) m m'"
      "case p of None \<Rightarrow> \<forall>y \<in> set (nodes_of bs1 bs2). \<not> matches m c E y
       | Some a \<Rightarrow> a \<in> set (nodes_of bs1 bs2) \<and> matches m c E a" "tabs hm' \<subseteq> tabs hm"
    by (rule hm_lookup_member [OF B(1)])
  have "map_holds (m', hm') ns" using L(2,3) B(2) by (auto simp only: map_holds_def fst_conv snd_conv)
  moreover have "found (code_eq c E (code_at m)) ns p"
    using L(5) unfolding B(2) [symmetric] found_def code_eq_def matches_def set_mset_mset .
  moreover have "frame (set_mset ns) (tabs hm) m m'" using L(4) unfolding B(2) [symmetric] set_mset_mset .
  ultimately show ?thesis using that L(1,6) by blast
qed

lemma map_ins_framed:
  assumes "map_holds (m, hm) ns" and "map_alive (m, hm) x" and "x \<notin># ns" and "size ns + 1 < 2 ^ 64"
  obtains m' hm' where "hm_insert m hm (Some x) = Inr (m', hm')" and "map_holds (m', hm') (add_mset x ns)"
    and "frame (insert x (set_mset ns)) (tabs hm \<union> {h_brk m..}) m m'" and "tabs hm' \<subseteq> tabs hm \<union> {h_brk m..}"
proof -
  obtain bs1 bs2 where B: "hm_ok m hm bs1 bs2" "mset (nodes_of bs1 bs2) = ns"
    using assms(1) by (auto simp: map_holds_def)
  obtain n where n: "h_nodes m x = Some n" "x < h_brk m" using assms(2) by (auto simp: map_alive_def)
  have x: "x \<notin> set (nodes_of bs1 bs2)" using assms(3) unfolding B(2) [symmetric] set_mset_mset .
  have len: "length (nodes_of bs1 bs2) + 1 < 2 ^ 64" using assms(4) unfolding B(2) [symmetric] size_mset .
  obtain m' hm' c1 c2 where I: "hm_insert m hm (Some x) = Inr (m', hm')" "hm_ok m' hm' c1 c2"
      "mset (nodes_of c1 c2) = add_mset x (mset (nodes_of bs1 bs2))"
      "frame (insert x (set (nodes_of bs1 bs2))) (tabs hm \<union> {h_brk m..}) m m'" "tabs hm' \<subseteq> tabs hm \<union> {h_brk m..}"
    by (rule hm_insert_spec [OF B(1) n(1) x n(2) len])
  have "map_holds (m', hm') (add_mset x ns)" using I(2,3) B(2) by (auto simp only: map_holds_def fst_conv snd_conv)
  moreover have "frame (insert x (set_mset ns)) (tabs hm \<union> {h_brk m..}) m m'"
    using I(4) unfolding B(2) [symmetric] set_mset_mset .
  ultimately show ?thesis using that I(1,5) by blast
qed

lemma map_del_framed:
  assumes "map_holds (m, hm) ns" and "\<forall>y \<in># ns. code_at m y = c \<longrightarrow> eq y = Inr (E y)" and "size ns \<le> k_resizing_work"
  obtains m' hm' p where "hm_delete m hm c eq = Inr (m', hm', p)" and "map_holds (m', hm') (ns - mset_set (set_option p))"
    and "frame (set_mset ns) (tabs hm) m m'" and "tabs hm' \<subseteq> tabs hm"
    and "found (code_eq c E (code_at m)) ns p"
proof -
  obtain bs1 bs2 where B: "hm_ok m hm bs1 bs2" "mset (nodes_of bs1 bs2) = ns"
    using assms(1) by (auto simp: map_holds_def)
  have eq: "\<forall>y \<in> set (nodes_of bs1 bs2). code_at m y = c \<longrightarrow> eq y = Inr (E y)"
    using assms(2) unfolding B(2) [symmetric] set_mset_mset .
  have "length (nodes_of bs1 bs2) \<le> k_resizing_work" using assms(3) unfolding B(2) [symmetric] size_mset .
  then have none: "drop k_resizing_work (concat bs2) = []" by (intro short_older) simp
  let ?r = "find (matches m c E) (concat (help_buckets m hm bs1 bs2))"
  have "find (matches m c E) (drop k_resizing_work (concat bs2)) = None" unfolding none by simp
  then obtain m' hm' c1 c2 where D: "hm_delete m hm c eq = Inr (m', hm', ?r)" "hm_ok m' hm' c1 c2"
      "mset (nodes_of c1 c2) + mset_set (set_option ?r) = mset (nodes_of bs1 bs2)"
      "frame (set (nodes_of bs1 bs2)) (tabs hm) m m'" "tabs hm' \<subseteq> tabs hm"
    using hm_delete_spec [OF B(1) eq] by blast
  have "mset (concat (help_buckets m hm bs1 bs2)) = ns"
    using help_mset [of m hm bs1 bs2 "[]"] B none by (simp add: hm_ok_def)
  then have "found (code_eq c E (code_at m)) ns ?r" by (rule found_find)
  moreover have "mset (nodes_of c1 c2) = ns - mset_set (set_option ?r)"
    using D(3) unfolding B(2) by (metis add_diff_cancel_right')
  then have "map_holds (m', hm') (ns - mset_set (set_option ?r))"
    using D(2) by (auto simp only: map_holds_def fst_conv snd_conv)
  moreover have "frame (set_mset ns) (tabs hm) m m'" using D(4) unfolding B(2) [symmetric] set_mset_mset .
  ultimately show ?thesis using that D(1,5) by blast
qed

section \<open>Small sets in memory\<close>

definition znode :: "objs \<Rightarrow> addr \<Rightarrow> ZNode" where
  "znode M a = the (o_z M a)"

definition members :: "objs \<Rightarrow> addr tree \<Rightarrow> ZNode list" where
  "members M t = map (znode M) (inorder t)"

definition zset_rep :: "objs \<Rightarrow> addr \<Rightarrow> ZSet \<Rightarrow> addr tree \<Rightarrow> bool" where
  "zset_rep M z zs t \<longleftrightarrow> o_s M z = Some zs \<and> tree_at (o_t M) (zs_tree zs) None t \<and> avl t \<and>
     distinct (inorder t) \<and> map_holds (o_h M, zs_hmap zs) (mset (inorder t)) \<and>
     (\<forall>a \<in> set_tree t. o_z M a = Some (znode M a) \<and> \<not> dbl_nan (zn_score (znode M a)) \<and>
        code_at (o_h M) a = str_hash (zn_name (znode M a))) \<and>
     inj_on (\<lambda>a. zn_name (znode M a)) (set_tree t) \<and> sorted_wrt (below (znode M)) (inorder t)"

lemma zset_repD:
  assumes "zset_rep M z zs t"
  shows "o_s M z = Some zs" and "tree_at (o_t M) (zs_tree zs) None t" and "avl t" and "distinct (inorder t)"
    and "map_holds (o_h M, zs_hmap zs) (mset (inorder t))"
    and "a \<in> set_tree t \<Longrightarrow> o_z M a = Some (znode M a)"
    and "a \<in> set_tree t \<Longrightarrow> \<not> dbl_nan (zn_score (znode M a))"
    and "a \<in> set_tree t \<Longrightarrow> code_at (o_h M) a = str_hash (zn_name (znode M a))"
    and "inj_on (\<lambda>a. zn_name (znode M a)) (set_tree t)" and "sorted_wrt (below (znode M)) (inorder t)"
  using assms by (simp_all add: zset_rep_def)

lemma zset_rep_brk:
  assumes "zset_rep M z zs t" and "a \<in> set_tree t"
  shows "a < h_brk (o_h M)"
  using map_holds_member(1) [OF zset_repD(5) [OF assms(1)], of a] assms(2) by (simp add: map_alive_def)

lemma members_Nil: "members M t = [] \<longleftrightarrow> t = Leaf"
  by (cases t) (simp_all add: members_def)

lemma tree_None: "tree_at m p par t \<Longrightarrow> p = None \<longleftrightarrow> t = Leaf"
  by (cases t) auto

section \<open>What an operation on one set leaves alone\<close>

text \<open>
  \<open>elsewhere X A z\<close>: outside the nodes \<open>X\<close>, the tables \<open>A\<close>, the set at \<open>z\<close> and newly allocated addresses, nothing
  is different.
\<close>

definition elsewhere :: "addr set \<Rightarrow> addr set \<Rightarrow> addr \<Rightarrow> objs \<Rightarrow> objs \<Rightarrow> bool" where
  "elsewhere X A z M M' \<longleftrightarrow> h_brk (o_h M) \<le> h_brk (o_h M') \<and> o_e M' = o_e M \<and> o_idx M' = o_idx M \<and>
     (\<forall>a. a \<notin> X \<longrightarrow> a < h_brk (o_h M) \<longrightarrow>
        h_nodes (o_h M') a = h_nodes (o_h M) a \<and> o_t M' a = o_t M a \<and> o_z M' a = o_z M a) \<and>
     (\<forall>b. b \<notin> A \<longrightarrow> b < h_brk (o_h M) \<longrightarrow> h_arrs (o_h M') b = h_arrs (o_h M) b) \<and>
     (\<forall>x. x \<noteq> z \<longrightarrow> o_s M' x = o_s M x)"

definition confined :: "addr \<Rightarrow> objs \<times> ZSet \<times> addr tree \<Rightarrow> objs \<times> ZSet \<times> addr tree \<Rightarrow> bool" where
  "confined z s s' = (case (s, s') of ((M, zs, t), (M', zs', t')) \<Rightarrow>
     elsewhere (set_tree t) (tabs (zs_hmap zs)) z M M' \<and> set_tree t' \<subseteq> set_tree t \<union> {h_brk (o_h M)..} \<and>
     tabs (zs_hmap zs') \<subseteq> tabs (zs_hmap zs) \<union> {h_brk (o_h M)..})"

lemma elsewhere_refl [simp]: "elsewhere X A z M M"
  by (simp add: elsewhere_def)

lemma elsewhere_trans:
  assumes "elsewhere X A z M M1" and "elsewhere X1 A1 z M1 M2"
    and "X1 \<subseteq> X \<union> {h_brk (o_h M)..}" and "A1 \<subseteq> A \<union> {h_brk (o_h M)..}"
  shows "elsewhere X A z M M2"
proof -
  have "a \<notin> X1" if "a \<notin> X" "a < h_brk (o_h M)" for a using that assms(3) by auto
  moreover have "b \<notin> A1" if "b \<notin> A" "b < h_brk (o_h M)" for b using that assms(4) by auto
  ultimately show ?thesis using assms(1,2) unfolding elsewhere_def by auto
qed

lemma confined_refl [simp]: "confined z s s"
  by (cases s) (simp add: confined_def)

lemma confined_trans:
  assumes "confined z s s1" and "confined z s1 s2"
  shows "confined z s s2"
proof -
  obtain M zs t M1 zs1 t1 M2 zs2 t2 where s: "s = (M, zs, t)" "s1 = (M1, zs1, t1)" "s2 = (M2, zs2, t2)"
    by (cases s; cases s1; cases s2) auto
  have C: "elsewhere (set_tree t) (tabs (zs_hmap zs)) z M M1" "set_tree t1 \<subseteq> set_tree t \<union> {h_brk (o_h M)..}"
      "tabs (zs_hmap zs1) \<subseteq> tabs (zs_hmap zs) \<union> {h_brk (o_h M)..}"
      "elsewhere (set_tree t1) (tabs (zs_hmap zs1)) z M1 M2" "set_tree t2 \<subseteq> set_tree t1 \<union> {h_brk (o_h M1)..}"
      "tabs (zs_hmap zs2) \<subseteq> tabs (zs_hmap zs1) \<union> {h_brk (o_h M1)..}"
    using assms unfolding s confined_def by simp_all
  have b: "{h_brk (o_h M1)..} \<subseteq> {h_brk (o_h M)..}" using C(1) by (simp add: elsewhere_def)
  have "set_tree t2 \<subseteq> set_tree t \<union> {h_brk (o_h M)..}" 
    by (rule subset_trans [OF C(5) Un_least [OF C(2) le_supI2 [OF b]]])
  moreover have "tabs (zs_hmap zs2) \<subseteq> tabs (zs_hmap zs) \<union> {h_brk (o_h M)..}" 
    by (rule subset_trans [OF C(6) Un_least [OF C(3) le_supI2 [OF b]]])
  ultimately show ?thesis unfolding s confined_def using elsewhere_trans [OF C(1,4,2,3)] by simp
qed

text \<open>A change of the heap by the hash map of a set.\<close>

lemma elsewhere_heap:
  assumes "frame X A (o_h M) h" and "X \<subseteq> Y \<union> {h_brk (o_h M)..}" and "A \<subseteq> B \<union> {h_brk (o_h M)..}"
  shows "elsewhere Y B z M (M\<lparr>o_h := h, o_s := (o_s M)(z \<mapsto> zs)\<rparr>)"
proof -
  have "a \<notin> X" if "a \<notin> Y" "a < h_brk (o_h M)" for a using that assms(2) by auto
  moreover have "b \<notin> A" if "b \<notin> B" "b < h_brk (o_h M)" for b using that assms(3) by auto
  ultimately show ?thesis using assms(1) unfolding elsewhere_def frame_def by auto
qed

section \<open>Lookup by name\<close>

lemma znode_heap [simp]: "znode (M\<lparr>o_h := h\<rparr>) = znode M" "znode (M\<lparr>o_s := s\<rparr>) = znode M" "znode (M\<lparr>o_t := m\<rparr>) = znode M"
  by (simp_all add: znode_def fun_eq_iff)

lemma lookup_member:
  assumes R: "zset_rep M z zs t"
  obtains h hm p where
      "zset_lookup M (Some z) name = Inr (M\<lparr>o_h := h, o_s := (o_s M)(z \<mapsto> zs\<lparr>zs_hmap := hm\<rparr>)\<rparr>, p)"
    and "zset_rep (M\<lparr>o_h := h, o_s := (o_s M)(z \<mapsto> zs\<lparr>zs_hmap := hm\<rparr>)\<rparr>) z (zs\<lparr>zs_hmap := hm\<rparr>) t"
    and "case p of None \<Rightarrow> \<forall>a \<in> set_tree t. zn_name (znode M a) \<noteq> name
       | Some a \<Rightarrow> a \<in> set_tree t \<and> zn_name (znode M a) = name"
    and "confined z (M, zs, t) (M\<lparr>o_h := h, o_s := (o_s M)(z \<mapsto> zs\<lparr>zs_hmap := hm\<rparr>)\<rparr>, zs\<lparr>zs_hmap := hm\<rparr>, t)"
proof (cases "t = Leaf")
  case True
  then have "zs_tree zs = None" using tree_None [OF zset_repD(2) [OF R]] by simp
  then have "zset_lookup M (Some z) name = Inr (M, None)"
    using zset_repD(1) [OF R] by (simp add: zset_lookup_def load_Some)
  then show ?thesis using that [where h = "o_h M" and hm = "zs_hmap zs" and p = None] R zset_repD(1) [OF R] True
    by (simp add: fun_upd_idem)
next
  case False
  note D = zset_repD [OF R]
  have E: "hcmp M name y = Inr (zn_name (znode M y) = name)" if "y \<in> set_tree t" for y
    using D(6) [OF that] memcmp_eq [of "zn_name (znode M y)" name] by (auto simp: hcmp_def load_Some)
  have "\<forall>y \<in># mset (inorder t). code_at (o_h M) y = str_hash name \<longrightarrow> hcmp M name y = Inr (zn_name (znode M y) = name)"
    using E by simp
  then obtain h hm p where L: "hm_lookup (o_h M) (zs_hmap zs) (str_hash name) (hcmp M name) = Inr (h, hm, p)"
      "map_holds (h, hm) (mset (inorder t))" "frame (set_mset (mset (inorder t))) (tabs (zs_hmap zs)) (o_h M) h"
      "tabs hm \<subseteq> tabs (zs_hmap zs)"
      "found (code_eq (str_hash name) (\<lambda>y. zn_name (znode M y) = name) (code_at (o_h M))) (mset (inorder t)) p"
    by (rule map_look_framed [OF D(5)])
  note L(1)
  moreover have "zs_tree zs \<noteq> None" using tree_None [OF D(2)] False by simp
  ultimately have "zset_lookup M (Some z) name
      = Inr (M\<lparr>o_h := h, o_s := (o_s M)(z \<mapsto> zs\<lparr>zs_hmap := hm\<rparr>)\<rparr>, p)"
    using D(1) by (auto simp: zset_lookup_def load_Some)
  moreover have "zset_rep (M\<lparr>o_h := h, o_s := (o_s M)(z \<mapsto> zs\<lparr>zs_hmap := hm\<rparr>)\<rparr>) z (zs\<lparr>zs_hmap := hm\<rparr>) t"
    using R L(2) frame_code_fun [OF L(3)] by (simp add: zset_rep_def)
  moreover have "case p of None \<Rightarrow> \<forall>a \<in> set_tree t. zn_name (znode M a) \<noteq> name
       | Some a \<Rightarrow> a \<in> set_tree t \<and> zn_name (znode M a) = name"
    using L(5) D(8) by (auto simp: found_def code_eq_def split: option.splits)
  moreover have "confined z (M, zs, t) (M\<lparr>o_h := h, o_s := (o_s M)(z \<mapsto> zs\<lparr>zs_hmap := hm\<rparr>)\<rparr>, zs\<lparr>zs_hmap := hm\<rparr>, t)"
    using L(4) elsewhere_heap [OF L(3), of "set_tree t" "tabs (zs_hmap zs)"] by (auto simp: confined_def)
  ultimately show ?thesis by (rule that)
qed

section \<open>Linking a member\<close>

lemma zins_map:
  "map f (takeWhile (\<lambda>b. \<not> below f a b) xs @ a # dropWhile (\<lambda>b. \<not> below f a b) xs) = zins (f a) (map f xs)"
  by (simp add: zins_def takeWhile_map dropWhile_map o_def)

lemma mset_takeWhile: "mset (takeWhile P xs @ a # dropWhile P xs) = add_mset a (mset xs)"
  using arg_cong [OF takeWhile_dropWhile_id [of P xs], of mset] unfolding mset_append by simp

lemma link_member:
  assumes zs: "o_s M z = Some zs" and t: "tree_at (o_t M) (zs_tree zs) None t" "avl t" "distinct (inorder t)" "size t \<le> 3"
    and a: "a \<notin> set_tree t" "o_t M a = Some avl_node"
    and h: "map_holds (o_h M, zs_hmap zs) (add_mset a (mset (inorder t)))"
    and z: "\<forall>b \<in> insert a (set_tree t). o_z M b = Some (znode M b) \<and> \<not> dbl_nan (zn_score (znode M b)) \<and>
      code_at (o_h M) b = str_hash (zn_name (znode M b))"
    and inj: "inj_on (\<lambda>b. zn_name (znode M b)) (insert a (set_tree t))" and sort: "sorted_wrt (below (znode M)) (inorder t)"
  obtains M' zs' t' where "tree_add M (Some z) (Some a) = Inr M'" and "zset_rep M' z zs' t'"
    and "members M' t' = zins (znode M a) (members M t)"
    and "set_tree t' = insert a (set_tree t)" and "zs_hmap zs' = zs_hmap zs"
    and "elsewhere (insert a (set_tree t)) {} z M M'"
proof -
  have brk: "\<forall>b \<in> insert a (set_tree t). b < h_brk (o_h M)"
    using map_holds_member(1) [OF h] by (auto simp: map_alive_def)
  have nan: "\<forall>b \<in> insert a (set_tree t). \<not> dbl_nan (zn_score (znode M b))" using z by blast
  have up: "sorted_wrt (\<lambda>b b'. below (znode M) a b \<longrightarrow> below (znode M) a b') (inorder t)"
    using sort nan by (intro sorted_below(2)) simp_all
  let ?c = "search_ctx (below (znode M) a) t []"
  have ok: "path_ok (Node Leaf a Leaf) ?c"
    by (rule small_path_ok [OF t(2,4)]) (simp add: search_ctx_plug)
  have sc: "members_at M (znode M) (insert a (set_tree t))" using z by (simp add: members_at_def)
  have small: "size t < 2 ^ 30" using t(4) by simp
  obtain m p t' where T: "tree_add M (Some z) (Some a) = Inr (M\<lparr>o_t := m, o_s := (o_s M)(z \<mapsto> zs\<lparr>zs_tree := p\<rparr>)\<rparr>)"
      "tree_at m p None t'" "avl t'" "inorder t' = takeWhile (\<lambda>b. \<not> below (znode M) a b) (inorder t) @
        a # dropWhile (\<lambda>b. \<not> below (znode M) a b) (inorder t)"
      "\<forall>b. b \<notin> insert a (set_tree t) \<longrightarrow> m b = o_t M b"
    using tree_add_spec [OF zs t(1) a(2,1) sc t(3) small brk ok up] by blast
  let ?M = "M\<lparr>o_t := m, o_s := (o_s M)(z \<mapsto> zs\<lparr>zs_tree := p\<rparr>)\<rparr>"
  have ms: "mset (inorder t') = add_mset a (mset (inorder t))" unfolding T(4) by (rule mset_takeWhile)
  then have set: "set_tree t' = insert a (set_tree t)" using arg_cong [OF ms, of set_mset] unfolding set_mset_mset by simp
  have "\<forall>b \<in> set (inorder t). zn_name (znode M b) \<noteq> zn_name (znode M a)"
    using inj a(1) by (auto simp: image_iff)
  then have "sorted_wrt (below (znode M)) (inorder t')"
    unfolding T(4) using sort nan by (intro sorted_insert) simp_all
  moreover have "distinct (inorder t')"
    using t(3) a(1) ms by (metis distinct.simps(2) mset.simps(2) mset_eq_imp_distinct_iff set_inorder)
  ultimately have "zset_rep ?M z (zs\<lparr>zs_tree := p\<rparr>) t'"
    using T(2,3) ms set h z inj unfolding zset_rep_def by simp
  moreover have "members ?M t' = zins (znode M a) (members M t)"
    unfolding members_def T(4) znode_heap by (rule zins_map)
  moreover have "elsewhere (insert a (set_tree t)) {} z M ?M" using T(5) by (simp add: elsewhere_def)
  ultimately show ?thesis using that [of ?M "zs\<lparr>zs_tree := p\<rparr>" t'] T(1) set by simp
qed

section \<open>A new member\<close>

lemma find_mapped: "find P (map f xs) = map_option f (find (\<lambda>x. P (f x)) xs)"
  by (induction xs) auto

lemma find_in: "find P xs = Some x \<Longrightarrow> x \<in> set xs \<and> P x"
  by (induction xs) (auto split: if_splits)

lemma find_members:
  assumes "inj_on (\<lambda>a. zn_name (znode M a)) (set_tree t)"
  shows "zmember name (members M t) = None \<longleftrightarrow> (\<forall>a \<in> set_tree t. zn_name (znode M a) \<noteq> name)"
    and "a \<in> set_tree t \<Longrightarrow> zn_name (znode M a) = name \<Longrightarrow> zmember name (members M t) = Some (znode M a)"
proof -
  show "zmember name (members M t) = None \<longleftrightarrow> (\<forall>a \<in> set_tree t. zn_name (znode M a) \<noteq> name)"
    by (auto simp: zmember_def members_def find_None_iff)
  assume a: "a \<in> set_tree t" "zn_name (znode M a) = name"
  then obtain b where b: "find (\<lambda>b. zn_name (znode M b) = name) (inorder t) = Some b"
    by (cases "find (\<lambda>b. zn_name (znode M b) = name) (inorder t)") (auto simp: find_None_iff)
  then have "b \<in> set_tree t" "zn_name (znode M b) = name" using find_in [OF b] by simp_all
  then have "b = a" using a assms by (auto dest: inj_onD)
  then show "zmember name (members M t) = Some (znode M a)"
    using b by (simp add: zmember_def members_def find_mapped)
qed

text \<open>
  Up to the call of \<open>tree_add\<close>: the new member is in the hash map and the tree of the set is still the one of before.
\<close>

definition linkable :: "addr \<Rightarrow> objs \<Rightarrow> addr tree \<Rightarrow> ZNode \<Rightarrow> objs \<Rightarrow> ZSet \<Rightarrow> addr \<Rightarrow> bool" where
  "linkable z M t q M2 zs2 a \<longleftrightarrow> o_s M2 z = Some zs2 \<and> tree_at (o_t M2) (zs_tree zs2) None t \<and>
     a \<notin> set_tree t \<and> o_t M2 a = Some avl_node \<and> map_holds (o_h M2, zs_hmap zs2) (add_mset a (mset (inorder t))) \<and>
     znode M2 = (znode M)(a := q) \<and>
     (\<forall>b \<in> insert a (set_tree t). o_z M2 b = Some (znode M2 b) \<and> \<not> dbl_nan (zn_score (znode M2 b)) \<and>
        code_at (o_h M2) b = str_hash (zn_name (znode M2 b))) \<and>
     inj_on (\<lambda>b. zn_name (znode M2 b)) (insert a (set_tree t)) \<and> sorted_wrt (below (znode M2)) (inorder t)"

lemma add_prepares:
  assumes R: "zset_rep M z zs t" and new: "\<forall>a \<in> set_tree t. zn_name (znode M a) \<noteq> name"
    and small: "size t < 2 ^ 30" and score: "\<not> dbl_nan score"
  obtains M2 zs2 a where "zset_add M (Some z) name score = bindr (tree_add M2 (Some z) (Some a)) (\<lambda>M3. Inr (M3, True))"
    and "linkable z M t \<lparr>zn_score = score, zn_name = name\<rparr> M2 zs2 a" and "h_brk (o_h M) \<le> a"
    and "elsewhere (set_tree t) (tabs (zs_hmap zs)) z M M2"
    and "tabs (zs_hmap zs2) \<subseteq> tabs (zs_hmap zs) \<union> {h_brk (o_h M)..}"
proof -
  let ?q = "\<lparr>zn_score = score, zn_name = name\<rparr>"
  obtain h0 hm0 p where L: "zset_lookup M (Some z) name
        = Inr (M\<lparr>o_h := h0, o_s := (o_s M)(z \<mapsto> zs\<lparr>zs_hmap := hm0\<rparr>)\<rparr>, p)"
      "zset_rep (M\<lparr>o_h := h0, o_s := (o_s M)(z \<mapsto> zs\<lparr>zs_hmap := hm0\<rparr>)\<rparr>) z (zs\<lparr>zs_hmap := hm0\<rparr>) t"
      "case p of None \<Rightarrow> \<forall>a \<in> set_tree t. zn_name (znode M a) \<noteq> name
       | Some a \<Rightarrow> a \<in> set_tree t \<and> zn_name (znode M a) = name"
      "confined z (M, zs, t) (M\<lparr>o_h := h0, o_s := (o_s M)(z \<mapsto> zs\<lparr>zs_hmap := hm0\<rparr>)\<rparr>, zs\<lparr>zs_hmap := hm0\<rparr>, t)"
    by (rule lookup_member [OF R])
  have p: "p = None" using L(3) new by (cases p) auto
  define M1 where "M1 = M\<lparr>o_h := h0, o_s := (o_s M)(z \<mapsto> zs\<lparr>zs_hmap := hm0\<rparr>)\<rparr>"
  let ?a = "fresh M1" and ?h1 = "o_h M1" and ?zs = "zs\<lparr>zs_hmap := hm0\<rparr>"
  note D = zset_repD [OF L(2) [folded M1_def]]
  have znode1: "znode M1 = znode M" by (simp add: M1_def)
  have fresh: "?a \<notin> set_tree t" using zset_rep_brk [OF L(2) [folded M1_def], of ?a] by (auto simp: fresh_def)
  define h2 where "h2 = ?h1\<lparr>h_nodes := (h_nodes ?h1)(?a \<mapsto> \<lparr>h_next = None, h_code = str_hash name\<rparr>), h_brk := ?a + 1\<rparr>"
  have "map_holds (h2, zs_hmap ?zs) (mset (inorder t))"
    by (rule map_holds_alloc [OF D(5)]) (use fresh in \<open>auto simp: h2_def fresh_def\<close>)
  moreover have "map_alive (h2, zs_hmap ?zs) ?a" by (simp add: map_alive_def h2_def)
  moreover have "?a \<notin># mset (inorder t)" using fresh by simp
  moreover have "size (mset (inorder t)) + 1 < 2 ^ 64" using small by simp
  ultimately obtain h hm where I: "hm_insert h2 (zs_hmap ?zs) (Some ?a) = Inr (h, hm)"
      "map_holds (h, hm) (add_mset ?a (mset (inorder t)))"
      "frame (insert ?a (set_mset (mset (inorder t)))) (tabs (zs_hmap ?zs) \<union> {h_brk h2..}) h2 h"
      "tabs hm \<subseteq> tabs (zs_hmap ?zs) \<union> {h_brk h2..}"
    by (rule map_ins_framed)
  have code: "code_at h b = (if b = ?a then str_hash name else code_at ?h1 b)" for b
    using frame_code [OF I(3), of b] by (simp add: h2_def code_at_def)
  let ?M2 = "M1\<lparr>o_t := (o_t M1)(?a \<mapsto> avl_node), o_z := (o_z M1)(?a \<mapsto> ?q), o_h := h,
      o_s := (o_s M1)(z \<mapsto> ?zs\<lparr>zs_hmap := hm\<rparr>)\<rparr>"
  have zn: "znode ?M2 = (znode M)(?a := ?q)" by (auto simp: znode_def M1_def fun_eq_iff)
  have run: "zset_add M (Some z) name score = bindr (tree_add ?M2 (Some z) (Some ?a)) (\<lambda>M3. Inr (M3, True))"
    using L(1) p D(1) I(1)
    by (simp add: zset_add_def M1_def [symmetric] znode_new_def Let_def load_Some h2_def)
  have "tree_at (o_t ?M2) (zs_tree (?zs\<lparr>zs_hmap := hm\<rparr>)) None t"
    using tree_at_off [OF D(2), where X = "{?a}" and m' = "o_t ?M2"] fresh by simp
  moreover have "\<forall>b \<in> insert ?a (set_tree t). o_z ?M2 b = Some (znode ?M2 b) \<and> \<not> dbl_nan (zn_score (znode ?M2 b)) \<and>
      code_at (o_h ?M2) b = str_hash (zn_name (znode ?M2 b))"
    using D(6-8) score fresh unfolding zn znode1 by (auto simp: code)
  moreover have "inj_on (\<lambda>b. zn_name (znode ?M2 b)) (insert ?a (set_tree t))"
    using D(9) new fresh unfolding zn znode1 by (auto simp: inj_on_def)
  moreover have "sorted_wrt (below (znode ?M2)) (inorder t)"
    unfolding zn by (rule sorted_wrt_mono_rel [OF _ D(10) [unfolded znode1]]) (use fresh in auto)
  ultimately have link: "linkable z M t ?q ?M2 (?zs\<lparr>zs_hmap := hm\<rparr>) ?a"
    using I(2) fresh zn unfolding linkable_def by simp
  have E: "h_nodes h b = h_nodes ?h1 b" if "b \<notin> set_tree t" "b < h_brk ?h1" for b
    using frame_nodes [OF I(3), of b] that by (simp add: h2_def fresh_def)
  have "h_arrs h b = h_arrs ?h1 b" if "b \<notin> tabs (zs_hmap ?zs)" "b < h_brk ?h1" for b
    using frame_arrs [OF I(3), of b] that by (simp add: h2_def fresh_def)
  then have "elsewhere (set_tree t) (tabs (zs_hmap ?zs)) z M1 ?M2"
    using frame_brk [OF I(3)] E by (simp add: elsewhere_def h2_def fresh_def)
  moreover have "tabs hm \<subseteq> tabs (zs_hmap ?zs) \<union> {h_brk ?h1..}"
    by (rule subset_trans [OF I(4)]) (auto simp: h2_def fresh_def)
  ultimately have "confined z (M1, ?zs, t) (?M2, ?zs\<lparr>zs_hmap := hm\<rparr>, t)" unfolding confined_def by simp
  then have "confined z (M, zs, t) (?M2, ?zs\<lparr>zs_hmap := hm\<rparr>, t)" by (rule confined_trans [OF L(4) [folded M1_def]])
  moreover have "h_brk (o_h M) \<le> ?a" using L(4) [folded M1_def] by (simp add: confined_def elsewhere_def fresh_def)
  ultimately show ?thesis using that [OF run link] by (simp add: confined_def)
qed

lemma add_member:
  assumes R: "zset_rep M z zs t" and new: "\<forall>a \<in> set_tree t. zn_name (znode M a) \<noteq> name"
    and small: "size t \<le> 3" and score: "\<not> dbl_nan score"
  obtains M' zs' t' where "zset_add M (Some z) name score = Inr (M', True)" and "zset_rep M' z zs' t'"
    and "members M' t' = zins \<lparr>zn_score = score, zn_name = name\<rparr> (members M t)"
    and "confined z (M, zs, t) (M', zs', t')"
proof -
  have "size t < 2 ^ 30" using small by simp
  then obtain M2 zs2 a where A: "zset_add M (Some z) name score = bindr (tree_add M2 (Some z) (Some a)) (\<lambda>M3. Inr (M3, True))"
      "linkable z M t \<lparr>zn_score = score, zn_name = name\<rparr> M2 zs2 a" "h_brk (o_h M) \<le> a"
      "elsewhere (set_tree t) (tabs (zs_hmap zs)) z M M2" "tabs (zs_hmap zs2) \<subseteq> tabs (zs_hmap zs) \<union> {h_brk (o_h M)..}"
    using add_prepares [OF R new _ score] by metis
  note L = A(2) [unfolded linkable_def]
  obtain M' zs' t' where T: "tree_add M2 (Some z) (Some a) = Inr M'" "zset_rep M' z zs' t'"
      "members M' t' = zins (znode M2 a) (members M2 t)" "set_tree t' = insert a (set_tree t)"
      "zs_hmap zs' = zs_hmap zs2" "elsewhere (insert a (set_tree t)) {} z M2 M'"
    using link_member [of M2 z zs2 t a] zset_repD(3,4) [OF R] small L by metis
  have "elsewhere (set_tree t) (tabs (zs_hmap zs)) z M M'"
    by (rule elsewhere_trans [OF A(4) T(6)]) (use A(3) in auto)
  then have "confined z (M, zs, t) (M', zs', t')"
    unfolding confined_def using A(3,5) T(4,5) by auto
  moreover have "members M2 t = members M t" using L unfolding members_def by auto
  ultimately show ?thesis using that [of M' zs' t'] A(1) T(1-3) L by simp
qed

section \<open>A new score\<close>

lemma inorder_remove:
  assumes "distinct (inorder t)" and "inorder t' = take i (inorder t) @ drop (Suc i) (inorder t)" and "i < size t"
  shows "inorder t' = filter (\<lambda>b. b \<noteq> inorder t ! i) (inorder t)" and "set_tree t' = set_tree t - {inorder t ! i}"
    and "size t' = size t - 1"
proof -
  let ?a = "inorder t ! i"
  have d: "inorder t = take i (inorder t) @ ?a # drop (Suc i) (inorder t)"
    by (rule id_take_nth_drop) (simp add: assms(3))
  then have "?a \<notin> set (take i (inorder t))" "?a \<notin> set (drop (Suc i) (inorder t))"
    using assms(1) by (metis distinct_append distinct.simps(2) not_distinct_conv_prefix)+
  then have "filter (\<lambda>b. b \<noteq> ?a) (take i (inorder t)) = take i (inorder t)"
      "filter (\<lambda>b. b \<noteq> ?a) (drop (Suc i) (inorder t)) = drop (Suc i) (inorder t)"
    by (auto simp: filter_id_conv)
  then show f: "inorder t' = filter (\<lambda>b. b \<noteq> ?a) (inorder t)"
    unfolding assms(2) by (subst (4) d) (simp only: filter_append filter.simps simp_thms if_False)
  show "set_tree t' = set_tree t - {?a}" using arg_cong [OF f, of set] by auto
  show "size t' = size t - 1" using arg_cong [OF assms(2), of length] assms(3) by simp
qed

lemma update_member:
  assumes R: "zset_rep M z zs t" and a: "a \<in> set_tree t" and small: "size t \<le> 4" and score: "\<not> dbl_nan score"
    and new: "\<not> dbl_eq (zn_score (znode M a)) score"
  obtains M' zs' t' where "zset_update M (Some z) (Some a) score = Inr M'" and "zset_rep M' z zs' t'"
    and "members M' t' = zins \<lparr>zn_score = score, zn_name = zn_name (znode M a)\<rparr>
      (filter (\<lambda>p. zn_name p \<noteq> zn_name (znode M a)) (members M t))"
    and "confined z (M, zs, t) (M', zs', t')"
proof -
  note D = zset_repD [OF R]
  let ?q = "\<lparr>zn_score = score, zn_name = zn_name (znode M a)\<rparr>"
  obtain i where i: "i < size t" "inorder t ! i = a" using a by (metis in_set_conv_nth length_inorder set_inorder)
  have "size t < h_brk (o_h M) + 1" using tree_fuel [of t M] D(4) zset_rep_brk [OF R]
      distinct_bounded_length [OF D(4), of "h_brk (o_h M)"] by (simp add: less_Suc_eq_le)
  then have fuel: "2 * size t + 2 \<le> o_fuel M" by (simp add: o_fuel_def)
  obtain m1 p1 t1 where V: "avl_del (o_fuel M) (o_t M) (Some a) = Inr (m1, p1)" "tree_at m1 p1 None t1" "avl t1"
      "inorder t1 = take i (inorder t) @ drop (Suc i) (inorder t)" "\<forall>b. (m1 b = None) = (o_t M b = None)"
      "\<forall>b. b \<notin> set_tree t \<longrightarrow> m1 b = o_t M b"
    using avl_del_any [OF D(2,4,3) small i(1) fuel] unfolding i(2) by blast
  note I = inorder_remove [OF D(4) V(4) i(1), unfolded i(2)]
  obtain n where n: "m1 a = Some n" using V(5) tree_alive [OF D(2) a] by (metis option.exhaust)
  let ?M = "M\<lparr>o_s := (o_s M)(z \<mapsto> zs\<lparr>zs_tree := p1\<rparr>), o_z := (o_z M)(a \<mapsto> ?q), o_t := m1(a \<mapsto> avl_node)\<rparr>"
  have q: "(znode M a)\<lparr>zn_score := score\<rparr> = ?q" by (cases "znode M a") simp
  have zn: "znode ?M = (znode M)(a := ?q)" by (auto simp: znode_def fun_eq_iff)
  have run: "zset_update M (Some z) (Some a) score = tree_add ?M (Some z) (Some a)"
    using D(1) D(6) [OF a] new V(1) n
    by (simp add: zset_update_def load_Some set_tree_root_def update_Some avl_init_def q)
  have zs: "o_s ?M z = Some (zs\<lparr>zs_tree := p1\<rparr>)" by simp
  have at: "tree_at (o_t ?M) (zs_tree (zs\<lparr>zs_tree := p1\<rparr>)) None t1"
    using tree_at_off [OF V(2), where X = "{a}" and m' = "o_t ?M"] I(2) by simp
  have whole: "insert a (set_tree t1) = set_tree t" and out: "a \<notin> set_tree t1" and few: "size t1 \<le> 3"
    using I(2,3) a small by auto
  have "mset (inorder t) = add_mset a (mset (inorder t1))"
    using id_take_nth_drop [of i "inorder t"] i unfolding V(4) by (metis length_inorder mset_append mset.simps(2) union_mset_add_mset_right)
  then have holds: "map_holds (o_h ?M, zs_hmap (zs\<lparr>zs_tree := p1\<rparr>)) (add_mset a (mset (inorder t1)))" using D(5) by simp
  have ok: "\<forall>b \<in> insert a (set_tree t1). o_z ?M b = Some (znode ?M b) \<and> \<not> dbl_nan (zn_score (znode ?M b)) \<and>
      code_at (o_h ?M) b = str_hash (zn_name (znode ?M b))"
    using D(6-8) score a unfolding zn whole by auto
  have inj: "inj_on (\<lambda>b. zn_name (znode ?M b)) (insert a (set_tree t1))"
    using D(9) a unfolding zn whole by (auto simp: inj_on_def)
  have "sorted_wrt (below (znode M)) (inorder t1)"
    unfolding I(1) by (rule sorted_wrt_filter [OF D(10)])
  then have sorted: "sorted_wrt (below (znode ?M)) (inorder t1)"
    unfolding zn by (rule sorted_wrt_mono_rel [rotated]) (use I(2) in auto)
  have dist: "distinct (inorder t1)" using D(4) unfolding I(1) by simp
  have init: "o_t ?M a = Some avl_node" by simp
  obtain M' zs' t' where T: "tree_add ?M (Some z) (Some a) = Inr M'" "zset_rep M' z zs' t'"
      "members M' t' = zins (znode ?M a) (members ?M t1)" "set_tree t' = insert a (set_tree t1)"
      "zs_hmap zs' = zs_hmap (zs\<lparr>zs_tree := p1\<rparr>)" "elsewhere (insert a (set_tree t1)) {} z ?M M'"
    by (rule link_member [OF zs at V(3) dist few out init holds ok inj sorted])
  have "elsewhere (set_tree t) (tabs (zs_hmap zs)) z M ?M" using V(6) a by (auto simp: elsewhere_def)
  then have "elsewhere (set_tree t) (tabs (zs_hmap zs)) z M M'"
    by (rule elsewhere_trans [OF _ T(6)]) (use whole in auto)
  then have C: "confined z (M, zs, t) (M', zs', t')" unfolding confined_def using T(4,5) whole by auto
  have "members ?M t1 = map (znode M) (filter (\<lambda>b. b \<noteq> a) (inorder t))"
    unfolding members_def zn I(1) by simp
  also have "\<dots> = map (znode M) (filter (\<lambda>b. zn_name (znode M b) \<noteq> zn_name (znode M a)) (inorder t))"
    using D(9) a by (auto intro!: arg_cong [of _ _ "map (znode M)"] filter_cong dest: inj_onD)
  also have "\<dots> = filter (\<lambda>p. zn_name p \<noteq> zn_name (znode M a)) (members M t)"
    unfolding members_def filter_map o_def ..
  finally show ?thesis using that [OF run [unfolded T(1)] T(2) _ C] T(3) unfolding zn by simp
qed

section \<open>Additions and range queries\<close>

lemma length_zins: "length (zins q xs) = Suc (length xs)"
  using arg_cong [OF takeWhile_dropWhile_id [of "\<lambda>p. \<not> zless_nodes q p" xs], of length]
  unfolding length_append zins_def by simp

lemma length_without:
  assumes "distinct (map f xs)"
  shows "length xs \<le> Suc (length (filter (\<lambda>x. f x \<noteq> k) xs))"
  using assms
proof (induction xs)
  case (Cons x xs)
  have "f y \<noteq> f x" if "y \<in> set xs" for y
    using Cons.prems imageI [OF that, of f] by auto
  then have "filter (\<lambda>y. f y \<noteq> k) xs = xs" if "f x = k" using that by simp
  then show ?case using Cons by (cases "f x = k") simp_all
qed simp

lemma length_zput: "distinct (map zn_name xs) \<Longrightarrow> length xs \<le> length (zput name score xs)"
  using length_without [of zn_name xs name] by (simp add: zput_def length_zins Let_def split: option.split)

lemma distinct_members: "zset_rep M z zs t \<Longrightarrow> distinct (map zn_name (members M t))"
  by (simp add: zset_rep_def members_def distinct_map comp_inj_on_iff o_def inj_on_def)

lemma put_member:
  assumes R: "zset_rep M z zs t" and score: "\<not> dbl_nan score" and small: "length (zput name score (members M t)) \<le> 4"
  obtains M' zs' t' where "zset_add M (Some z) name score = Inr (M', zmember name (members M t) = None)"
    and "zset_rep M' z zs' t'" and "members M' t' = zput name score (members M t)"
    and "confined z (M, zs, t) (M', zs', t')"
proof -
  let ?xs = "members M t"
  have len: "length ?xs = size t" by (simp add: members_def)
  note F = find_members [OF zset_repD(9) [OF R], where name = name]
  show ?thesis
  proof (cases "zmember name ?xs")
    case None
    then have new: "\<forall>a \<in> set_tree t. zn_name (znode M a) \<noteq> name" using F(1) by simp
    have "length (zins \<lparr>zn_score = score, zn_name = name\<rparr> ?xs) \<le> 4" using small None by (simp add: zput_def)
    then have "size t \<le> 3" using len by (simp add: length_zins)
    from add_member [OF R new this score] show ?thesis using that None by (simp add: zput_def) metis
  next
    case (Some p)
    obtain h0 hm0 q where L: "zset_lookup M (Some z) name
          = Inr (M\<lparr>o_h := h0, o_s := (o_s M)(z \<mapsto> zs\<lparr>zs_hmap := hm0\<rparr>)\<rparr>, q)"
        "zset_rep (M\<lparr>o_h := h0, o_s := (o_s M)(z \<mapsto> zs\<lparr>zs_hmap := hm0\<rparr>)\<rparr>) z (zs\<lparr>zs_hmap := hm0\<rparr>) t"
        "case q of None \<Rightarrow> \<forall>a \<in> set_tree t. zn_name (znode M a) \<noteq> name
         | Some a \<Rightarrow> a \<in> set_tree t \<and> zn_name (znode M a) = name"
        "confined z (M, zs, t) (M\<lparr>o_h := h0, o_s := (o_s M)(z \<mapsto> zs\<lparr>zs_hmap := hm0\<rparr>)\<rparr>, zs\<lparr>zs_hmap := hm0\<rparr>, t)"
      by (rule lookup_member [OF R])
    define M1 where "M1 = M\<lparr>o_h := h0, o_s := (o_s M)(z \<mapsto> zs\<lparr>zs_hmap := hm0\<rparr>)\<rparr>"
    have same: "znode M1 = znode M" "members M1 t = ?xs" by (simp_all add: M1_def members_def)
    obtain a where a: "q = Some a" "a \<in> set_tree t" "zn_name (znode M a) = name"
      using L(3) F(1) Some by (cases q) auto
    then have p: "p = znode M a" using F(2) [OF a(2,3)] Some by simp
    have add: "zset_add M (Some z) name score = bindr (zset_update M1 (Some z) (Some a) score) (\<lambda>M2. Inr (M2, False))"
      using L(1) a(1) by (simp add: zset_add_def M1_def)
    show ?thesis
    proof (cases "dbl_eq (zn_score p) score")
      case True
      then have "zset_update M1 (Some z) (Some a) score = Inr M1"
        using zset_repD(6) [OF L(2) [folded M1_def] a(2)] p same by (simp add: zset_update_def load_Some)
      then show ?thesis using that [of M1 "zs\<lparr>zs_hmap := hm0\<rparr>" t] add L(2,4) [folded M1_def] Some True same
        by (simp add: zput_def)
    next
      case False
      have "size t \<le> 4" using small length_zput [OF distinct_members [OF R], of name score] len by simp
      moreover have "\<not> dbl_eq (zn_score (znode M1 a)) score" using False p same by simp
      ultimately obtain M' zs' t' where U: "zset_update M1 (Some z) (Some a) score = Inr M'" "zset_rep M' z zs' t'"
          "members M' t' = zins \<lparr>zn_score = score, zn_name = zn_name (znode M1 a)\<rparr>
            (filter (\<lambda>p. zn_name p \<noteq> zn_name (znode M1 a)) (members M1 t))"
          "confined z (M1, zs\<lparr>zs_hmap := hm0\<rparr>, t) (M', zs', t')"
        using update_member [OF L(2) [folded M1_def] a(2) _ score] by metis
      then show ?thesis using that [of M' zs' t'] confined_trans [OF L(4) [folded M1_def]] add Some False same a(3)
        by (simp add: zput_def)
    qed
  qed
qed

lemma find_first: "find (\<lambda>x. \<not> P x) xs
    = (if length (takeWhile P xs) < length xs then Some (xs ! length (takeWhile P xs)) else None)"
  by (induction xs) auto

lemma query_place:
  assumes R: "zset_rep M z zs t" and score: "\<not> dbl_nan score" and small: "size t \<le> 4"
    and i: "i = length (takeWhile (\<lambda>p. zless_nodes p \<lparr>zn_score = score, zn_name = []\<rparr>) (members M t))"
  obtains p where "zset_query M (Some z) score [] = Inr p"
    and "znode_offset M p offset = Inr (if i < size t then place (inorder t) (int i + offset) else None)"
proof -
  note D = zset_repD [OF R]
  let ?x = "\<lparr>zn_score = score, zn_name = []\<rparr>"
  have i': "i = length (takeWhile (\<lambda>b. zless_nodes (znode M b) ?x) (inorder t))"
    unfolding i by (simp add: members_def takeWhile_map o_def)
  have sz: "size t < o_fuel M" by (rule tree_fuel [OF D(4)]) (use zset_rep_brk [OF R] in blast)
  have "sorted_wrt (\<lambda>a b. zless_nodes (znode M b) ?x \<longrightarrow> zless_nodes (znode M a) ?x) (inorder t)"
    using D(7,10) score by (intro sorted_below(1)) simp_all
  moreover have "members_at M (znode M) (set_tree t)" using D(6) by (simp add: members_at_def)
  moreover have "height t < o_fuel M" using sz height_le_size_tree [of t] by simp
  ultimately have "query_loop (o_fuel M) M ?x (zs_tree zs) None
      = Inr (find (\<lambda>b. \<not> zless_nodes (znode M b) ?x) (inorder t))"
    using query_loop_spec [OF D(2), of "znode M" "o_fuel M" ?x None] by (simp split: option.splits)
  then have Q: "zset_query M (Some z) score [] = Inr (if i < size t then Some (inorder t ! i) else None)"
    using D(1) unfolding i' by (simp add: zset_query_def load_Some find_first)
  show ?thesis
  proof (cases "i < size t")
    case True
    have "znode_offset M (Some (inorder t ! i)) offset = Inr (place (inorder t) (int i + offset))"
      unfolding znode_offset_def using avl_offset_place [OF D(2,4) _ True, of "2 * o_fuel M" offset] small sz by simp
    then show ?thesis using that [OF Q] True by simp
  next
    case False
    then show ?thesis using that [OF Q] by (simp add: znode_offset_def)
  qed
qed

lemma query_member:
  assumes R: "zset_rep M z zs t" and "\<not> dbl_nan score" and "size t \<le> 4"
  obtains p q where "zset_query M (Some z) score [] = Inr p" and "znode_offset M p offset = Inr q"
    and "map_option (znode M) q = zfrom score offset (members M t)" and "set_option q \<subseteq> set_tree t"
proof -
  let ?i = "length (takeWhile (\<lambda>p. zless_nodes p \<lparr>zn_score = score, zn_name = []\<rparr>) (members M t))"
  let ?q = "if ?i < size t then place (inorder t) (int ?i + offset) else None"
  obtain p where Q: "zset_query M (Some z) score [] = Inr p" "znode_offset M p offset = Inr ?q"
    by (rule query_place [OF assms refl])
  have "map_option (znode M) ?q = zfrom score offset (members M t)"
    by (simp add: zfrom_def place_def members_def Let_def nat_less_iff)
  moreover have "set_option (place (inorder t) k) \<subseteq> set_tree t" for k
    by (auto simp: place_def nat_less_iff nth_mem simp flip: set_inorder simp del: set_inorder)
  then have "set_option ?q \<subseteq> set_tree t" by simp
  ultimately show ?thesis using that [OF Q] by simp
qed

section \<open>Histories\<close>

text \<open>Operations on one set: an addition or a change, a lookup by name, a range query for one member.\<close>

datatype zop = ZPut bytes dbl | ZGet bytes | ZFrom dbl int

datatype zans = Added bool | Member "ZNode option"

definition read_member :: "objs \<Rightarrow> ptr \<Rightarrow> (objs \<times> zans) res" where
  "read_member M p = (case p of None \<Rightarrow> Inr (M, Member None)
     | Some _ \<Rightarrow> bindr (load (o_z M) p) (\<lambda>q. Inr (M, Member (Some q))))"

fun zrun :: "objs \<Rightarrow> addr \<Rightarrow> zop \<Rightarrow> (objs \<times> zans) res" where
  "zrun M z (ZPut name score) = bindr (zset_add M (Some z) name score) (\<lambda>(M', b). Inr (M', Added b))"
| "zrun M z (ZGet name) = bindr (zset_lookup M (Some z) name) (\<lambda>(M', p). read_member M' p)"
| "zrun M z (ZFrom score offset) =
     bindr (zset_query M (Some z) score []) (\<lambda>p. bindr (znode_offset M p offset) (read_member M))"

primrec zserve :: "objs \<Rightarrow> addr \<Rightarrow> zop list \<Rightarrow> (objs \<times> zans list) res" where
  "zserve M z [] = Inr (M, [])"
| "zserve M z (op # ops) = bindr (zrun M z op) (\<lambda>(M', x). bindr (zserve M' z ops) (\<lambda>(M2, xs). Inr (M2, x # xs)))"

fun znext :: "zop \<Rightarrow> ZNode list \<Rightarrow> ZNode list" where
  "znext (ZPut name score) xs = zput name score xs"
| "znext _ xs = xs"

fun zanswer :: "zop \<Rightarrow> ZNode list \<Rightarrow> zans" where
  "zanswer (ZPut name score) xs = Added (zmember name xs = None)"
| "zanswer (ZGet name) xs = Member (zmember name xs)"
| "zanswer (ZFrom score offset) xs = Member (zfrom score offset xs)"

primrec zanswers :: "zop list \<Rightarrow> ZNode list \<Rightarrow> zans list" where
  "zanswers [] xs = []"
| "zanswers (op # ops) xs = zanswer op xs # zanswers ops (znext op xs)"

fun zscore_ok :: "zop \<Rightarrow> bool" where
  "zscore_ok (ZPut name score) = (\<not> dbl_nan score)"
| "zscore_ok (ZGet name) = True"
| "zscore_ok (ZFrom score offset) = (\<not> dbl_nan score)"

fun zname :: "zop \<Rightarrow> bytes set" where
  "zname (ZPut name score) = {name}"
| "zname _ = {}"

abbreviation names :: "ZNode list \<Rightarrow> bytes set" where
  "names xs \<equiv> set (map zn_name xs)"

lemma mset_zins: "mset (zins q xs) = add_mset q (mset xs)"
  unfolding zins_def by (rule mset_takeWhile)

lemma set_zins [simp]: "set (zins q xs) = insert q (set xs)"
  using mset_eq_setD [OF mset_zins [of q xs, folded mset.simps(2)]] by simp

lemma zput_names:
  assumes "distinct (map zn_name xs)"
  shows "distinct (map zn_name (zput name score xs))" and "names (zput name score xs) = insert name (names xs)"
proof -
  have m: "mset (map zn_name (zins q ys)) = mset (zn_name q # map zn_name ys)" for q ys by (simp add: mset_zins)
  note I = mset_eq_imp_distinct_iff [OF m]
  have "zmember name xs = None \<longleftrightarrow> name \<notin> names xs" by (auto simp: zmember_def find_None_iff)
  moreover have "distinct (map zn_name (filter P xs))" for P by (rule distinct_map_filter [OF assms])
  ultimately show "distinct (map zn_name (zput name score xs))" "names (zput name score xs) = insert name (names xs)"
    using assms unfolding zput_def Let_def by (auto simp: I split: option.splits)
qed

text \<open>One operation.\<close>

lemma zrun_one:
  assumes R: "zset_rep M z zs t" and op: "zscore_ok op" "card (names (members M t) \<union> zname op) \<le> 4"
  obtains M' zs' t' where "zrun M z op = Inr (M', zanswer op (members M t))" and "zset_rep M' z zs' t'"
    and "members M' t' = znext op (members M t)"
proof (cases op)
  case (ZPut name score)
  have "length (zput name score (members M t)) = card (names (zput name score (members M t)))"
    using distinct_card [OF zput_names(1) [OF distinct_members [OF R], of name score]] by simp
  also have "\<dots> \<le> 4" using op(2) ZPut unfolding zput_names(2) [OF distinct_members [OF R]] by simp
  finally have len: "length (zput name score (members M t)) \<le> 4" .
  have score: "\<not> dbl_nan score" using op(1) ZPut by simp
  obtain M' zs' t' where "zset_add M (Some z) name score = Inr (M', zmember name (members M t) = None)"
      "zset_rep M' z zs' t'" "members M' t' = zput name score (members M t)" "confined z (M, zs, t) (M', zs', t')"
    by (rule put_member [OF R score len])
  then show ?thesis using that [of M' zs' t'] ZPut by simp
next
  case (ZGet name)
  obtain h hm p where L: "zset_lookup M (Some z) name
        = Inr (M\<lparr>o_h := h, o_s := (o_s M)(z \<mapsto> zs\<lparr>zs_hmap := hm\<rparr>)\<rparr>, p)"
      "zset_rep (M\<lparr>o_h := h, o_s := (o_s M)(z \<mapsto> zs\<lparr>zs_hmap := hm\<rparr>)\<rparr>) z (zs\<lparr>zs_hmap := hm\<rparr>) t"
      "case p of None \<Rightarrow> \<forall>a \<in> set_tree t. zn_name (znode M a) \<noteq> name
       | Some a \<Rightarrow> a \<in> set_tree t \<and> zn_name (znode M a) = name"
      "confined z (M, zs, t) (M\<lparr>o_h := h, o_s := (o_s M)(z \<mapsto> zs\<lparr>zs_hmap := hm\<rparr>)\<rparr>, zs\<lparr>zs_hmap := hm\<rparr>, t)"
    by (rule lookup_member [OF R])
  note F = find_members [OF zset_repD(9) [OF R], where name = name]
  have "zrun M z op = Inr (M\<lparr>o_h := h, o_s := (o_s M)(z \<mapsto> zs\<lparr>zs_hmap := hm\<rparr>)\<rparr>, zanswer op (members M t))"
  proof (cases p)
    case None
    then show ?thesis using L(1,3) F(1) ZGet by (simp add: read_member_def)
  next
    case (Some a)
    then have a: "a \<in> set_tree t" "zn_name (znode M a) = name" using L(3) by simp_all
    then show ?thesis using L(1) F(2) [OF a] zset_repD(6) [OF R a(1)] ZGet Some by (simp add: read_member_def load_Some)
  qed
  then show ?thesis using that [OF _ L(2)] ZGet by (simp add: members_def)
next
  case (ZFrom score offset)
  have "size t = card (names (members M t))"
    using distinct_card [OF distinct_members [OF R]] by (simp add: members_def)
  then have "size t \<le> 4" using op(2) ZFrom by simp
  then obtain p q where Q: "zset_query M (Some z) score [] = Inr p" "znode_offset M p offset = Inr q"
      "map_option (znode M) q = zfrom score offset (members M t)" "set_option q \<subseteq> set_tree t"
    using query_member [OF R] op(1) ZFrom by (metis zscore_ok.simps(3))
  have "zrun M z op = Inr (M, zanswer op (members M t))"
  proof (cases q)
    case (Some a)
    then have "zfrom score offset (members M t) = Some (znode M a)" "o_z M a = Some (znode M a)"
      using Q(3,4) zset_repD(6) [OF R, of a] by simp_all
    then show ?thesis using Q(1,2) Some ZFrom by (simp add: read_member_def load_Some)
  qed (use Q ZFrom in \<open>simp add: read_member_def\<close>)
  then show ?thesis using that [OF _ R] ZFrom by simp
qed

lemma zserve_from:
  assumes "zset_rep M z zs t" and "\<forall>op \<in> set ops. zscore_ok op"
    and "card (names (members M t) \<union> (\<Union>op \<in> set ops. zname op)) \<le> 4"
  shows "\<exists>M' zs' t'. zserve M z ops = Inr (M', zanswers ops (members M t)) \<and> zset_rep M' z zs' t' \<and>
    members M' t' = fold znext ops (members M t)"
  using assms
proof (induction ops arbitrary: M zs t)
  case Nil
  then show ?case by auto
next
  case (Cons op ops)
  have fin: "finite (zname op)" for op by (cases op) auto
  let ?N = "names (members M t) \<union> (\<Union>op \<in> set (op # ops). zname op)"
  have "card (names (members M t) \<union> zname op) \<le> card ?N" using fin by (intro card_mono) auto
  then have c: "card (names (members M t) \<union> zname op) \<le> 4" using Cons.prems(3) by (rule le_trans)
  have ok: "zscore_ok op" using Cons.prems(2) by simp
  obtain M' zs' t' where S: "zrun M z op = Inr (M', zanswer op (members M t))" "zset_rep M' z zs' t'"
      "members M' t' = znext op (members M t)"
    by (rule zrun_one [OF Cons.prems(1) ok c])
  have "names (znext op (members M t)) \<subseteq> names (members M t) \<union> zname op"
    using zput_names(2) [OF distinct_members [OF Cons.prems(1)]] by (cases op) auto
  then have "card (names (members M' t') \<union> (\<Union>op \<in> set ops. zname op)) \<le> card ?N"
    using fin unfolding S(3) by (intro card_mono) auto
  then obtain M2 zs2 t2 where "zserve M' z ops = Inr (M2, zanswers ops (members M' t'))" "zset_rep M2 z zs2 t2"
      "members M2 t2 = fold znext ops (members M' t')"
    using Cons.IH [OF S(2)] Cons.prems(2,3) by auto
  then show ?case using S(1,3) by (intro exI [of _ M2] exI [of _ zs2] exI [of _ t2]) simp
qed

lemma sorted_members: "zset_rep M z zs t \<Longrightarrow> sorted_wrt zless_nodes (members M t)"
  by (simp add: zset_rep_def members_def sorted_wrt_map)

section \<open>Properties\<close>

text \<open>
  C6.  Small sorted sets refine an ordered list.  From a new empty set, whatever the heap holds besides, every history of
  additions, changes of scores, lookups by name and range queries returns, and its answers are those of the list of
  members, as long as the history names at most four members and no score is NaN.  The list is always ordered by score
  and name and has one member for each name.
\<close>

theorem small_sets_refine:
  assumes "o_s M z = Some \<lparr>zs_tree = None, zs_hmap = empty_map\<rparr>"
    and "\<forall>op \<in> set ops. zscore_ok op" and "card (\<Union>op \<in> set ops. zname op) \<le> 4"
  shows "(\<exists>M'. zserve M z ops = Inr (M', zanswers ops [])) \<and>
    sorted_wrt zless_nodes (fold znext ops []) \<and> distinct (map zn_name (fold znext ops []))"
proof -
  have "map_holds (o_h M, empty_map) {#}"
    using empty_map_ok [of "o_h M"] unfolding map_holds_def by (intro exI [of _ "[]"]) simp
  then have R: "zset_rep M z \<lparr>zs_tree = None, zs_hmap = empty_map\<rparr> Leaf" using assms(1) by (simp add: zset_rep_def)
  obtain M' zs' t' where S: "zserve M z ops = Inr (M', zanswers ops [])" "zset_rep M' z zs' t'"
      "members M' t' = fold znext ops []"
    using zserve_from [OF R assms(2)] assms(3) by (auto simp: members_def)
  then show ?thesis using sorted_members [OF S(2)] distinct_members [OF S(2)] by auto
qed

text \<open>The scores 1, 2 and 3.  The first of two members gets the score 3 and moves behind the other.\<close>

definition demo_set :: objs where
  "demo_set = \<lparr>o_h = \<lparr>h_arrs = Map.empty, h_nodes = Map.empty, h_brk = 0\<rparr>, o_t = Map.empty, o_z = Map.empty,
     o_s = [9 \<mapsto> \<lparr>zs_tree = None, zs_hmap = empty_map\<rparr>], o_e = Map.empty, o_idx = Map.empty\<rparr>"

definition demo_zops :: "zop list" where
  "demo_zops = [ZPut [97] 0x3FF0000000000000, ZPut [98] 0x4000000000000000, ZPut [97] 0x4008000000000000,
     ZFrom 0x4000000000000000 1]"

theorem small_sets_refine_witness:
  "\<exists>M'. zserve demo_set 9 demo_zops = Inr (M', [Added True, Added True, Added False,
     Member (Some \<lparr>zn_score = 0x4008000000000000, zn_name = [97]\<rparr>)])"
proof -
  have "zanswers demo_zops [] = [Added True, Added True, Added False,
      Member (Some \<lparr>zn_score = 0x4008000000000000, zn_name = [97]\<rparr>)]" by code_simp
  moreover have "\<not> dbl_nan 0x3FF0000000000000" "\<not> dbl_nan 0x4000000000000000" "\<not> dbl_nan 0x4008000000000000"
    by code_simp+
  then have "\<forall>op \<in> set demo_zops. zscore_ok op" by (simp add: demo_zops_def)
  moreover have "(\<Union>op \<in> set demo_zops. zname op) = {[97], [98]}" by (auto simp: demo_zops_def)
  then have "card (\<Union>op \<in> set demo_zops. zname op) \<le> 4" by (simp add: card_insert_if)
  moreover have "o_s demo_set 9 = Some \<lparr>zs_tree = None, zs_hmap = empty_map\<rparr>" by (simp add: demo_set_def)
  ultimately show ?thesis using small_sets_refine [of demo_set 9 demo_zops] by simp
qed

end
