(* ===== verification/Set_Limits.thy ===== *)
theory Set_Limits
  imports Small_Sets
begin

text \<open>
  Where sorted sets go wrong: \<open>zset_pop\<close> of a member, and a member that needs a rotation below the root.
\<close>

section \<open>Popping a member\<close>

text \<open>
  C38.  \<open>zset_pop\<close> of a member never returns.  In every well-formed set of at most four members the lookup finds the member
  and \<open>avl_del\<close> takes it out of the tree, and the hash map would give it up to a deletion that compares names; but
  \<open>hm_delete\<close> compares with \<open>entry_eq\<close>, which reads the members as entries of the database, an access to memory that
  is none.  A pop of a name that is not in the set returns \<open>NULL\<close>.
\<close>

theorem zset_pop_faults:
  assumes R: "zset_rep M z zs t" and "size t \<le> 4" and "\<forall>a \<in> set_tree t. o_e M a = None"
  shows "if \<exists>a \<in> set_tree t. zn_name (znode M a) = name
    then zset_pop M (Some z) name = Inl BadAddress \<and>
      (\<exists>M1 a m root t' h hm. zset_lookup M (Some z) name = Inr (M1, Some a) \<and> zn_name (znode M a) = name \<and>
         avl_del (o_fuel M1) (o_t M1) (Some a) = Inr (m, root) \<and> tree_at m root None t' \<and>
         inorder t' = filter (\<lambda>b. b \<noteq> a) (inorder t) \<and>
         hm_delete (o_h M1) (zs_hmap (the (o_s M1 z))) (str_hash name) (hcmp M1 name) = Inr (h, hm, Some a))
    else \<exists>M1. zset_pop M (Some z) name = Inr (M1, None)"
proof -
  obtain h hm p where L: "zset_lookup M (Some z) name = Inr (M\<lparr>o_h := h, o_s := (o_s M)(z \<mapsto> zs\<lparr>zs_hmap := hm\<rparr>)\<rparr>, p)"
      "zset_rep (M\<lparr>o_h := h, o_s := (o_s M)(z \<mapsto> zs\<lparr>zs_hmap := hm\<rparr>)\<rparr>) z (zs\<lparr>zs_hmap := hm\<rparr>) t"
      "case p of None \<Rightarrow> \<forall>a \<in> set_tree t. zn_name (znode M a) \<noteq> name
       | Some a \<Rightarrow> a \<in> set_tree t \<and> zn_name (znode M a) = name"
    by (rule lookup_member [OF R])
  show ?thesis
  proof (cases p)
    case None
    then have "\<not> (\<exists>a \<in> set_tree t. zn_name (znode M a) = name)" using L(3) by simp
    moreover have "\<exists>M1. zset_pop M (Some z) name = Inr (M1, None)" using L(1) None by (simp add: zset_pop_def)
    ultimately show ?thesis by (simp only: if_False)
  next
    case (Some a)
    define M1 where "M1 = M\<lparr>o_h := h, o_s := (o_s M)(z \<mapsto> zs\<lparr>zs_hmap := hm\<rparr>)\<rparr>"
    note D = zset_repD [OF L(2) [folded M1_def]]
    have a: "a \<in> set_tree t" "zn_name (znode M a) = name" using L(3) Some by simp_all
    have same: "znode M1 = znode M" "o_e M1 = o_e M" "o_h M1 = h" "the (o_s M1 z) = zs\<lparr>zs_hmap := hm\<rparr>"
      by (simp_all add: M1_def)
    obtain i where i: "i < size t" "inorder t ! i = a" using a(1) by (metis in_set_conv_nth length_inorder set_inorder)
    have "size t < h_brk (o_h M1) + 1" using distinct_bounded_length [OF D(4), of "h_brk (o_h M1)"]
        zset_rep_brk [OF L(2) [folded M1_def]] by (simp add: less_Suc_eq_le)
    then have fuel: "2 * size t + 2 \<le> o_fuel M1" by (simp add: o_fuel_def)
    obtain m root t' where V: "avl_del (o_fuel M1) (o_t M1) (Some a) = Inr (m, root)" "tree_at m root None t'"
        "inorder t' = take i (inorder t) @ drop (Suc i) (inorder t)"
      using avl_del_any [OF D(2,4,3) assms(2) i(1) fuel] unfolding i(2) by blast
    note I = inorder_remove(1) [OF D(4) V(3) i(1), unfolded i(2)]
    obtain n where n: "h_nodes h a = Some n" "h_code n = str_hash name"
      using map_holds_member(1) [OF D(5), of a] a D(8) [OF a(1)] unfolding same by (auto simp: map_alive_def code_at_def)
    have holds: "map_holds (h, hm) (mset (inorder t))" using D(5) by (simp add: same M1_def)
    let ?M2 = "M1\<lparr>o_t := m, o_s := (o_s M1)(z \<mapsto> zs\<lparr>zs_hmap := hm, zs_tree := root\<rparr>)\<rparr>"
    have "\<forall>y \<in># mset (inorder t). entry_eq ?M2 (heap_key ?M2 (Some a)) y = Inl BadAddress"
      using assms(3) by (simp add: entry_eq_def load_def same)
    moreover obtain bs1 bs2 where B: "hm_ok h hm bs1 bs2" "mset (nodes_of bs1 bs2) = mset (inorder t)"
      using holds by (auto simp: map_holds_def)
    moreover have "a \<in># mset (inorder t)" using a(1) by simp
    ultimately have "hm_delete h hm (str_hash name) (entry_eq ?M2 (heap_key ?M2 (Some a))) = Inl BadAddress"
      unfolding B(2) [symmetric] set_mset_mset
      using n by (intro hm_delete_fault [OF B(1), of a]) (simp_all add: code_at_def)
    then have "zset_pop M (Some z) name = Inl BadAddress"
      using L(1) [folded M1_def] V(1) n D(1) Some
      by (simp add: zset_pop_def set_tree_root_def update_Some load_Some same)
    moreover have "hcmp M1 name y = Inr (zn_name (znode M y) = name)" if "y \<in> set_tree t" for y
      using D(6) [OF that] memcmp_eq [of "zn_name (znode M y)" name] by (auto simp: hcmp_def load_Some same)
    then have "\<forall>y \<in># mset (inorder t). code_at h y = str_hash name \<longrightarrow> hcmp M1 name y = Inr (zn_name (znode M y) = name)"
      by simp
    then obtain h' hm' q where E: "hm_delete h hm (str_hash name) (hcmp M1 name) = Inr (h', hm', q)"
        "found (code_eq (str_hash name) (\<lambda>y. zn_name (znode M y) = name) (code_at h)) (mset (inorder t)) q"
      by (rule map_del_framed [OF holds]) (use assms(2) in \<open>simp add: k_resizing_work_def\<close>)
    have "q = Some a"
      using E(2) a n D(9) by (cases q) (auto simp: found_def code_eq_def code_at_def same inj_on_def)
    ultimately show ?thesis
      using a L(1) [folded M1_def] V I E(1) Some unfolding same
      by (auto simp: same intro!: exI [of _ M1] exI [of _ a] exI [of _ m] exI [of _ root] exI [of _ t'] exI [of _ h'] exI [of _ hm'])
  qed
qed

text \<open>A set with one member, and a name that it does not have.\<close>

lemma demo_set_rep: "zset_rep demo_set 9 \<lparr>zs_tree = None, zs_hmap = empty_map\<rparr> Leaf"
proof -
  have "map_holds (o_h demo_set, empty_map) {#}"
    using empty_map_ok [of "o_h demo_set"] unfolding map_holds_def by (intro exI [of _ "[]"]) simp
  then show ?thesis by (simp add: zset_rep_def demo_set_def)
qed

theorem zset_pop_faults_witness:
  "\<exists>M. zset_add demo_set (Some 9) [97] 0 = Inr (M, True) \<and> zset_pop M (Some 9) [97] = Inl BadAddress \<and>
     (\<exists>M1. zset_pop M (Some 9) [98] = Inr (M1, None))"
proof -
  have nan: "\<not> dbl_nan 0" by code_simp
  obtain M zs t where A: "zset_add demo_set (Some 9) [97] 0 = Inr (M, True)" "zset_rep M 9 zs t"
      "members M t = zins \<lparr>zn_score = 0, zn_name = [97]\<rparr> (members demo_set Leaf)"
      "confined 9 (demo_set, \<lparr>zs_tree = None, zs_hmap = empty_map\<rparr>, Leaf) (M, zs, t)"
    using add_member [OF demo_set_rep _ _ nan, of "[97]"] by auto
  have "members M t = [\<lparr>zn_score = 0, zn_name = [97]\<rparr>]" unfolding A(3) by (simp add: members_def zins_def)
  then obtain a where a: "inorder t = [a]" "zn_name (znode M a) = [97]" by (auto simp: members_def)
  have "set (inorder t) = {a}" "size t = 1" using a(1) by (simp_all flip: length_inorder)
  then have t: "set_tree t = {a}" "size t \<le> 4" by simp_all
  have "o_e M = Map.empty" using A(4) by (simp add: confined_def elsewhere_def demo_set_def)
  then have e: "\<forall>a \<in> set_tree t. o_e M a = None" by simp
  show ?thesis
    using zset_pop_faults [OF A(2) t(2) e, of "[97]"] zset_pop_faults [OF A(2) t(2) e, of "[98]"] A(1) a(2) t(1) by auto
qed

section \<open>A rotation below the root\<close>

text \<open>A turn of \<open>avl_fix\<close> that needs no rotation, below the root.\<close>

lemma avl_fix_climbs:
  assumes "node_at m a (Some q) l r" and "distinct (inorder (Node l a r))" and "size (Node l a r) < 2 ^ 31"
    and "height l \<noteq> height r + 2" and "height r \<noteq> height l + 2"
  obtains m1 where "avl_fix (Suc fuel) m (Some a) = avl_fix fuel m1 (Some q)"
    and "tree_at m1 (Some a) (Some q) (Node l a r)" and "\<forall>b. b \<noteq> a \<longrightarrow> m1 b = m b"
proof -
  obtain m1 n where s: "avl_update m (Some a) = Inr m1" "m1 a = Some n" "a_parent n = Some q"
      "tree_at m1 (Some a) (Some q) (Node l a r)" "\<forall>b. b \<noteq> a \<longrightarrow> m1 b = m b"
      "avl_depth m1 (a_left n) = Inr (of_nat (height l))" "avl_depth m1 (a_right n) = Inr (of_nat (height r))"
      "(of_nat (height l) :: u32) = of_nat (height r) + 2 \<longleftrightarrow> height l = height r + 2"
      "(of_nat (height l) :: u32) + 2 = of_nat (height r) \<longleftrightarrow> height r = height l + 2"
    using avl_fix_node [OF assms(1-3)] by metis
  then show ?thesis using that [of m1] assms(4,5) by (simp add: load_Some Let_def)
qed

declare avl_fix.simps [simp del]

text \<open>
  \<open>e\<close> has been linked under \<open>d\<close>, at the end of the chain \<open>c\<close>, \<open>d\<close> on the right of the root \<open>b\<close>.  The rotation at \<open>c\<close>
  puts \<open>d\<close> in its place, but the right child of \<open>b\<close> is still \<open>c\<close>.
\<close>

definition same_links :: "amem \<Rightarrow> amem \<Rightarrow> bool" where
  "same_links m m' \<longleftrightarrow> (\<forall>x. map_option (\<lambda>n. (a_left n, a_right n)) (m x) = map_option (\<lambda>n. (a_left n, a_right n)) (m' x))"

lemma chain_cut:
  assumes ctx: "ctx_at m [(False, d, Leaf), (False, c, Leaf), (False, b, A)] e (Some d)"
    and e: "node_at m e (Some d) Leaf Leaf" and h: "height A \<le> 2" and small: "size A < 2 ^ 30"
    and dist: "distinct (inorder A @ [b, c, d, e])" and fuel: "4 \<le> fuel"
  obtains m' m1 where "avl_fix fuel m (Some e) = Inr (m', Some b)" and "same_links m' m1"
    and "tree_at m1 (Some b) None (Node A b (Node Leaf c Leaf))"
proof -
  have "fuel = Suc (Suc (Suc (Suc (fuel - 4))))" using fuel by simp
  then obtain f where f: "fuel = Suc (Suc (Suc (Suc f)))" by blast
  obtain nd nc nb where n: "m d = Some nd" "a_right nd = Some e" "a_left nd = None" "a_parent nd = Some c"
      "m c = Some nc" "a_right nc = Some d" "a_left nc = None" "a_parent nc = Some b"
      "m b = Some nb" "a_right nb = Some c" "tree_at m (a_left nb) (Some b) A" "a_parent nb = None"
    using ctx by auto
  have h3: "height A = 0 \<or> height A = 1 \<or> height A = 2" using h by linarith
  have ne: "b \<noteq> c" "b \<noteq> d" "b \<noteq> e" "c \<noteq> d" "c \<noteq> e" "d \<noteq> e" "b \<notin> set_tree A" "c \<notin> set_tree A" "d \<notin> set_tree A" "e \<notin> set_tree A"
    using dist by auto
  obtain m1 where m1: "avl_fix fuel m (Some e) = avl_fix (Suc (Suc (Suc f))) m1 (Some d)"
      "tree_at m1 (Some e) (Some d) (Node Leaf e Leaf)" "\<forall>x. x \<noteq> e \<longrightarrow> m1 x = m x"
    unfolding f by (rule avl_fix_climbs [OF e]) simp_all
  have "node_at m1 d (Some c) Leaf (Node Leaf e Leaf)" using n(1-4) m1(2,3) ne by (simp add: node_at_def)
  then obtain m2 where m2: "avl_fix (Suc (Suc (Suc f))) m1 (Some d) = avl_fix (Suc (Suc f)) m2 (Some c)"
      "tree_at m2 (Some d) (Some c) (Node Leaf d (Node Leaf e Leaf))" "\<forall>x. x \<noteq> d \<longrightarrow> m2 x = m1 x"
    by (rule avl_fix_climbs) (use ne in simp_all)
  let ?R = "Node Leaf d (Node Leaf e Leaf)"
  have c2: "node_at m2 c (Some b) Leaf ?R" using n(5-8) m2(2,3) m1(3) ne by (simp add: node_at_def)
  obtain m3 k where m3: "avl_update m2 (Some c) = Inr m3" "m3 c = Some k" "a_parent k = Some b"
      "tree_at m3 (Some c) (Some b) (Node Leaf c ?R)" "\<forall>x. x \<noteq> c \<longrightarrow> m3 x = m2 x"
      "avl_depth m3 (a_left k) = Inr (of_nat (height (Leaf :: addr tree)))" "avl_depth m3 (a_right k) = Inr (of_nat (height ?R))"
    by (rule avl_fix_node [OF c2]) (use ne in simp_all)
  obtain m4 where m4: "rot_left m3 (Some c) = Inr (m4, Some d)"
      "tree_at m4 (Some d) (Some b) (Node (Node Leaf c Leaf) d (Node Leaf e Leaf))"
      "\<forall>x. x \<notin> {c, d} \<union> set_tree (Leaf :: addr tree) \<longrightarrow> m4 x = m3 x"
    by (rule rot_left_at [OF tree_node_at [OF m3(4)]]) (use ne in simp_all)
  obtain kd where kd: "a_right k = Some d" "m3 d = Some kd" "avl_depth m3 (a_right kd) = Inr 1" "avl_depth m3 (a_left kd) = Inr 0"
    using m3(2,4) by (auto simp: avl_depth_def load_Some)
  have "avl_fix_right m3 (Some c) = Inr (m4, Some d)"
    using m3(2) kd m4(1) by (simp add: avl_fix_right_def load_Some)
  then have at_b: "avl_fix (Suc (Suc f)) m2 (Some c) = avl_fix (Suc f) m4 (Some b)"
    using m3(1-3,6,7) m4(2) by (auto simp: avl_fix.simps(2) [of "Suc f"] load_Some)
  obtain n4 where n4: "m4 c = Some n4" "a_left n4 = None" "a_right n4 = None" "a_depth n4 = 1" "a_count n4 = 1"
    using m4(2) by auto
  have off: "m4 x = m x" if "x \<notin> {c, d, e}" for x using that m4(3) m3(5) m2(3) m1(3) by simp
  have b4: "m4 b = Some nb" using n(9) off [of b] ne by simp
  have "tree_at m4 (a_left nb) (Some b) A"
    by (rule tree_at_off [OF n(11) off, where X = "{c, d, e}"]) (use ne in auto)
  note A = this avl_depth_at [OF this] avl_count_at [OF this]
  let ?k = "nb\<lparr>a_depth := 1 + max (of_nat (height A)) 1, a_count := 1 + of_nat (size A) + 1\<rparr>"
  let ?m = "m4(b \<mapsto> ?k)"
  have up: "avl_update m4 (Some b) = Inr ?m"
    using A(2,3) b4 n(10) n4 by (simp add: avl_update_def load_Some update_Some avl_depth_def avl_count_def)
  have "avl_depth ?m (a_left nb) = Inr (of_nat (height A))"
    by (rule avl_depth_at [OF tree_at_off [OF A(1), of "{b}"]]) (use ne in auto)
  moreover have "avl_depth ?m (a_right nb) = Inr 1" using n(10) n4 ne by (simp add: avl_depth_def load_Some)
  moreover have "(of_nat (height A) :: u32) \<noteq> 1 + 2" "(of_nat (height A) :: u32) + 2 \<noteq> 1"
    using h3 by auto
  ultimately have "avl_fix (Suc f) m4 (Some b) = Inr (?m, Some b)"
    using up n(12) by (simp add: avl_fix.simps(2) load_Some)
  then have run: "avl_fix fuel m (Some e) = Inr (?m, Some b)" using m1(1) m2(1) at_b by simp
  let ?m1 = "?m(c \<mapsto> n4\<lparr>a_parent := Some b\<rparr>)"
  have "max (of_nat (height A) :: u32) (of_nat 1) = of_nat (max (height A) 1)"
    using h by (intro of_nat_max_u32) simp_all
  moreover have "tree_at ?m1 (a_left nb) (Some b) A" by (rule tree_at_off [OF A(1), of "{b, c}"]) (use ne in auto)
  ultimately have "tree_at ?m1 (Some b) None (Node A b (Node Leaf c Leaf))"
    using n(10,12) n4 ne by simp
  moreover have "same_links ?m ?m1" using n4 ne by (simp add: same_links_def)
  ultimately show ?thesis using that run by blast
qed

text \<open>A range query follows child pointers only.\<close>

lemma query_loop_links:
  assumes "same_links m m'"
  shows "query_loop fuel (M\<lparr>o_t := m\<rparr>) x cur best = query_loop fuel (M\<lparr>o_t := m'\<rparr>) x cur best"
proof (induction fuel arbitrary: cur best)
  case (Suc fuel)
  show ?case
  proof (cases cur)
    case (Some a)
    have "map_option (\<lambda>n. (a_left n, a_right n)) (m a) = map_option (\<lambda>n. (a_left n, a_right n)) (m' a)"
      using assms by (simp add: same_links_def)
    then show ?thesis using Some by (cases "m a"; cases "m' a"; cases "o_z M a") (simp_all add: load_def Suc)
  qed simp
qed simp

lemma zless_trans:
  "zless_nodes p q \<Longrightarrow> zless_nodes q r \<Longrightarrow> \<not> dbl_nan (zn_score p) \<Longrightarrow> \<not> dbl_nan (zn_score q) \<Longrightarrow>
    \<not> dbl_nan (zn_score r) \<Longrightarrow> zless_nodes p r"
  by (auto simp: zless_nodes_eq dest: lexordp_trans)

lemma zless_asym:
  "zless_nodes p q \<Longrightarrow> \<not> dbl_nan (zn_score p) \<Longrightarrow> \<not> dbl_nan (zn_score q) \<Longrightarrow> \<not> zless_nodes q p"
  by (auto simp: zless_nodes_eq dest: lexordp_antisym)

text \<open>
  C39.  A member that needs a rotation below the root is lost to range queries.  Let the greatest members of a set hang on
  the right of the root in a chain, as after adding four members in ascending order, with at most three members on the
  left, and add a new member above them all: \<open>zset_add\<close> returns true as for any other, and the last member and the new one
  are found by their names; but \<open>zset_query\<close> finds the first member of a range among the others only, so that a range
  that starts above the third last member is answered as if it were empty.
\<close>

theorem last_members_lost:
  assumes R: "zset_rep M z zs t" and t: "t = Node A b (Node Leaf c (Node Leaf d Leaf))" and "height A \<le> 2"
    and "\<forall>x \<in> set_tree t. zn_name (znode M x) \<noteq> name" and "\<not> dbl_nan score"
    and "zless_nodes (znode M d) \<lparr>zn_score = score, zn_name = name\<rparr>"
  shows "\<exists>M'. zset_add M (Some z) name score = Inr (M', True) \<and>
    (\<exists>M2 e. zset_lookup M' (Some z) name = Inr (M2, Some e) \<and> e \<notin> set_tree t) \<and>
    (\<exists>M2. zset_lookup M' (Some z) (zn_name (znode M d)) = Inr (M2, Some d)) \<and>
    (\<forall>s. \<not> dbl_nan s \<longrightarrow> zset_query M' (Some z) s []
       = Inr (find (\<lambda>x. \<not> zless_nodes (znode M x) \<lparr>zn_score = s, zn_name = []\<rparr>) (inorder A @ [b, c])))"
proof -
  let ?q = "\<lparr>zn_score = score, zn_name = name\<rparr>"
  note D = zset_repD [OF R]
  have "size A \<le> 2 ^ height A - 1" using size1_height [of A] by (simp add: size1_size le_diff_conv2)
  also have "\<dots> \<le> 2 ^ 2 - 1" using assms(3) by (intro diff_le_mono power_increasing) simp_all
  finally have size: "size A \<le> 3" by simp
  have few: "size t < 2 ^ 30" unfolding t using size by simp
  obtain M2 zs2 e where P: "zset_add M (Some z) name score = bindr (tree_add M2 (Some z) (Some e)) (\<lambda>M3. Inr (M3, True))"
      "linkable z M t ?q M2 zs2 e"
    by (rule add_prepares [OF R assms(4) few assms(5)])
  note L = P(2) [unfolded linkable_def]
  have zn: "znode M2 = (znode M)(e := ?q)" using L by simp
  have old: "x \<noteq> e" if "x \<in> set_tree t" for x using that L by auto
  have S: "o_s M2 z = Some zs2" "tree_at (o_t M2) (zs_tree zs2) None t" "o_t M2 e = Some avl_node" "e \<notin> set_tree t"
    using L by simp_all
  have inj: "inj_on (\<lambda>b. zn_name (znode M2 b)) (insert e (set_tree t))" using L by blast
  have sc: "members_at M2 (znode M2) (insert e (set_tree t))" using L by (simp add: members_at_def)
  have brk: "\<forall>x \<in> insert e (set_tree t). x < h_brk (o_h M2)"
    using L map_holds_member(1) [of "(o_h M2, zs_hmap zs2)"] by (force simp: map_alive_def)
  have nan: "\<not> dbl_nan (zn_score (znode M x))" if "x \<in> set_tree t" for x by (rule D(7) [OF that])
  have up: "zless_nodes (znode M x) (znode M d)" if "x \<in> {b, c}" for x using D(10) that by (auto simp: t sorted_wrt_append)
  have known: "\<not> dbl_nan (zn_score (znode M x))" if "x \<in> {b, c, d}" for x by (rule nan) (use that in \<open>auto simp: t\<close>)
  have new: "\<not> dbl_nan (zn_score ?q)" using assms(5) by simp
  have last: "zless_nodes (znode M x) ?q" if "x \<in> {b, c, d}" for x
  proof (cases "x = d")
    case False
    then have "x \<in> {b, c}" using that by blast
    from zless_trans [OF up [OF this] assms(6) known [OF that] known new] show ?thesis by simp
  qed (simp add: assms(6))
  have "\<not> zless_nodes ?q (znode M x)" if "x \<in> {b, c, d}" for x
    by (rule zless_asym [OF last [OF that] known [OF that] new])
  then have ctx: "search_ctx (below (znode M2) e) t [] = [(False, d, Leaf), (False, c, Leaf), (False, b, A)]"
    using old zn by (simp add: t)
  obtain m2 where T: "tree_add M2 (Some z) (Some e) = bindr (avl_fix (o_fuel M2) m2 (Some e)) (\<lambda>(m, p).
        Inr (M2\<lparr>o_t := m, o_s := (o_s M2)(z \<mapsto> zs2\<lparr>zs_tree := p\<rparr>)\<rparr>))"
      "ctx_at m2 [(False, d, Leaf), (False, c, Leaf), (False, b, A)] e (hole_par [(False, d, Leaf), (False, c, Leaf), (False, b, A)])"
      "node_at m2 e (hole_par [(False, d, Leaf), (False, c, Leaf), (False, b, A)]) Leaf Leaf" "size t < o_fuel M2"
    by (rule tree_add_links [OF S sc D(4) brk ctx])
  have dist: "distinct (inorder A @ [b, c, d, e])" using D(4) old by (auto simp: t)
  have fuel: "4 \<le> o_fuel M2" using brk by (auto simp: o_fuel_def t)
  obtain m' m1 where C: "avl_fix (o_fuel M2) m2 (Some e) = Inr (m', Some b)" "same_links m' m1"
      "tree_at m1 (Some b) None (Node A b (Node Leaf c Leaf))"
    by (rule chain_cut [of m2 d c b A e "o_fuel M2"]) (use T(2,3) assms(3) size dist fuel in simp_all)
  let ?M = "M2\<lparr>o_t := m', o_s := (o_s M2)(z \<mapsto> zs2\<lparr>zs_tree := Some b\<rparr>)\<rparr>"
  have add: "zset_add M (Some z) name score = Inr (?M, True)" using P(1) T(1) C(1) by simp
  have found: "\<exists>M3. zset_lookup ?M (Some z) k = Inr (M3, Some x)"
    if x: "x \<in> insert e (set_tree t)" "zn_name (znode M2 x) = k" for x k
  proof -
    have E: "hcmp ?M k y = Inr (zn_name (znode M2 y) = k)" if "y \<in> insert e (set_tree t)" for y
    proof -
      have "o_z M2 y = Some (znode M2 y)" using that L by blast
      then show ?thesis using memcmp_eq [of "zn_name (znode M2 y)" k] by (auto simp: hcmp_def load_Some)
    qed
    have holds: "map_holds (o_h M2, zs_hmap zs2) (add_mset e (mset (inorder t)))" using L by blast
    have "\<forall>y \<in># add_mset e (mset (inorder t)). code_at (o_h M2) y = str_hash k \<longrightarrow> hcmp ?M k y = Inr (zn_name (znode M2 y) = k)"
      using E by simp
    then obtain h hm p where F: "hm_lookup (o_h M2) (zs_hmap zs2) (str_hash k) (hcmp ?M k) = Inr (h, hm, p)"
        "found (code_eq (str_hash k) (\<lambda>y. zn_name (znode M2 y) = k) (code_at (o_h M2))) (add_mset e (mset (inorder t))) p"
      by (rule map_look_framed [OF holds])
    have code: "code_at (o_h M2) x = str_hash k" using x L by blast
    have "p = Some x"
    proof (cases p)
      case None
      then show ?thesis using F(2) x code by (auto simp: found_def code_eq_def)
    next
      case (Some y)
      then have y: "y \<in> insert e (set_tree t)" "zn_name (znode M2 y) = k"
        using F(2) by (simp_all add: found_def code_eq_def)
      have "y = x" by (rule inj_onD [OF inj _ y(1) x(1)]) (simp add: x(2) y(2))
      then show ?thesis using Some by simp
    qed
    then show ?thesis using F(1) by (simp add: zset_lookup_def load_Some)
  qed
  have query: "zset_query ?M (Some z) s []
      = Inr (find (\<lambda>x. \<not> zless_nodes (znode M x) \<lparr>zn_score = s, zn_name = []\<rparr>) (inorder A @ [b, c]))"
    if "\<not> dbl_nan s" for s
  proof -
    let ?x = "\<lparr>zn_score = s, zn_name = []\<rparr>" and ?N = "M2\<lparr>o_s := (o_s M2)(z \<mapsto> zs2\<lparr>zs_tree := Some b\<rparr>)\<rparr>"
    let ?t = "Node A b (Node Leaf c Leaf)"
    have part: "set_tree ?t \<subseteq> set_tree t" "inorder ?t @ [d] = inorder t" by (auto simp: t)
    have "sorted_wrt (below (znode M)) (inorder ?t)" using D(10) unfolding part(2) [symmetric] sorted_wrt_append by blast
    then have "sorted_wrt (\<lambda>a b. zless_nodes (znode M b) ?x \<longrightarrow> zless_nodes (znode M a) ?x) (inorder ?t)"
      by (rule sorted_below(1)) (use nan part(1) that in auto)
    moreover have "members_at (?N\<lparr>o_t := m1\<rparr>) (znode M) (set_tree ?t)"
      using sc old part(1) zn by (auto simp: members_at_def)
    moreover have "height ?t < o_fuel M2" using T(4) height_le_size_tree [of ?t] by (simp add: t)
    ultimately have "query_loop (o_fuel M2) (?N\<lparr>o_t := m1\<rparr>) ?x (Some b) None = Inr (find (\<lambda>x. \<not> zless_nodes (znode M x) ?x) (inorder ?t))"
      using query_loop_spec [of "?N\<lparr>o_t := m1\<rparr>" "Some b" None ?t "znode M" "o_fuel M2" ?x None] C(3) by (simp split: option.splits del: query_loop.simps)
    moreover have swap: "?M = ?N\<lparr>o_t := m'\<rparr>" by simp
    moreover have "zset_query ?M (Some z) s [] = query_loop (o_fuel ?M) ?M ?x (Some b) None"
      by (simp add: zset_query_def load_Some del: query_loop.simps)
    then have "zset_query ?M (Some z) s [] = query_loop (o_fuel M2) (?N\<lparr>o_t := m'\<rparr>) ?x (Some b) None"
      unfolding swap by (simp add: o_fuel_def)
    ultimately show ?thesis
      using query_loop_links [OF C(2), of "o_fuel M2" ?N ?x "Some b" None] by simp
  qed
  show ?thesis
    using add found [of e name] found [of d "zn_name (znode M d)"] query old L zn by (auto simp: t)
qed

text \<open>The tree that hangs from a pointer.\<close>

fun tree_of :: "nat \<Rightarrow> amem \<Rightarrow> ptr \<Rightarrow> addr tree" where
  "tree_of (Suc fuel) m (Some a) = (case m a of None \<Rightarrow> Leaf
     | Some n \<Rightarrow> Node (tree_of fuel m (a_left n)) a (tree_of fuel m (a_right n)))"
| "tree_of fuel m p = Leaf"

lemma tree_of_at: "tree_at m p par t \<Longrightarrow> height t \<le> fuel \<Longrightarrow> tree_of fuel m p = t"
proof (induction t arbitrary: p par fuel)
  case Leaf
  then show ?case by (cases fuel) simp_all
next
  case (Node l a r)
  then obtain f where "fuel = Suc f" by (cases fuel) auto
  then show ?case using Node by auto
qed

text \<open>The members \<open>a\<close> to \<open>d\<close> with the scores 1 to 4.\<close>

definition demo_four_ops :: "zop list" where
  "demo_four_ops = [ZPut [97] 0x3FF0000000000000, ZPut [98] 0x4000000000000000, ZPut [99] 0x4008000000000000,
     ZPut [100] 0x4010000000000000]"

definition demo_four :: objs where
  "demo_four = (case zserve demo_set 9 demo_four_ops of Inr (M, _) \<Rightarrow> M | Inl _ \<Rightarrow> demo_set)"

definition demo_four_tree :: "addr tree" where
  "demo_four_tree = Node (Node Leaf 0 Leaf) 2 (Node Leaf 3 (Node Leaf 4 Leaf))"

lemma demo_four_rep: obtains zs where "zset_rep demo_four 9 zs demo_four_tree"
proof -
  have "\<not> dbl_nan 0x3FF0000000000000" "\<not> dbl_nan 0x4000000000000000" "\<not> dbl_nan 0x4008000000000000"
      "\<not> dbl_nan 0x4010000000000000"
    by code_simp+
  then have ok: "\<forall>op \<in> set demo_four_ops. zscore_ok op" by (simp add: demo_four_ops_def)
  have "(\<Union>op \<in> set demo_four_ops. zname op) = {[97], [98], [99], [100]}" by (auto simp: demo_four_ops_def)
  then have "card (names (members demo_set Leaf) \<union> (\<Union>op \<in> set demo_four_ops. zname op)) \<le> 4"
    by (simp add: members_def card_insert_if)
  from zserve_from [OF demo_set_rep ok this] obtain M zs t where
      R: "zserve demo_set 9 demo_four_ops = Inr (M, zanswers demo_four_ops (members demo_set Leaf))" "zset_rep M 9 zs t"
      "members M t = fold znext demo_four_ops (members demo_set Leaf)"
    by blast
  have M: "M = demo_four" by (simp add: demo_four_def R(1))
  have "length (fold znext demo_four_ops []) = 4" by code_simp
  then have "size t = 4" using arg_cong [OF R(3), of length] by (simp add: members_def)
  then have "tree_of 4 (o_t demo_four) (zs_tree zs) = t"
    using tree_of_at [OF zset_repD(2) [OF R(2)], of 4] height_le_size_tree [of t] by (simp add: M)
  moreover have "zs = the (o_s demo_four 9)" using zset_repD(1) [OF R(2)] by (simp add: M)
  moreover have "tree_of 4 (o_t demo_four) (zs_tree (the (o_s demo_four 9))) = demo_four_tree" by code_simp
  ultimately show ?thesis using that R(2) by (simp add: M)
qed

theorem last_members_lost_witness:
  "\<exists>M'. zset_add demo_four (Some 9) [101] 0x4014000000000000 = Inr (M', True) \<and>
     (\<exists>M2. zset_lookup M' (Some 9) [100] = Inr (M2, Some 4)) \<and> zset_query M' (Some 9) 0x4010000000000000 [] = Inr None"
proof -
  obtain zs where R: "zset_rep demo_four 9 zs demo_four_tree" by (rule demo_four_rep)
  have z: "znode demo_four 0 = \<lparr>zn_score = 0x3FF0000000000000, zn_name = [97]\<rparr>"
      "znode demo_four 2 = \<lparr>zn_score = 0x4000000000000000, zn_name = [98]\<rparr>"
      "znode demo_four 3 = \<lparr>zn_score = 0x4008000000000000, zn_name = [99]\<rparr>"
      "znode demo_four 4 = \<lparr>zn_score = 0x4010000000000000, zn_name = [100]\<rparr>"
    by code_simp+
  have nan: "\<not> dbl_nan 0x4014000000000000" "\<not> dbl_nan 0x4010000000000000" by code_simp+
  have new: "\<forall>x \<in> set_tree demo_four_tree. zn_name (znode demo_four x) \<noteq> [101]"
    unfolding demo_four_tree_def by (simp add: z)
  have above: "zless_nodes (znode demo_four 4) \<lparr>zn_score = 0x4014000000000000, zn_name = [101]\<rparr>"
    unfolding z by code_simp
  let ?x = "\<lparr>zn_score = 0x4010000000000000, zn_name = []\<rparr>"
  have "zless_nodes \<lparr>zn_score = 0x3FF0000000000000, zn_name = [97]\<rparr> ?x" "zless_nodes \<lparr>zn_score = 0x4000000000000000, zn_name = [98]\<rparr> ?x"
      "zless_nodes \<lparr>zn_score = 0x4008000000000000, zn_name = [99]\<rparr> ?x"
    by code_simp+
  then have none: "find (\<lambda>x. \<not> zless_nodes (znode demo_four x) ?x) [0, 2, 3] = None"
    by (simp add: z)
  show ?thesis
    using last_members_lost [OF R demo_four_tree_def _ new nan(1) above] nan(2) none z(4) by auto
qed

end
