(* ===== verification/Set_Store.thy ===== *)
theory Set_Store
  imports Small_Sets Set_Removal
begin

text \<open>
  A database of strings and small sorted sets: the hash map of the database, the sets behind its entries and the sets
  that wait for the thread pool to destroy them live in one heap, each with nodes and tables of its own.  Looking an
  entry up, changing a set, adding an entry, deleting one and destroying a set each leave all the others as they are.
\<close>

section \<open>Values\<close>

datatype dval = Str bytes | Zset "ZNode list"

type_synonym dmap = "bytes \<rightharpoonup> dval"

definition zref :: "gdata \<Rightarrow> addr \<Rightarrow> addr" where
  "zref g y = the (e_zset (ent g y))"

definition zobj :: "gdata \<Rightarrow> addr \<Rightarrow> ZSet" where
  "zobj g y = the (o_s (g_M g) (zref g y))"

definition value_of :: "gdata \<Rightarrow> (addr \<Rightarrow> addr tree) \<Rightarrow> addr \<Rightarrow> dval" where
  "value_of g T y = (if e_type (ent g y) = 0 then Str (e_val (ent g y)) else Zset (members (g_M g) (T y)))"

abbreviation set_tabs :: "gdata \<Rightarrow> addr \<Rightarrow> addr set" where
  "set_tabs g y \<equiv> tabs (zs_hmap (zobj g y))"

text \<open>The entries of the map, and those in the queue of the thread pool, which are no longer in the map.\<close>

abbreviation held :: "gdata \<Rightarrow> addr multiset \<Rightarrow> addr set" where
  "held g ns \<equiv> set_mset ns \<union> set (g_jobs g)"

abbreviation set_entries :: "gdata \<Rightarrow> addr multiset \<Rightarrow> addr set" where
  "set_entries g ns \<equiv> {y \<in> held g ns. e_type (ent g y) \<noteq> 0}"

definition entry_ok :: "gdata \<Rightarrow> addr \<Rightarrow> bool" where
  "entry_ok g y \<longleftrightarrow> o_e (g_M g) y \<noteq> None \<and> y < h_brk (o_h (g_M g)) \<and>
     code_at (o_h (g_M g)) y = str_hash (e_key (ent g y)) \<and>
     (e_type (ent g y) = 0 \<and> length (e_val (ent g y)) \<le> k_max_msg \<and> e_zset (ent g y) = None \<or>
      e_type (ent g y) = 1 \<and> e_zset (ent g y) \<noteq> None \<and> e_val (ent g y) = [])"

text \<open>One set, apart from the entries and from the map of the database.\<close>

definition set_ok :: "gdata \<Rightarrow> addr set \<Rightarrow> (addr \<Rightarrow> addr tree) \<Rightarrow> addr \<Rightarrow> bool" where
  "set_ok g A T y \<longleftrightarrow> zset_rep (g_M g) (zref g y) (zobj g y) (T y) \<and> size (T y) \<le> 4 \<and>
     zref g y < h_brk (o_h (g_M g)) \<and> set_tree (T y) \<inter> A = {} \<and> set_tabs g y \<inter> tabs (g_db g) = {}"

text \<open>Two sets apart from each other.\<close>

definition apart :: "gdata \<Rightarrow> (addr \<Rightarrow> addr tree) \<Rightarrow> addr \<Rightarrow> addr \<Rightarrow> bool" where
  "apart g T x y \<longleftrightarrow> zref g x \<noteq> zref g y \<and> set_tree (T x) \<inter> set_tree (T y) = {} \<and>
     set_tabs g x \<inter> set_tabs g y = {}"

definition db_rep :: "gdata \<Rightarrow> addr multiset \<Rightarrow> (addr \<Rightarrow> addr tree) \<Rightarrow> dmap \<Rightarrow> bool" where
  "db_rep g ns T m \<longleftrightarrow> map_holds (o_h (g_M g), g_db g) ns \<and> (\<forall>y \<in> held g ns. entry_ok g y) \<and>
     distinct (g_jobs g) \<and> set_mset ns \<inter> set (g_jobs g) = {} \<and> (\<forall>y \<in> set (g_jobs g). e_type (ent g y) \<noteq> 0) \<and>
     inj_on (\<lambda>y. e_key (ent g y)) (set_mset ns) \<and> dom m = (\<lambda>y. e_key (ent g y)) ` set_mset ns \<and>
     (\<forall>y \<in># ns. m (e_key (ent g y)) = Some (value_of g T y)) \<and>
     (\<forall>y \<in> set_entries g ns. set_ok g (held g ns) T y) \<and>
     (\<forall>x \<in> set_entries g ns. \<forall>y \<in> set_entries g ns. x \<noteq> y \<longrightarrow> apart g T x y)"

lemma db_repD:
  assumes "db_rep g ns T m"
  shows "map_holds (o_h (g_M g), g_db g) ns" and "inj_on (\<lambda>y. e_key (ent g y)) (set_mset ns)"
    and "dom m = (\<lambda>y. e_key (ent g y)) ` set_mset ns"
    and "y \<in> held g ns \<Longrightarrow> entry_ok g y" and "y \<in># ns \<Longrightarrow> m (e_key (ent g y)) = Some (value_of g T y)"
    and "y \<in> set_entries g ns \<Longrightarrow> set_ok g (held g ns) T y"
    and "x \<in> set_entries g ns \<Longrightarrow> y \<in> set_entries g ns \<Longrightarrow> x \<noteq> y \<Longrightarrow> apart g T x y"
    and "distinct (g_jobs g)" and "set_mset ns \<inter> set (g_jobs g) = {}"
    and "y \<in> set (g_jobs g) \<Longrightarrow> e_type (ent g y) \<noteq> 0"
  using assms unfolding db_rep_def by blast+

lemma db_repI:
  assumes "map_holds (o_h (g_M g), g_db g) ns" and "\<And>y. y \<in> held g ns \<Longrightarrow> entry_ok g y" and "distinct (g_jobs g)"
    and "set_mset ns \<inter> set (g_jobs g) = {}" and "\<And>y. y \<in> set (g_jobs g) \<Longrightarrow> e_type (ent g y) \<noteq> 0"
    and "inj_on (\<lambda>y. e_key (ent g y)) (set_mset ns)" and "dom m = (\<lambda>y. e_key (ent g y)) ` set_mset ns"
    and "\<And>y. y \<in># ns \<Longrightarrow> m (e_key (ent g y)) = Some (value_of g T y)"
    and "\<And>y. y \<in> set_entries g ns \<Longrightarrow> set_ok g (held g ns) T y"
    and "\<And>x y. x \<in> set_entries g ns \<Longrightarrow> y \<in> set_entries g ns \<Longrightarrow> x \<noteq> y \<Longrightarrow> apart g T x y"
  shows "db_rep g ns T m"
  unfolding db_rep_def by (intro conjI ballI impI assms)

lemma db_rep_brk: "db_rep g ns T m \<Longrightarrow> y \<in> held g ns \<Longrightarrow> y < h_brk (o_h (g_M g))"
  using db_repD(4) by (simp add: entry_ok_def)

lemma db_rep_ent: "db_rep g ns T m \<Longrightarrow> y \<in> held g ns \<Longrightarrow> o_e (g_M g) y = Some (ent g y)"
  using db_repD(4) [of g ns T m y] by (auto simp: entry_ok_def ent_def)

lemma set_ok_brk:
  assumes "set_ok g A T y"
  shows "a \<in> set_tree (T y) \<Longrightarrow> a < h_brk (o_h (g_M g))" and "b \<in> set_tabs g y \<Longrightarrow> b < h_brk (o_h (g_M g))"
proof -
  have R: "zset_rep (g_M g) (zref g y) (zobj g y) (T y)" using assms by (simp add: set_ok_def)
  show "a \<in> set_tree (T y) \<Longrightarrow> a < h_brk (o_h (g_M g))" by (rule zset_rep_brk [OF R])
  show "b \<in> set_tabs g y \<Longrightarrow> b < h_brk (o_h (g_M g))" by (rule map_holds_tabs [OF zset_repD(5) [OF R]])
qed

section \<open>A set does not see the rest of the heap\<close>

lemma zset_rep_other:
  assumes "zset_rep M z zs t" and "elsewhere X A z' M M'" and "o_s M' z = o_s M z"
    and "set_tree t \<inter> X = {}" and "tabs (zs_hmap zs) \<inter> A = {}"
  shows "zset_rep M' z zs t" and "members M' t = members M t"
proof -
  note D = zset_repD [OF assms(1)]
  have E: "h_nodes (o_h M') a = h_nodes (o_h M) a \<and> o_t M' a = o_t M a \<and> o_z M' a = o_z M a" if "a \<in> set_tree t" for a
    using assms(2,4) zset_rep_brk [OF assms(1) that] that by (auto simp: elsewhere_def)
  have B: "h_arrs (o_h M') b = h_arrs (o_h M) b" if "b \<in> tabs (zs_hmap zs)" for b
    using assms(2,5) map_holds_tabs [OF D(5) that] that by (auto simp: elsewhere_def)
  have brk: "h_brk (o_h M) \<le> h_brk (o_h M')" using assms(2) by (simp add: elsewhere_def)
  have zn: "znode M' a = znode M a" "code_at (o_h M') a = code_at (o_h M) a" if "a \<in> set_tree t" for a
    using E [OF that] by (simp_all add: znode_def code_at_def)
  have "map_holds (o_h M', zs_hmap zs) (mset (inorder t))"
    by (rule map_holds_other [OF D(5) _ _ brk]) (use E B in simp_all)
  moreover have "tree_at (o_t M') (zs_tree zs) None t"
    using D(2) E tree_at_cong [of t "o_t M'" "o_t M"] by simp
  moreover have "inj_on (\<lambda>a. zn_name (znode M' a)) (set_tree t)" using D(9) zn by (simp add: inj_on_def)
  moreover have "sorted_wrt (below (znode M')) (inorder t)"
    by (rule sorted_wrt_mono_rel [OF _ D(10)]) (use zn in simp)
  ultimately show "zset_rep M' z zs t"
    unfolding zset_rep_def using assms(3) D(1,3,4,6,7,8) E zn by simp
  show "members M' t = members M t" using zn by (simp add: members_def)
qed

text \<open>A set that neither an operation on the map nor the end of another set touches.\<close>

lemma old_set:
  assumes Y: "set_ok g A T y"
    and E: "elsewhere X B z (g_M g) ((g_M g')\<lparr>o_e := o_e (g_M g), o_idx := o_idx (g_M g), o_s := o_s (g_M g)\<rparr>)"
    and X: "set_tree (T y) \<inter> X = {}" and B: "set_tabs g y \<inter> B = {}"
    and s: "o_s (g_M g') (zref g y) = o_s (g_M g) (zref g y)" and ent: "ent g' y = ent g y"
    and hm: "tabs (g_db g') \<subseteq> tabs (g_db g) \<union> {h_brk (o_h (g_M g))..}" and A': "A' \<subseteq> A \<union> {h_brk (o_h (g_M g))..}"
  shows "zobj g' y = zobj g y \<and> set_ok g' A' T y \<and> members (g_M g') (T y) = members (g_M g) (T y)"
proof -
  have ref: "zref g' y = zref g y" using ent by (simp add: zref_def)
  then have obj: "zobj g' y = zobj g y" using s by (simp add: zobj_def)
  let ?M = "(g_M g')\<lparr>o_e := o_e (g_M g), o_idx := o_idx (g_M g), o_s := o_s (g_M g)\<rparr>"
  have "zset_rep (g_M g) (zref g y) (zobj g y) (T y)" using Y by (simp add: set_ok_def)
  then have Z: "zset_rep ?M (zref g y) (zobj g y) (T y)" "members ?M (T y) = members (g_M g) (T y)"
    using zset_rep_other [OF _ E _ X B] by simp_all
  have zn: "znode ?M = znode (g_M g')" by (simp add: znode_def fun_eq_iff)
  have "zset_rep (g_M g') (zref g y) (zobj g y) (T y)" using Z(1) s unfolding zset_rep_def zn by simp
  moreover have "h_brk (o_h (g_M g)) \<le> h_brk (o_h (g_M g'))" using E by (simp add: elsewhere_def)
  moreover have "set_tree (T y) \<inter> A' = {}" using Y A' set_ok_brk(1) [OF Y] by (fastforce simp: set_ok_def)
  moreover have "set_tabs g y \<inter> tabs (g_db g') = {}" using Y hm set_ok_brk(2) [OF Y] by (fastforce simp: set_ok_def)
  ultimately have "set_ok g' A' T y" using Y unfolding set_ok_def ref obj by simp
  then show ?thesis using obj Z(2) unfolding members_def zn by simp
qed

text \<open>A state with some of the entries, all as before.\<close>

lemma keep_rep:
  assumes R: "db_rep g ns T m" and H: "map_holds (o_h (g_M g'), g_db g') ns'"
    and sub: "set_mset ns' \<subseteq> set_mset ns" "held g' ns' \<subseteq> held g ns"
    and jobs: "distinct (g_jobs g')" "set_mset ns' \<inter> set (g_jobs g') = {}" "\<forall>y \<in> set (g_jobs g'). e_type (ent g y) \<noteq> 0"
    and old: "\<forall>y \<in> held g' ns'. ent g' y = ent g y \<and> entry_ok g' y"
    and S: "\<forall>y \<in> held g' ns'. e_type (ent g y) \<noteq> 0 \<longrightarrow> zobj g' y = zobj g y \<and> set_ok g' (held g' ns') T y \<and>
      members (g_M g') (T y) = members (g_M g) (T y)"
  shows "db_rep g' ns' T (m |` ((\<lambda>y. e_key (ent g y)) ` set_mset ns'))"
proof -
  note D = db_repD [OF R]
  have same: "ent g' y = ent g y" "zref g' y = zref g y" if "y \<in> held g' ns'" for y using old that by (auto simp: zref_def)
  have key: "(\<lambda>y. e_key (ent g' y)) ` set_mset ns' = (\<lambda>y. e_key (ent g y)) ` set_mset ns'" using same(1) by auto
  have entries: "set_entries g' ns' \<subseteq> set_entries g ns" using sub(2) same(1) by auto
  show ?thesis
  proof (rule db_repI [OF H _ jobs(1,2)])
    show "inj_on (\<lambda>y. e_key (ent g' y)) (set_mset ns')"
      using inj_on_subset [OF D(2) sub(1)] same(1) by (simp add: inj_on_def)
    show "dom (m |` ((\<lambda>y. e_key (ent g y)) ` set_mset ns')) = (\<lambda>y. e_key (ent g' y)) ` set_mset ns'"
      unfolding key using D(3) sub(1) by auto
    show "(m |` ((\<lambda>y. e_key (ent g y)) ` set_mset ns')) (e_key (ent g' y)) = Some (value_of g' T y)" if y: "y \<in># ns'" for y
    proof -
      have "value_of g' T y = value_of g T y" using same(1) [of y] S y by (simp add: value_of_def)
      then show ?thesis using D(5) [of y] sub(1) y same(1) [of y] by auto
    qed
    show "apart g' T x y" if "x \<in> set_entries g' ns'" "y \<in> set_entries g' ns'" "x \<noteq> y" for x y
    proof -
      have o: "zobj g' x = zobj g x" "zobj g' y = zobj g y" "zref g' x = zref g x" "zref g' y = zref g y"
        using that S same [of x] same [of y] by simp_all
      have "apart g T x y" by (rule D(7)) (use entries that in blast)+
      then show ?thesis unfolding apart_def o .
    qed
    show "set_ok g' (held g' ns') T y" if "y \<in> set_entries g' ns'" for y using S same [of y] that by auto
    show "e_type (ent g' y) \<noteq> 0" if "y \<in> set (g_jobs g')" for y using jobs(3) same(1) that by simp
    show "entry_ok g' y" if "y \<in> held g' ns'" for y using old that by blast
  qed
qed

section \<open>Lookup of an entry\<close>

lemma entry_keys:
  assumes "db_rep g ns T m"
  shows "\<forall>y \<in># ns. code_at (o_h (g_M g)) y = str_hash key \<longrightarrow> entry_eq (g_M g) (Inr key) y = Inr (e_key (ent g y) = key)"
  using db_rep_ent [OF assms] by (simp add: entry_eq_def load_Some)

text \<open>What the map of the database finds.\<close>

lemma found_entry:
  assumes R: "db_rep g ns T m"
    and F: "found (code_eq (str_hash key) (\<lambda>y. e_key (ent g y) = key) (code_at (o_h (g_M g)))) ns p"
  shows "case p of None \<Rightarrow> m key = None | Some a \<Rightarrow> a \<in># ns \<and> e_key (ent g a) = key"
proof (cases p)
  case None
  then have "key \<notin> (\<lambda>y. e_key (ent g y)) ` set_mset ns"
    using F db_repD(4) [OF R] by (auto simp: found_def code_eq_def entry_ok_def)
  then show ?thesis unfolding db_repD(3) [OF R, symmetric] using None by auto
qed (use F in \<open>simp add: found_def code_eq_def\<close>)

text \<open>The sets, when the map of the database has changed and no other object of theirs.\<close>

lemma map_step:
  assumes R: "db_rep g ns T m" and F: "frame (set_mset ns) (tabs (g_db g)) (o_h (g_M g)) h" and hm: "tabs hm \<subseteq> tabs (g_db g)"
    and g': "o_h (g_M g') = h" "o_t (g_M g') = o_t (g_M g)" "o_z (g_M g') = o_z (g_M g)" "o_s (g_M g') = o_s (g_M g)" "g_db g' = hm"
    and y: "y \<in> set_entries g ns" "ent g' y = ent g y" and A': "A' \<subseteq> held g ns"
  shows "zobj g' y = zobj g y \<and> set_ok g' A' T y \<and> members (g_M g') (T y) = members (g_M g) (T y)"
proof (rule old_set [where X = "set_mset ns" and B = "tabs (g_db g)" and z = 0])
  show "set_ok g (held g ns) T y" by (rule db_repD(6) [OF R y(1)])
  then show "set_tree (T y) \<inter> set_mset ns = {}" "set_tabs g y \<inter> tabs (g_db g) = {}" by (auto simp: set_ok_def)
  show "elsewhere (set_mset ns) (tabs (g_db g)) 0 (g_M g)
      ((g_M g')\<lparr>o_e := o_e (g_M g), o_idx := o_idx (g_M g), o_s := o_s (g_M g)\<rparr>)"
    using F by (simp add: elsewhere_def frame_def g')
qed (use y(2) g' hm A' in auto)

lemma restrict_dom: "m |` dom m = m"
  by (auto simp: restrict_map_def fun_eq_iff domIff)

lemma lookup_entry:
  assumes R: "db_rep g ns T m"
  obtains g' p where "db_lookup g key = Inr (g', p)" and "db_rep g' ns T m"
    and "case p of None \<Rightarrow> m key = None | Some a \<Rightarrow> a \<in># ns \<and> e_key (ent g' a) = key"
proof -
  note D = db_repD [OF R]
  obtain h hm p where L: "hm_lookup (o_h (g_M g)) (g_db g) (str_hash key) (entry_eq (g_M g) (Inr key)) = Inr (h, hm, p)"
      "map_holds (h, hm) ns" "frame (set_mset ns) (tabs (g_db g)) (o_h (g_M g)) h" "tabs hm \<subseteq> tabs (g_db g)"
      "found (code_eq (str_hash key) (\<lambda>y. e_key (ent g y) = key) (code_at (o_h (g_M g)))) ns p"
    by (rule map_look_framed [OF D(1) entry_keys [OF R]])
  let ?g = "g\<lparr>g_M := (g_M g)\<lparr>o_h := h\<rparr>, g_db := hm\<rparr>"
  have ent: "ent ?g = ent g" by (simp add: ent_def fun_eq_iff)
  have "db_rep ?g ns T (m |` ((\<lambda>y. e_key (ent g y)) ` set_mset ns))"
  proof (rule keep_rep [OF R])
    show "\<forall>y \<in> held ?g ns. ent ?g y = ent g y \<and> entry_ok ?g y"
      using D(4) frame_code [OF L(3)] frame_brk [OF L(3)] unfolding entry_ok_def ent by fastforce
    show "\<forall>y \<in> held ?g ns. e_type (ent g y) \<noteq> 0 \<longrightarrow> zobj ?g y = zobj g y \<and> set_ok ?g (held ?g ns) T y \<and>
        members (g_M ?g) (T y) = members (g_M g) (T y)"
      by (intro ballI impI map_step [OF R L(3,4)]) (use ent in simp_all)
  qed (use L(2) D(8,9,10) in simp_all)
  then have "db_rep ?g ns T m" unfolding D(3) [symmetric] restrict_dom .
  moreover have "db_lookup g key = Inr (?g, p)" using L(1) by (simp add: db_lookup_def)
  moreover have "case p of None \<Rightarrow> m key = None | Some a \<Rightarrow> a \<in># ns \<and> e_key (ent ?g a) = key"
    using found_entry [OF R L(5)] unfolding ent .
  ultimately show ?thesis using that by blast
qed

section \<open>A change of one set\<close>

text \<open>Another set, when the set of \<open>y\<close> is changed to \<open>t'\<close>.\<close>

lemma other_set:
  assumes P: "apart g T x y" and X: "set_ok g A T x"
    and C: "confined (zref g y) (g_M g, zobj g y, T y) (M', zs', t')"
  shows "zobj (g\<lparr>g_M := M'\<rparr>) x = zobj g x" and "zset_rep M' (zref g x) (zobj g x) (T x)"
    and "members M' (T x) = members (g_M g) (T x)" and "set_tree (T x) \<inter> set_tree t' = {}"
    and "set_tabs g x \<inter> tabs (zs_hmap zs') = {}"
proof -
  have E: "elsewhere (set_tree (T y)) (set_tabs g y) (zref g y) (g_M g) M'"
      "set_tree t' \<subseteq> set_tree (T y) \<union> {h_brk (o_h (g_M g))..}" "tabs (zs_hmap zs') \<subseteq> set_tabs g y \<union> {h_brk (o_h (g_M g))..}"
    using C by (simp_all add: confined_def)
  have s: "o_s M' (zref g x) = o_s (g_M g) (zref g x)" and "zref (g\<lparr>g_M := M'\<rparr>) x = zref g x"
    using P E(1) by (simp_all add: elsewhere_def apart_def zref_def ent_def)
  then show "zobj (g\<lparr>g_M := M'\<rparr>) x = zobj g x" by (simp add: zobj_def)
  have Z: "zset_rep (g_M g) (zref g x) (zobj g x) (T x)" using X by (simp add: set_ok_def)
  show "zset_rep M' (zref g x) (zobj g x) (T x)" "members M' (T x) = members (g_M g) (T x)"
    using zset_rep_other [OF Z E(1) s] P by (auto simp: apart_def)
  show "set_tree (T x) \<inter> set_tree t' = {}" using P E(2) set_ok_brk(1) [OF X] by (fastforce simp: apart_def)
  show "set_tabs g x \<inter> tabs (zs_hmap zs') = {}" using P E(3) set_ok_brk(2) [OF X] by (fastforce simp: apart_def)
qed


text \<open>The map of the database and its entries.\<close>

lemma same_entries:
  assumes R: "db_rep g ns T m" and Y: "set_ok g (held g ns) T y"
    and C: "confined (zref g y) (g_M g, zobj g y, T y) (M', zs', t')"
  shows "map_holds (o_h M', g_db g) ns" and "x \<in> held g ns \<Longrightarrow> entry_ok (g\<lparr>g_M := M'\<rparr>) x"
    and "set_tree t' \<inter> held g ns = {}" and "tabs (zs_hmap zs') \<inter> tabs (g_db g) = {}"
proof -
  note D = db_repD [OF R]
  have E: "elsewhere (set_tree (T y)) (set_tabs g y) (zref g y) (g_M g) M'"
      "set_tree t' \<subseteq> set_tree (T y) \<union> {h_brk (o_h (g_M g))..}" "tabs (zs_hmap zs') \<subseteq> set_tabs g y \<union> {h_brk (o_h (g_M g))..}"
    using C by (simp_all add: confined_def)
  have brk: "h_brk (o_h (g_M g)) \<le> h_brk (o_h M')" and oe: "o_e M' = o_e (g_M g)" using E(1) by (simp_all add: elsewhere_def)
  have x: "x < h_brk (o_h (g_M g))" "x \<notin> set_tree (T y)" if "x \<in> held g ns" for x
    using db_rep_brk [OF R that] Y that by (auto simp: set_ok_def)
  have b: "b < h_brk (o_h (g_M g))" "b \<notin> set_tabs g y" if "b \<in> tabs (g_db g)" for b
    using map_holds_tabs [OF D(1) that] Y that by (auto simp: set_ok_def)
  show "map_holds (o_h M', g_db g) ns"
    by (rule map_holds_other [OF D(1) _ _ brk]) (use E(1) x b in \<open>simp_all add: elsewhere_def\<close>)
  show "entry_ok (g\<lparr>g_M := M'\<rparr>) x" if "x \<in> held g ns"
    using D(4) [OF that] E(1) x [OF that] unfolding entry_ok_def by (simp add: oe ent_def elsewhere_def code_at_def)
  show "set_tree t' \<inter> held g ns = {}" using E(2) x by fastforce
  show "tabs (zs_hmap zs') \<inter> tabs (g_db g) = {}" using E(3) b by fastforce
qed

lemma change_set:
  assumes R: "db_rep g ns T m" and y: "y \<in># ns" "e_type (ent g y) \<noteq> 0"
    and C: "confined (zref g y) (g_M g, zobj g y, T y) (M', zs', t')" and Z: "zset_rep M' (zref g y) zs' t'"
    and small: "size t' \<le> 4"
  shows "db_rep (g\<lparr>g_M := M'\<rparr>) ns (T(y := t')) (m(e_key (ent g y) \<mapsto> Zset (members M' t')))"
proof -
  note D = db_repD [OF R]
  let ?g = "g\<lparr>g_M := M'\<rparr>" and ?T = "T(y := t')"
  have ye: "y \<in> set_entries g ns" using y by simp
  note Y = D(6) [OF ye]
  note N = same_entries [OF R Y C]
  have brk: "h_brk (o_h (g_M g)) \<le> h_brk (o_h M')" and oe: "o_e M' = o_e (g_M g)"
    using C by (simp_all add: confined_def elsewhere_def)
  have same: "ent ?g = ent g" "zref ?g = zref g" using oe by (simp_all add: ent_def zref_def fun_eq_iff)
  have se: "set_entries ?g ns = set_entries g ns" by (simp add: same)
  have yof: "zobj ?g y = zs'" using zset_repD(1) [OF Z] by (simp add: zobj_def same)
  have other: "apart g T x y" "zobj ?g x = zobj g x" "zset_rep M' (zref g x) (zobj g x) (T x)"
      "members M' (T x) = members (g_M g) (T x)" "set_tree (T x) \<inter> set_tree t' = {}" "set_tabs g x \<inter> tabs (zs_hmap zs') = {}"
    if x: "x \<in> set_entries g ns" "x \<noteq> y" for x
    using D(7) [OF x(1) ye x(2)] other_set [OF D(7) [OF x(1) ye x(2)] D(6) [OF x(1)] C] by simp_all
  have differ: "e_key (ent g x) \<noteq> e_key (ent g y)" if "x \<in># ns" "x \<noteq> y" for x
    using D(2) that y(1) by (auto dest: inj_onD)
  show ?thesis
  proof (rule db_repI)
    show "map_holds (o_h (g_M ?g), g_db ?g) ns" using N(1) by simp
    show "entry_ok ?g x" if "x \<in> held ?g ns" for x using N(2) that by simp
    show "dom (m(e_key (ent g y) \<mapsto> Zset (members M' t'))) = (\<lambda>y. e_key (ent ?g y)) ` set_mset ns"
      unfolding same using D(3) y(1) by auto
    show "(m(e_key (ent g y) \<mapsto> Zset (members M' t'))) (e_key (ent ?g x)) = Some (value_of ?g ?T x)" if x: "x \<in># ns" for x
    proof (cases "x = y")
      case True
      then show ?thesis using y(2) unfolding value_of_def same by simp
    next
      case False
      then have "value_of ?g ?T x = value_of g T x" using other(4) [of x] x unfolding value_of_def same by simp
      then show ?thesis using differ [OF x False] D(5) [OF x] unfolding same by simp
    qed
    show "set_ok ?g (held ?g ns) ?T x" if "x \<in> set_entries ?g ns" for x
    proof (cases "x = y")
      case True
      then show ?thesis using N(3,4) Z small Y brk yof unfolding set_ok_def same by simp
    next
      case False
      have x: "x \<in> set_entries g ns" using that unfolding se .
      show ?thesis using False D(6) [OF x] other(2,3) [OF x False] brk unfolding set_ok_def same by simp
    qed
    show "apart ?g ?T u v" if uv: "u \<in> set_entries ?g ns" "v \<in> set_entries ?g ns" "u \<noteq> v" for u v
    proof -
      have u: "u \<in> set_entries g ns" and v: "v \<in> set_entries g ns" using uv(1,2) unfolding se by auto
      consider "u = y" "v \<noteq> y" | "u \<noteq> y" "v = y" | "u \<noteq> y" "v \<noteq> y" using uv(3) by auto
      then show ?thesis
      proof cases
        case 1
        then show ?thesis using other [OF v 1(2)] yof unfolding apart_def same by auto
      next
        case 2
        then show ?thesis using other [OF u 2(1)] yof unfolding apart_def same by auto
      next
        case 3
        then show ?thesis using D(7) [OF u v uv(3)] other(2) [OF u 3(1)] other(2) [OF v 3(2)] unfolding apart_def same by simp
      qed
    qed
  qed (use D in \<open>simp_all add: same\<close>)
qed

section \<open>A new entry\<close>

text \<open>An entry \<open>e\<close> is allocated, with an empty set behind it or with none, and put into the map.\<close>

definition with_entry :: "objs \<Rightarrow> Entry \<Rightarrow> addr \<Rightarrow> ZSet store \<Rightarrow> objs" where
  "with_entry M e b s = (let a = h_brk (o_h M) in
     M\<lparr>o_h := (o_h M)\<lparr>h_nodes := (h_nodes (o_h M))(a \<mapsto> \<lparr>h_next = None, h_code = str_hash (e_key e)\<rparr>), h_brk := b\<rparr>,
       o_e := (o_e M)(a \<mapsto> e), o_idx := (o_idx M)(a \<mapsto> - 1), o_s := s\<rparr>)"

lemma add_entry:
  assumes R: "db_rep g ns T m" and new: "a \<notin> held g ns" and key: "m (e_key (ent g' a)) = None"
    and H: "map_holds (o_h (g_M g'), g_db g') (add_mset a ns)" and jobs: "g_jobs g' = g_jobs g"
    and old: "\<forall>y \<in> held g ns. ent g' y = ent g y \<and> entry_ok g' y" and a: "entry_ok g' a"
    and S: "\<forall>y \<in> set_entries g ns. zobj g' y = zobj g y \<and> set_ok g' (held g' (add_mset a ns)) T y \<and>
      members (g_M g') (T y) = members (g_M g) (T y)"
    and at: "e_type (ent g' a) \<noteq> 0 \<Longrightarrow> set_ok g' (held g' (add_mset a ns)) (T(a := Leaf)) a \<and> set_tabs g' a = {} \<and>
      (\<forall>y \<in> set_entries g ns. zref g' a \<noteq> zref g y)"
  shows "db_rep g' (add_mset a ns) (T(a := Leaf)) (m(e_key (ent g' a) \<mapsto>
    (if e_type (ent g' a) = 0 then Str (e_val (ent g' a)) else Zset [])))"
proof -
  note D = db_repD [OF R]
  let ?T = "T(a := Leaf)" and ?e = "ent g' a"
  have same: "ent g' y = ent g y" "zref g' y = zref g y" "y \<noteq> a" if "y \<in> held g ns" for y
    using old new that by (auto simp: zref_def)
  have differ: "e_key (ent g y) \<noteq> e_key ?e" if "y \<in># ns" for y using key D(5) [OF that] by auto
  have two: "y \<in> set_entries g ns \<and> zref g' y = zref g y \<and> zobj g' y = zobj g y"
    if "y \<in> set_entries g' (add_mset a ns)" "y \<noteq> a" for y
    using that same [of y] S jobs by auto
  show ?thesis
  proof (rule db_repI [OF H])
    show "inj_on (\<lambda>y. e_key (ent g' y)) (set_mset (add_mset a ns))"
    proof (rule inj_onI)
      fix x y
      assume "x \<in> set_mset (add_mset a ns)" "y \<in> set_mset (add_mset a ns)" "e_key (ent g' x) = e_key (ent g' y)"
      then show "x = y" using D(2) same(1) [of x] same(1) [of y] differ [of x] differ [of y]
        unfolding set_mset_add_mset_insert by (auto dest: inj_onD)
    qed
    show "dom (m(e_key ?e \<mapsto> (if e_type ?e = 0 then Str (e_val ?e) else Zset [])))
        = (\<lambda>y. e_key (ent g' y)) ` set_mset (add_mset a ns)"
      using D(3) same(1) by (auto simp: image_iff)
    show "(m(e_key ?e \<mapsto> (if e_type ?e = 0 then Str (e_val ?e) else Zset []))) (e_key (ent g' y)) = Some (value_of g' ?T y)"
      if "y \<in># add_mset a ns" for y
    proof (cases "y = a")
      case True
      then show ?thesis by (auto simp: value_of_def members_def)
    next
      case False
      then have y: "y \<in># ns" using that by simp
      have "value_of g' ?T y = value_of g T y" using same [of y] S y by (simp add: value_of_def)
      then show ?thesis using D(5) [OF y] same [of y] differ [OF y] y by simp
    qed
    show "set_ok g' (held g' (add_mset a ns)) ?T y" if "y \<in> set_entries g' (add_mset a ns)" for y
    proof (cases "y = a")
      case False
      then have "set_ok g' (held g' (add_mset a ns)) T y" using two [OF that] S by blast
      then show ?thesis using False by (simp add: set_ok_def)
    qed (use that at in simp)
    show "apart g' ?T u v" if u: "u \<in> set_entries g' (add_mset a ns)" and v: "v \<in> set_entries g' (add_mset a ns)"
        and uv: "u \<noteq> v" for u v
    proof -
      have one: "zref g' a \<noteq> zref g y \<and> set_tabs g' a = {}" if "y \<in> set_entries g ns" "e_type ?e \<noteq> 0" for y
        using at that by auto
      consider "u = a" "v \<noteq> a" | "u \<noteq> a" "v = a" | "u \<noteq> a" "v \<noteq> a" using uv by auto
      then show ?thesis
      proof cases
        case 1
        then show ?thesis using one [of v] two [OF v] u by (simp add: apart_def)
      next
        case 2
        then show ?thesis using one [of u] two [OF u] v by (auto simp: apart_def)
      next
        case 3
        then show ?thesis using D(7) [of u v] two [OF u] two [OF v] uv by (simp add: apart_def)
      qed
    qed
    show "e_type (ent g' y) \<noteq> 0" if "y \<in> set (g_jobs g')" for y using D(10) [of y] same(1) [of y] that jobs by simp
    show "entry_ok g' y" if "y \<in> held g' (add_mset a ns)" for y using old a that jobs by auto
    show "distinct (g_jobs g')" "set_mset (add_mset a ns) \<inter> set (g_jobs g') = {}" using D(8,9) jobs new by auto
  qed
qed

lemma insert_entry:
  assumes R: "db_rep g ns T m" and key: "m (e_key e) = None" and size: "size ns + 1 < 2 ^ 64"
    and b: "h_brk (o_h (g_M g)) < b" and s: "\<forall>x < h_brk (o_h (g_M g)). s x = o_s (g_M g) x"
    and e: "e_type e = 0 \<and> length (e_val e) \<le> k_max_msg \<and> e_zset e = None \<or>
      e_type e = 1 \<and> e_val e = [] \<and> (\<exists>z. e_zset e = Some z \<and> h_brk (o_h (g_M g)) < z \<and> z < b \<and>
        s z = Some \<lparr>zs_tree = None, zs_hmap = empty_map\<rparr>)"
  obtains h hm where
      "hm_insert (o_h (with_entry (g_M g) e b s)) (g_db g) (Some (h_brk (o_h (g_M g)))) = Inr (h, hm)"
    and "db_rep (g\<lparr>g_M := (with_entry (g_M g) e b s)\<lparr>o_h := h\<rparr>, g_db := hm\<rparr>) (add_mset (h_brk (o_h (g_M g))) ns)
      (T(h_brk (o_h (g_M g)) := Leaf)) (m(e_key e \<mapsto> (if e_type e = 0 then Str (e_val e) else Zset [])))"
proof -
  note D = db_repD [OF R]
  let ?a = "h_brk (o_h (g_M g))" and ?M = "with_entry (g_M g) e b s"
  let ?h = "o_h ?M"
  have new: "?a \<notin> held g ns" using db_rep_brk [OF R, of ?a] by auto
  then have new': "?a \<notin># ns" by blast
  have h: "h_nodes ?h = (h_nodes (o_h (g_M g)))(?a \<mapsto> \<lparr>h_next = None, h_code = str_hash (e_key e)\<rparr>)"
      "h_arrs ?h = h_arrs (o_h (g_M g))" "h_brk ?h = b"
    by (simp_all add: with_entry_def Let_def)
  have "map_holds (?h, g_db g) ns" by (rule map_holds_alloc [OF D(1)]) (use new' b h in auto)
  moreover have "map_alive (?h, g_db g) ?a" using b by (simp add: map_alive_def h)
  ultimately obtain h' hm where I: "hm_insert ?h (g_db g) (Some ?a) = Inr (h', hm)" "map_holds (h', hm) (add_mset ?a ns)"
      "frame (insert ?a (set_mset ns)) (tabs (g_db g) \<union> {h_brk ?h..}) ?h h'" "tabs hm \<subseteq> tabs (g_db g) \<union> {h_brk ?h..}"
    using new' size by (rule map_ins_framed)
  let ?g = "g\<lparr>g_M := ?M\<lparr>o_h := h'\<rparr>, g_db := hm\<rparr>"
  have at: "ent ?g ?a = e" by (simp add: ent_def with_entry_def Let_def)
  have old: "y \<noteq> ?a \<Longrightarrow> ent ?g y = ent g y" for y by (simp add: ent_def with_entry_def Let_def)
  have brk: "?a < h_brk h'" "b \<le> h_brk h'" using frame_brk [OF I(3)] b h(3) by simp_all
  have code: "code_at h' y = (if y = ?a then str_hash (e_key e) else code_at (o_h (g_M g)) y)" for y
    using frame_code [OF I(3), of y] by (simp add: code_at_def h)
  have S: "zobj ?g y = zobj g y \<and> set_ok ?g (held ?g (add_mset ?a ns)) T y \<and> members (g_M ?g) (T y) = members (g_M g) (T y)"
    if y: "y \<in> set_entries g ns" for y
  proof (rule old_set [where X = "set_mset ns" and B = "tabs (g_db g)" and z = 0])
    show Y: "set_ok g (held g ns) T y" by (rule D(6) [OF y])
    then show "o_s (g_M ?g) (zref g y) = o_s (g_M g) (zref g y)" using s by (simp add: set_ok_def with_entry_def Let_def)
    show "set_tree (T y) \<inter> set_mset ns = {}" "set_tabs g y \<inter> tabs (g_db g) = {}" using Y by (auto simp: set_ok_def)
    show "elsewhere (set_mset ns) (tabs (g_db g)) 0 (g_M g)
        ((g_M ?g)\<lparr>o_e := o_e (g_M g), o_idx := o_idx (g_M g), o_s := o_s (g_M g)\<rparr>)"
      using I(3) b by (auto simp: elsewhere_def frame_def h with_entry_def Let_def)
    show "ent ?g y = ent g y" by (rule old) (use y new in blast)
  qed (use I(4) b h(3) in auto)
  have E: "zref ?g ?a = z \<and> zobj ?g ?a = \<lparr>zs_tree = None, zs_hmap = empty_map\<rparr> \<and> zset_rep (g_M ?g) z (zobj ?g ?a) Leaf"
    if z: "e_zset e = Some z" "s z = Some \<lparr>zs_tree = None, zs_hmap = empty_map\<rparr>" for z
  proof -
    have "map_holds (h', empty_map) {#}"
      using empty_map_ok [of h'] unfolding map_holds_def by (intro exI [of _ "[]"]) simp
    then show ?thesis using z at by (simp add: zref_def zobj_def zset_rep_def with_entry_def Let_def)
  qed
  have "db_rep ?g (add_mset ?a ns) (T(?a := Leaf)) (m(e_key (ent ?g ?a) \<mapsto>
      (if e_type (ent ?g ?a) = 0 then Str (e_val (ent ?g ?a)) else Zset [])))"
  proof (rule add_entry [OF R new])
    have "ent ?g y = ent g y \<and> entry_ok ?g y" if y: "y \<in> held g ns" for y
    proof -
      have "y \<noteq> ?a" using y new by blast
      then show ?thesis using D(4) [OF y] old [of y] code [of y] brk(1)
        by (simp add: entry_ok_def with_entry_def Let_def)
    qed
    then show "\<forall>y \<in> held g ns. ent ?g y = ent g y \<and> entry_ok ?g y" by blast
    show "entry_ok ?g ?a" using e at code brk(1) by (auto simp: entry_ok_def with_entry_def Let_def)
    show "\<forall>y \<in> set_entries g ns. zobj ?g y = zobj g y \<and> set_ok ?g (held ?g (add_mset ?a ns)) T y \<and>
        members (g_M ?g) (T y) = members (g_M g) (T y)" using S by blast
    assume "e_type (ent ?g ?a) \<noteq> 0"
    then obtain z where z: "e_zset e = Some z" "?a < z" "z < b" "s z = Some \<lparr>zs_tree = None, zs_hmap = empty_map\<rparr>"
      using e at by auto
    have "zref g y < ?a" if "y \<in> set_entries g ns" for y using D(6) [OF that] by (simp add: set_ok_def)
    then show "set_ok ?g (held ?g (add_mset ?a ns)) (T(?a := Leaf)) ?a \<and> set_tabs ?g ?a = {} \<and>
        (\<forall>y \<in> set_entries g ns. zref ?g ?a \<noteq> zref g y)"
      using E [OF z(1,4)] z(2,3) brk by (fastforce simp: set_ok_def tabs_def empty_map_def empty_tab_def)
  qed (use key at I(2) in simp_all)
  then show ?thesis using that I(1) unfolding at by simp
qed

section \<open>Deletion\<close>

text \<open>The node of a string is freed, that of a set waits in the queue.\<close>

lemma remove_entry:
  assumes R: "db_rep g ns T m" and F: "frame (set_mset ns) (tabs (g_db g)) (o_h (g_M g)) h" and hm: "tabs hm \<subseteq> tabs (g_db g)"
    and H: "map_holds (h, hm) (ns - {#a#})" and a: "a \<in># ns"
  obtains g' where "entry_del (g\<lparr>g_M := (g_M g)\<lparr>o_h := h\<rparr>, g_db := hm\<rparr>) a = Inr g'"
    and "db_rep g' (ns - {#a#}) T (m(e_key (ent g a) := None))"
proof -
  note D = db_repD [OF R]
  let ?g = "g\<lparr>g_M := (g_M g)\<lparr>o_h := h\<rparr>, g_db := hm\<rparr>"
  have "count ns a = count (mset_set (set_mset ns)) a" using map_holds_member(2) [OF D(1)] by simp
  then have "a \<notin># ns - {#a#}" using a by (simp add: not_in_iff)
  then have set: "set_mset (ns - {#a#}) = set_mset ns - {a}" by (rule at_most_one_mset_mset_diff)
  have keys: "m |` ((\<lambda>y. e_key (ent g y)) ` set_mset (ns - {#a#})) = m(e_key (ent g a) := None)"
  proof -
    have "(\<lambda>y. e_key (ent g y)) ` (set_mset ns - {a}) = dom m - {e_key (ent g a)}"
      using inj_on_image_set_diff [OF D(2), of "set_mset ns" "{a}"] a unfolding D(3) by simp
    then show ?thesis unfolding set by (auto simp: restrict_map_def fun_eq_iff domIff)
  qed
  have ok: "o_e (g_M g) a = Some (ent g a)" "entry_ok g a" using db_rep_ent [OF R, of a] D(4) [of a] a by simp_all
  show ?thesis
  proof (cases "e_type (ent g a) = 0")
    case False
    let ?g' = "?g\<lparr>g_jobs := g_jobs g @ [a]\<rparr>"
    have ent: "ent ?g' = ent g" by (simp add: ent_def fun_eq_iff)
    have held: "held ?g' (ns - {#a#}) = held g ns" using set a by auto
    have "entry_del ?g a = Inr ?g'" using False ok by (auto simp: entry_del_def load_Some entry_ok_def)
    moreover have "db_rep ?g' (ns - {#a#}) T (m |` ((\<lambda>y. e_key (ent g y)) ` set_mset (ns - {#a#})))"
    proof (rule keep_rep [OF R])
      show "\<forall>y \<in> held ?g' (ns - {#a#}). ent ?g' y = ent g y \<and> entry_ok ?g' y"
        unfolding held using D(4) frame_code [OF F] frame_brk [OF F] unfolding entry_ok_def ent by fastforce
      show "\<forall>y \<in> held ?g' (ns - {#a#}). e_type (ent g y) \<noteq> 0 \<longrightarrow> zobj ?g' y = zobj g y \<and>
          set_ok ?g' (held ?g' (ns - {#a#})) T y \<and> members (g_M ?g') (T y) = members (g_M g) (T y)"
        unfolding held by (intro ballI impI map_step [OF R F hm]) (use ent in simp_all)
      show "distinct (g_jobs ?g')" "set_mset (ns - {#a#}) \<inter> set (g_jobs ?g') = {}" using D(8,9) a set by auto
    qed (use H D(10) False held set in auto)
    ultimately show ?thesis using that unfolding keys by blast
  next
    case True
    let ?M = "(g_M g)\<lparr>o_h := h\<lparr>h_nodes := (h_nodes h)(a := None)\<rparr>,
      o_e := (o_e (g_M g))(a := None), o_idx := (o_idx (g_M g))(a := None)\<rparr>"
    let ?g' = "?g\<lparr>g_M := ?M\<rparr>"
    have out: "a \<notin> set (g_jobs g)" using D(9) a by blast
    have held: "held ?g' (ns - {#a#}) = held g ns - {a}" using set out by auto
    have ent: "ent ?g' y = ent g y" if "y \<noteq> a" for y using that by (simp add: ent_def)
    have "entry_del ?g a = Inr ?g'" using True ok(1) by (simp add: entry_del_def entry_free_def load_Some)
    moreover have "db_rep ?g' (ns - {#a#}) T (m |` ((\<lambda>y. e_key (ent g y)) ` set_mset (ns - {#a#})))"
    proof (rule keep_rep [OF R])
      show "map_holds (o_h (g_M ?g'), g_db ?g') (ns - {#a#})"
        using map_holds_other [OF H, of "o_h ?M"] set by simp
      have "ent ?g' y = ent g y \<and> entry_ok ?g' y" if y: "y \<in> held g ns" "y \<noteq> a" for y
        using D(4) [OF y(1)] ent [OF y(2)] frame_code [OF F, of y] frame_brk [OF F] y(2)
        by (simp add: entry_ok_def code_at_def)
      then show "\<forall>y \<in> held ?g' (ns - {#a#}). ent ?g' y = ent g y \<and> entry_ok ?g' y" unfolding held by blast
      have "zobj ?g' y = zobj g y \<and> set_ok ?g' (held g ns - {a}) T y \<and> members (g_M ?g') (T y) = members (g_M g) (T y)"
        if y: "y \<in> set_entries g ns" for y
      proof (rule old_set [where X = "set_mset ns" and B = "tabs (g_db g)" and z = 0])
        show "set_ok g (held g ns) T y" by (rule D(6) [OF y])
        then show "set_tree (T y) \<inter> set_mset ns = {}" "set_tabs g y \<inter> tabs (g_db g) = {}" by (auto simp: set_ok_def)
        show "elsewhere (set_mset ns) (tabs (g_db g)) 0 (g_M g)
            ((g_M ?g')\<lparr>o_e := o_e (g_M g), o_idx := o_idx (g_M g), o_s := o_s (g_M g)\<rparr>)"
          using F a by (auto simp: elsewhere_def frame_def)
        show "ent ?g' y = ent g y" by (rule ent) (use y True in blast)
      qed (use hm in auto)
      then show "\<forall>y \<in> held ?g' (ns - {#a#}). e_type (ent g y) \<noteq> 0 \<longrightarrow> zobj ?g' y = zobj g y \<and>
          set_ok ?g' (held ?g' (ns - {#a#})) T y \<and> members (g_M ?g') (T y) = members (g_M g) (T y)"
        unfolding held by blast
    qed (use H D(8,9,10) held set in auto)
    ultimately show ?thesis using that unfolding keys by blast
  qed
qed

lemma delete_entry:
  assumes R: "db_rep g ns T m" and size: "size ns \<le> k_resizing_work"
  obtains g' ns' where "do_del g [op, key] out = Inr (g', RES_OK, out_int out (if m key = None then 0 else 1))"
    and "db_rep g' ns' T (m(key := None))" and "size ns' = size ns - (if m key = None then 0 else 1)"
proof -
  note D = db_repD [OF R]
  obtain h hm p where L: "hm_delete (o_h (g_M g)) (g_db g) (str_hash key) (entry_eq (g_M g) (Inr key)) = Inr (h, hm, p)"
      "map_holds (h, hm) (ns - mset_set (set_option p))" "frame (set_mset ns) (tabs (g_db g)) (o_h (g_M g)) h"
      "tabs hm \<subseteq> tabs (g_db g)" "found (code_eq (str_hash key) (\<lambda>y. e_key (ent g y) = key) (code_at (o_h (g_M g)))) ns p"
    by (rule map_del_framed [OF D(1) entry_keys [OF R] size])
  note F = found_entry [OF R L(5)]
  let ?g = "g\<lparr>g_M := (g_M g)\<lparr>o_h := h\<rparr>, g_db := hm\<rparr>"
  show ?thesis
  proof (cases p)
    case None
    then have key: "m key = None" using F by simp
    have ent: "ent ?g = ent g" by (simp add: ent_def fun_eq_iff)
    have "db_rep ?g ns T (m |` ((\<lambda>y. e_key (ent g y)) ` set_mset ns))"
    proof (rule keep_rep [OF R])
      show "\<forall>y \<in> held ?g ns. ent ?g y = ent g y \<and> entry_ok ?g y"
        using D(4) frame_code [OF L(3)] frame_brk [OF L(3)] unfolding entry_ok_def ent by fastforce
      show "\<forall>y \<in> held ?g ns. e_type (ent g y) \<noteq> 0 \<longrightarrow> zobj ?g y = zobj g y \<and> set_ok ?g (held ?g ns) T y \<and>
          members (g_M ?g) (T y) = members (g_M g) (T y)"
        by (intro ballI impI map_step [OF R L(3,4)]) (use ent in simp_all)
    qed (use L(2) None D(8,9,10) in simp_all)
    then have "db_rep ?g ns T (m(key := None))"
      using fun_upd_idem [of m key None] key unfolding D(3) [symmetric] restrict_dom by simp
    then show ?thesis using that [of ?g ns] L(1) None key by (simp add: do_del_def)
  next
    case (Some a)
    then have a: "a \<in># ns" "e_key (ent g a) = key" using F by simp_all
    obtain g' where E: "entry_del ?g a = Inr g'" "db_rep g' (ns - {#a#}) T (m(e_key (ent g a) := None))"
      by (rule remove_entry [OF R L(3,4) _ a(1)]) (use L(2) Some in simp_all)
    obtain v where "m key = Some v" using D(5) [OF a(1)] a(2) by simp
    then show ?thesis using that [of g' "ns - {#a#}"] L(1) Some E a by (simp add: do_del_def size_Diff_singleton)
  qed
qed

section \<open>The thread pool\<close>

text \<open>A thread finishes one of the jobs of the queue.\<close>

definition finish_job :: "nat \<Rightarrow> gdata \<Rightarrow> gdata res" where
  "finish_job i g = (if i < length (g_jobs g) then
     bindr (threaded_zset_destructor (g_M g) (g_jobs g ! i)) (\<lambda>M.
     Inr (g\<lparr>g_M := M, g_jobs := take i (g_jobs g) @ drop (Suc i) (g_jobs g)\<rparr>)) else Inr g)"

lemma run_job:
  assumes R: "db_rep g ns T m"
  obtains g' where "finish_job i g = Inr g'" and "db_rep g' ns T m"
proof (cases "i < length (g_jobs g)")
  case False
  then show ?thesis using that R by (simp add: finish_job_def)
next
  case i: True
  note D = db_repD [OF R]
  let ?j = "g_jobs g ! i"
  have j: "?j \<in> set (g_jobs g)" "?j \<notin># ns" using i D(9) nth_mem [OF i] by auto
  have je: "?j \<in> set_entries g ns" using j(1) D(10) by simp
  note J = D(6) [OF je]
  have Z: "zset_rep (g_M g) (zref g ?j) (zobj g ?j) (T ?j)" using J by (simp add: set_ok_def)
  note Z' = zset_repD [OF Z]
  have e: "o_e (g_M g) ?j = Some (ent g ?j)" "e_zset (ent g ?j) = Some (zref g ?j)"
    using db_rep_ent [OF R, of ?j] D(4) [of ?j] je by (auto simp: entry_ok_def zref_def)
  obtain M where M: "threaded_zset_destructor (g_M g) ?j = Inr M"
      "o_z M = o_z (g_M g) |` (- set_tree (T ?j))" "o_t M = o_t (g_M g) |` (- set_tree (T ?j))"
      "h_nodes (o_h M) = h_nodes (o_h (g_M g)) |` (- insert ?j (set_tree (T ?j)))"
      "o_s M = (o_s (g_M g))(zref g ?j := None)" "o_e M = (o_e (g_M g))(?j := None)"
      "h_arrs (o_h M) = h_arrs (o_h (g_M g))" "h_brk (o_h M) = h_brk (o_h (g_M g))"
    using destructor_run [OF e Z'(1,2,4)] Z'(6) zset_rep_brk [OF Z] by auto
  let ?g = "g\<lparr>g_M := M, g_jobs := take i (g_jobs g) @ drop (Suc i) (g_jobs g)\<rparr>"
  have split: "g_jobs g = take i (g_jobs g) @ ?j # drop (Suc i) (g_jobs g)" using i by (simp add: id_take_nth_drop)
  then have dist: "distinct (take i (g_jobs g) @ ?j # drop (Suc i) (g_jobs g))" using D(8) by simp
  have queue: "set (take i (g_jobs g) @ drop (Suc i) (g_jobs g)) = set (g_jobs g) - {?j}"
    using dist arg_cong [OF split, of set] by auto
  have held: "held ?g ns = held g ns - {?j}" using queue j(2) by auto
  have away: "y \<notin> set_tree (T ?j)" if "y \<in> held g ns" for y using J that by (auto simp: set_ok_def)
  have ent: "ent ?g y = ent g y" if "y \<noteq> ?j" for y using that M(6) by (simp add: ent_def)
  have "db_rep ?g ns T (m |` ((\<lambda>y. e_key (ent g y)) ` set_mset ns))"
  proof (rule keep_rep [OF R])
    show "map_holds (o_h (g_M ?g), g_db ?g) ns"
      using map_holds_other [OF D(1), of "o_h M"] away j(2) M(4,7,8) by (fastforce simp: restrict_map_def)
    have "ent ?g y = ent g y \<and> entry_ok ?g y" if y: "y \<in> held g ns" "y \<noteq> ?j" for y
      using D(4) [OF y(1)] ent [OF y(2)] away [OF y(1)] y(2) M(4,6,8) by (simp add: entry_ok_def code_at_def)
    then show "\<forall>y \<in> held ?g ns. ent ?g y = ent g y \<and> entry_ok ?g y" unfolding held by blast
    have "zobj ?g y = zobj g y \<and> set_ok ?g (held g ns - {?j}) T y \<and> members (g_M ?g) (T y) = members (g_M g) (T y)"
      if y: "y \<in> set_entries g ns" "y \<noteq> ?j" for y
    proof (rule old_set [where X = "insert ?j (set_tree (T ?j))" and B = "{}" and z = 0])
      show Y: "set_ok g (held g ns) T y" by (rule D(6) [OF y(1)])
      note P = D(7) [OF y(1) je y(2)]
      show "set_tree (T y) \<inter> insert ?j (set_tree (T ?j)) = {}" using P Y j(1) by (auto simp: apart_def set_ok_def)
      show "elsewhere (insert ?j (set_tree (T ?j))) {} 0 (g_M g)
          ((g_M ?g)\<lparr>o_e := o_e (g_M g), o_idx := o_idx (g_M g), o_s := o_s (g_M g)\<rparr>)"
        using M by (simp add: elsewhere_def)
      show "o_s (g_M ?g) (zref g y) = o_s (g_M g) (zref g y)" using P M(5) by (simp add: apart_def)
      show "ent ?g y = ent g y" by (rule ent [OF y(2)])
    qed auto
    then show "\<forall>y \<in> held ?g ns. e_type (ent g y) \<noteq> 0 \<longrightarrow> zobj ?g y = zobj g y \<and>
        set_ok ?g (held ?g ns) T y \<and> members (g_M ?g) (T y) = members (g_M g) (T y)"
      unfolding held by blast
    show "distinct (g_jobs ?g)" using dist by simp
  qed (use D(9,10) queue held in auto)
  then have "db_rep ?g ns T m" unfolding D(3) [symmetric] restrict_dom .
  moreover have "finish_job i g = Inr ?g" using i M(1) by (simp add: finish_job_def)
  ultimately show ?thesis using that by blast
qed

end
