(* ===== verification/Set_Commands.thy ===== *)
theory Set_Commands
  imports Set_Store
begin

text \<open>
  The commands on a database of strings and small sorted sets: \<open>SET\<close>, \<open>GET\<close>, \<open>DEL\<close>, \<open>ZADD\<close>, \<open>ZSCORE\<close> and
  \<open>ZQUERY\<close>, with the destruction of deleted sets by the thread pool between them, refine a map from keys to strings
  and ordered lists.
\<close>

section \<open>Commands\<close>

text \<open>What a range query writes for one member.\<close>

definition put_pair :: "ZNode \<Rightarrow> bytes" where
  "put_pair q = out_dbl (out_str [] (zn_name q)) (zn_score q)"

lemma put_pair_append: "out_dbl (out_str out (zn_name q)) (zn_score q) = out @ put_pair q"
  by (simp add: put_pair_def out_dbl_def out_str_def)

text \<open>The members of a range query: at most \<open>limit\<close>, from \<open>offset\<close> places after the first not below the score.\<close>

definition zrange :: "dbl \<Rightarrow> int \<Rightarrow> nat \<Rightarrow> ZNode list \<Rightarrow> ZNode list" where
  "zrange score offset limit xs =
     (let i = length (takeWhile (\<lambda>p. zless_nodes p \<lparr>zn_score = score, zn_name = []\<rparr>) xs); k = int i + offset in
      if i < length xs \<and> 0 \<le> k then take limit (drop (nat k) xs) else [])"

lemma query_out_spec:
  assumes R: "zset_rep M z zs t" and small: "size t \<le> 4" and j: "j < size t"
  shows "query_out k M (Some (inorder t ! j)) out = Inr (out @ concat (map put_pair (take k (drop j (members M t)))))"
  using j
proof (induction k arbitrary: j out)
  case (Suc k)
  note D = zset_repD [OF R]
  have a: "inorder t ! j \<in> set_tree t" using Suc.prems by (metis length_inorder nth_mem set_inorder)
  have sz: "size t < o_fuel M" by (rule tree_fuel [OF D(4)]) (use zset_rep_brk [OF R] in blast)
  have off: "znode_offset M (Some (inorder t ! j)) 1 = Inr (if Suc j < size t then Some (inorder t ! Suc j) else None)"
    unfolding znode_offset_def using avl_offset_place [OF D(2,4) _ Suc.prems, of "2 * o_fuel M" 1] small sz
    by (simp add: place_def nat_add_distrib)
  have d: "drop j (members M t) = znode M (inorder t ! j) # drop (Suc j) (members M t)"
    using Suc.prems by (simp add: members_def drop_map Cons_nth_drop_Suc [symmetric])
  show ?case
  proof (cases "Suc j < size t")
    case True
    then show ?thesis using Suc.IH [OF True] D(6) [OF a] off d by (simp add: load_Some put_pair_append)
  next
    case False
    then have "drop (Suc j) (members M t) = []" by (simp add: members_def)
    then show ?thesis using False D(6) [OF a] off d by (cases k) (simp_all add: load_Some put_pair_append)
  qed
qed simp

lemma range_set:
  assumes R: "zset_rep M z zs t" and score: "\<not> dbl_nan score" and small: "size t \<le> 4"
  obtains p q where "zset_query M (Some z) score [] = Inr p" and "znode_offset M p offset = Inr q"
    and "query_out k M q out = Inr (out @ concat (map put_pair (zrange score offset k (members M t))))"
proof -
  let ?i = "length (takeWhile (\<lambda>p. zless_nodes p \<lparr>zn_score = score, zn_name = []\<rparr>) (members M t))"
  let ?q = "if ?i < size t then place (inorder t) (int ?i + offset) else None"
  obtain p where Q: "zset_query M (Some z) score [] = Inr p" "znode_offset M p offset = Inr ?q"
    by (rule query_place [OF assms refl])
  have len: "length (members M t) = size t" by (simp add: members_def)
  have none: "query_out k M None out = Inr out" by (cases k) simp_all
  have "query_out k M ?q out = Inr (out @ concat (map put_pair (zrange score offset k (members M t))))"
  proof (cases "?i < size t \<and> 0 \<le> int ?i + offset \<and> int ?i + offset < int (size t)")
    case True
    then have "nat (int ?i + offset) < size t" by (simp add: nat_less_iff)
    then show ?thesis using query_out_spec [OF R small, of "nat (int ?i + offset)" k out] True
      by (simp add: place_def zrange_def Let_def len)
  next
    case False
    then have "?q = None" by (auto simp: place_def)
    moreover have "zrange score offset k (members M t) = []" using False len by (auto simp: zrange_def Let_def)
    ultimately show ?thesis using none by simp
  qed
  then show ?thesis using that Q by blast
qed

text \<open>The entry of a key.\<close>

lemma entry_of:
  assumes R: "db_rep g ns T m" and y: "y \<in># ns"
  shows "load (o_e (g_M g)) (Some y) = Inr (ent g y)" and "m (e_key (ent g y)) = Some (value_of g T y)"
    and "e_type (ent g y) = 0 \<Longrightarrow> m (e_key (ent g y)) = Some (Str (e_val (ent g y)))"
    and "e_type (ent g y) \<noteq> 0 \<Longrightarrow> e_type (ent g y) = 1 \<and> e_zset (ent g y) = Some (zref g y) \<and> e_val (ent g y) = [] \<and>
      m (e_key (ent g y)) = Some (Zset (members (g_M g) (T y)))"
    and "length (e_val (ent g y)) \<le> k_max_msg"
  using db_rep_ent [OF R, of y] db_repD(4) [OF R, of y] db_repD(5) [OF R y] y
  by (auto simp: load_Some entry_ok_def value_of_def zref_def)

lemma add_to_set:
  assumes R: "db_rep g ns T m" and y: "y \<in># ns" "e_type (ent g y) \<noteq> 0"
    and xs: "m (e_key (ent g y)) = Some (Zset xs)" and small: "length (zput name score xs) \<le> 4" and score: "\<not> dbl_nan score"
  obtains M' T' where "zset_add (g_M g) (e_zset (ent g y)) name score = Inr (M', zmember name xs = None)"
    and "db_rep (g\<lparr>g_M := M'\<rparr>) ns T' (m(e_key (ent g y) \<mapsto> Zset (zput name score xs)))"
proof -
  have Y: "set_ok g (held g ns) T y" by (rule db_repD(6) [OF R]) (use y in simp)
  have Z: "zset_rep (g_M g) (zref g y) (zobj g y) (T y)" using Y by (simp add: set_ok_def)
  have e: "e_zset (ent g y) = Some (zref g y)" "xs = members (g_M g) (T y)" using entry_of(4) [OF R y] xs by simp_all
  obtain M' zs' t' where P: "zset_add (g_M g) (Some (zref g y)) name score = Inr (M', zmember name xs = None)"
      "zset_rep M' (zref g y) zs' t'" "members M' t' = zput name score xs"
      "confined (zref g y) (g_M g, zobj g y, T y) (M', zs', t')"
    using put_member [OF Z score, of name] small unfolding e(2) by metis
  have "size t' = length (members M' t')" by (simp add: members_def)
  then have "size t' \<le> 4" using small P(3) by simp
  from change_set [OF R y P(4,2) this] show ?thesis using that P(1,3) e(1) by simp
qed

lemma set_string:
  assumes R: "db_rep g ns T m" and "m key = None" and "length val \<le> k_max_msg" and "size ns + 1 < 2 ^ 64"
  obtains g' a T' where "do_set g [op, key, val] out = Inr (g', RES_OK, out_int out 0)"
    and "db_rep g' (add_mset a ns) T' (m(key \<mapsto> Str val))"
proof -
  let ?e = "\<lparr>e_key = key, e_val = val, e_type = 0, e_zset = None\<rparr>" and ?a = "h_brk (o_h (g_M g))"
  obtain h hm where I: "hm_insert (o_h (with_entry (g_M g) ?e (?a + 1) (o_s (g_M g)))) (g_db g) (Some ?a) = Inr (h, hm)"
      "db_rep (g\<lparr>g_M := (with_entry (g_M g) ?e (?a + 1) (o_s (g_M g)))\<lparr>o_h := h\<rparr>, g_db := hm\<rparr>) (add_mset ?a ns)
        (T(?a := Leaf)) (m(e_key ?e \<mapsto> (if e_type ?e = 0 then Str (e_val ?e) else Zset [])))"
    by (rule insert_entry [OF R, of ?e "?a + 1" "o_s (g_M g)"]) (use assms in simp_all)
  have "do_set g [op, key, val] out
      = Inr (g\<lparr>g_M := (with_entry (g_M g) ?e (?a + 1) (o_s (g_M g)))\<lparr>o_h := h\<rparr>, g_db := hm\<rparr>, RES_OK, out_int out 0)"
    using I(1) by (simp add: do_set_def entry_new_def with_entry_def fresh_def Let_def RES_OK_def)
  then show ?thesis using that I(2) by simp
qed

lemma get_value:
  assumes R: "db_rep g ns T m"
  obtains g' where "do_get g [op, key] out = Inr (case m key of
        None \<Rightarrow> (g', RES_NX, out_int out (ucast RES_NX)) | Some (Str v) \<Rightarrow> (g', RES_OK, out_str out v)
      | Some (Zset xs) \<Rightarrow> (g', RES_OK, out_str out []))"
    and "db_rep g' ns T m"
proof -
  obtain g' p where L: "db_lookup g key = Inr (g', p)" "db_rep g' ns T m"
      "case p of None \<Rightarrow> m key = None | Some a \<Rightarrow> a \<in># ns \<and> e_key (ent g' a) = key"
    by (rule lookup_entry [OF R])
  show ?thesis
  proof (cases p)
    case None
    then show ?thesis using that [of g'] L by (simp add: do_get_def)
  next
    case (Some a)
    then have a: "a \<in># ns" "e_key (ent g' a) = key" using L(3) by simp_all
    show ?thesis using that [of g'] entry_of [OF L(2) a(1)] a(2) Some L(1,2)
      by (cases "e_type (ent g' a) = 0") (auto simp: do_get_def)
  qed
qed

text \<open>The list behind a key, empty for a key that is not there.\<close>

definition list_at :: "dmap \<Rightarrow> bytes \<Rightarrow> ZNode list" where
  "list_at m key = (case m key of Some (Zset xs) \<Rightarrow> xs | _ \<Rightarrow> [])"

text \<open>The lines of \<open>do_zadd\<close> for a key that is not there.\<close>

definition new_set_entry :: "gdata \<Rightarrow> bytes \<Rightarrow> (gdata \<times> addr) res" where
  "new_set_entry g key =
     (let (M1, a) = entry_new (g_M g) \<lparr>e_key = key, e_val = [], e_type = 1, e_zset = None\<rparr> (str_hash key);
          (M2, z) = zset_new M1;
          M3 = M2\<lparr>o_e := (o_e M2)(a \<mapsto> \<lparr>e_key = key, e_val = [], e_type = 1, e_zset = Some z\<rparr>)\<rparr> in
      bindr (hm_insert (o_h M3) (g_db g) (Some a)) (\<lambda>(h, hm).
      Inr (g\<lparr>g_M := M3\<lparr>o_h := h\<rparr>, g_db := hm\<rparr>, a)))"

lemma do_zadd_run:
  assumes "stod word = Some score" and "db_lookup g key = Inr (g1, p)"
  shows "do_zadd g [op, key, word, name] out =
    bindr (case p of None \<Rightarrow> new_set_entry g1 key | Some a \<Rightarrow> Inr (g1, a)) (\<lambda>(g2, entry).
    bindr (load (o_e (g_M g2)) (Some entry)) (\<lambda>e.
    bindr (zset_add (g_M g2) (e_zset e) name score) (\<lambda>(M, added).
    Inr (g2\<lparr>g_M := M\<rparr>, RES_OK, out_int out (if added then 1 else 0)))))"
proof -
  have nth: "[op, key, word, name] ! 1 = key" "[op, key, word, name] ! 2 = word" "[op, key, word, name] ! 3 = name"
      "length [op, key, word, name] = 4"
    by simp_all
  show ?thesis
    unfolding do_zadd_def nth assms option.case bindr_Inr prod.case new_set_entry_def by (simp only: simp_thms if_False)
qed

lemma zadd_new:
  assumes R: "db_rep g ns T m" and "m key = None" and "size ns + 1 < 2 ^ 64"
  obtains g' a T' where "new_set_entry g key = Inr (g', a)"
    and "db_rep g' (add_mset a ns) T' (m(key \<mapsto> Zset []))" and "e_key (ent g' a) = key" and "e_type (ent g' a) = 1"
proof -
  let ?a = "h_brk (o_h (g_M g))"
  let ?e = "\<lparr>e_key = key, e_val = [], e_type = 1, e_zset = Some (?a + 1)\<rparr>"
    and ?s = "(o_s (g_M g))(?a + 1 \<mapsto> \<lparr>zs_tree = None, zs_hmap = empty_map\<rparr>)"
  let ?M = "with_entry (g_M g) ?e (?a + 2) ?s"
  obtain h hm where I: "hm_insert (o_h ?M) (g_db g) (Some ?a) = Inr (h, hm)"
      "db_rep (g\<lparr>g_M := ?M\<lparr>o_h := h\<rparr>, g_db := hm\<rparr>) (add_mset ?a ns)
        (T(?a := Leaf)) (m(e_key ?e \<mapsto> (if e_type ?e = 0 then Str (e_val ?e) else Zset [])))"
    by (rule insert_entry [OF R, of ?e "?a + 2" ?s]) (use assms in simp_all)
  have "new_set_entry g key = Inr (g\<lparr>g_M := ?M\<lparr>o_h := h\<rparr>, g_db := hm\<rparr>, ?a)"
    using I(1) by (simp add: new_set_entry_def entry_new_def zset_new_def with_entry_def fresh_def Let_def)
  then show ?thesis using that I(2) by (simp add: ent_def with_entry_def Let_def)
qed

lemma zadd_value:
  assumes R: "db_rep g ns T m" and kind: "\<forall>v. m key \<noteq> Some (Str v)" and score: "stod word = Some score" "\<not> dbl_nan score"
    and small: "length (zput name score (list_at m key)) \<le> 4" and size: "size ns + 1 < 2 ^ 64"
  obtains g' ns' T' where "do_zadd g [op, key, word, name] out
      = Inr (g', RES_OK, out_int out (if zmember name (list_at m key) = None then 1 else 0))"
    and "db_rep g' ns' T' (m(key \<mapsto> Zset (zput name score (list_at m key))))"
    and "size ns' \<le> size ns + (if m key = None then 1 else 0)"
proof -
  obtain g1 p where L: "db_lookup g key = Inr (g1, p)" "db_rep g1 ns T m"
      "case p of None \<Rightarrow> m key = None | Some a \<Rightarrow> a \<in># ns \<and> e_key (ent g1 a) = key"
    by (rule lookup_entry [OF R])
  note finish = that
  have add: ?thesis if E: "do_zadd g [op, key, word, name] out = bindr (zset_add (g_M g2) (e_zset (ent g2 a)) name score)
        (\<lambda>(M, added). Inr (g2\<lparr>g_M := M\<rparr>, RES_OK, out_int out (if added then 1 else 0)))"
      and R2: "db_rep g2 ns2 T2 (m(key \<mapsto> Zset (list_at m key)))" "a \<in># ns2" "size ns2 \<le> size ns + (if m key = None then 1 else 0)"
      and a: "e_key (ent g2 a) = key" "e_type (ent g2 a) \<noteq> 0" for g2 a ns2 T2
  proof -
    obtain M' T' where "zset_add (g_M g2) (e_zset (ent g2 a)) name score = Inr (M', zmember name (list_at m key) = None)"
        "db_rep (g2\<lparr>g_M := M'\<rparr>) ns2 T' (m(key \<mapsto> Zset (zput name score (list_at m key))))"
      by (rule add_to_set [OF R2(1,2) a(2) _ small score(2)]) (use a(1) in simp_all)
    then show ?thesis using finish [OF _ _ R2(3)] E by simp
  qed
  show ?thesis
  proof (cases p)
    case None
    then have none: "m key = None" "list_at m key = []" using L(3) by (simp_all add: list_at_def)
    obtain g2 a T' where N: "new_set_entry g1 key = Inr (g2, a)"
        "db_rep g2 (add_mset a ns) T' (m(key \<mapsto> Zset []))" "e_key (ent g2 a) = key" "e_type (ent g2 a) = 1"
      by (rule zadd_new [OF L(2) none(1) size])
    have "load (o_e (g_M g2)) (Some a) = Inr (ent g2 a)" by (rule entry_of(1) [OF N(2)]) simp
    then have "do_zadd g [op, key, word, name] out = bindr (zset_add (g_M g2) (e_zset (ent g2 a)) name score)
        (\<lambda>(M, added). Inr (g2\<lparr>g_M := M\<rparr>, RES_OK, out_int out (if added then 1 else 0)))"
      using do_zadd_run [OF score(1) L(1), of op name out] None N(1) by simp
    then show ?thesis by (rule add [OF _ N(2) [folded none(2)]]) (use N(3,4) none(1) in simp_all)
  next
    case (Some a)
    then have a: "a \<in># ns" "e_key (ent g1 a) = key" using L(3) by simp_all
    have t: "e_type (ent g1 a) \<noteq> 0" using entry_of(3) [OF L(2) a(1)] a(2) kind by auto
    then have "m key = Some (Zset (list_at m key))" using entry_of(4) [OF L(2) a(1)] a(2) by (simp add: list_at_def)
    then have "m(key \<mapsto> Zset (list_at m key)) = m" by (simp add: fun_upd_idem)
    then have same: "db_rep g1 ns T (m(key \<mapsto> Zset (list_at m key)))" using L(2) by simp
    have "do_zadd g [op, key, word, name] out = bindr (zset_add (g_M g1) (e_zset (ent g1 a)) name score)
        (\<lambda>(M, added). Inr (g1\<lparr>g_M := M\<rparr>, RES_OK, out_int out (if added then 1 else 0)))"
      using do_zadd_run [OF score(1) L(1), of op name out] Some entry_of(1) [OF L(2) a(1)] by simp
    then show ?thesis by (rule add [OF _ same a(1)]) (use a t in simp_all)
  qed
qed

lemma zscore_value:
  assumes R: "db_rep g ns T m"
  obtains g' T' where "do_zscore g [op, key, name] out = Inr (case zmember name (list_at m key) of
        None \<Rightarrow> (g', RES_NX, out_nil out) | Some q \<Rightarrow> (g', RES_OK, out_dbl out (zn_score q)))"
    and "db_rep g' ns T' m"
proof -
  obtain g1 p where L: "db_lookup g key = Inr (g1, p)" "db_rep g1 ns T m"
      "case p of None \<Rightarrow> m key = None | Some a \<Rightarrow> a \<in># ns \<and> e_key (ent g1 a) = key"
    by (rule lookup_entry [OF R])
  have none: "zmember name [] = None" by (simp add: zmember_def)
  show ?thesis
  proof (cases "\<exists>a. p = Some a \<and> e_type (ent g1 a) \<noteq> 0")
    case False
    have "do_zscore g [op, key, name] out = Inr (g1, RES_NX, out_nil out) \<and> list_at m key = []"
    proof (cases p)
      case None
      then show ?thesis using L by (simp add: do_zscore_def list_at_def)
    next
      case (Some a)
      then have a: "a \<in># ns" "e_key (ent g1 a) = key" "e_type (ent g1 a) = 0" using L(3) False by simp_all
      then show ?thesis using L(1) Some entry_of(1,3) [OF L(2) a(1)] by (simp add: do_zscore_def list_at_def)
    qed
    then show ?thesis using that [of g1 T] L(2) none by simp
  next
    case True
    then obtain a where p: "p = Some a" and t: "e_type (ent g1 a) \<noteq> 0" by blast
    then have a: "a \<in># ns" "e_key (ent g1 a) = key" using L(3) by simp_all
    note E = entry_of(4) [OF L(2) a(1) t]
    have xs: "list_at m key = members (g_M g1) (T a)" using E a(2) by (simp add: list_at_def)
    have Z: "zset_rep (g_M g1) (zref g1 a) (zobj g1 a) (T a)" "size (T a) \<le> 4"
      using db_repD(6) [OF L(2), of a] a(1) t by (simp_all add: set_ok_def)
    obtain h hm q where Q: "zset_lookup (g_M g1) (Some (zref g1 a)) name = Inr ((g_M g1)\<lparr>o_h := h,
          o_s := (o_s (g_M g1))(zref g1 a \<mapsto> (zobj g1 a)\<lparr>zs_hmap := hm\<rparr>)\<rparr>, q)"
        "zset_rep ((g_M g1)\<lparr>o_h := h, o_s := (o_s (g_M g1))(zref g1 a \<mapsto> (zobj g1 a)\<lparr>zs_hmap := hm\<rparr>)\<rparr>) (zref g1 a)
          ((zobj g1 a)\<lparr>zs_hmap := hm\<rparr>) (T a)"
        "case q of None \<Rightarrow> \<forall>b \<in> set_tree (T a). zn_name (znode (g_M g1) b) \<noteq> name
         | Some b \<Rightarrow> b \<in> set_tree (T a) \<and> zn_name (znode (g_M g1) b) = name"
        "confined (zref g1 a) (g_M g1, zobj g1 a, T a) ((g_M g1)\<lparr>o_h := h,
          o_s := (o_s (g_M g1))(zref g1 a \<mapsto> (zobj g1 a)\<lparr>zs_hmap := hm\<rparr>)\<rparr>, (zobj g1 a)\<lparr>zs_hmap := hm\<rparr>, T a)"
      by (rule lookup_member [OF Z(1)])
    let ?M = "(g_M g1)\<lparr>o_h := h, o_s := (o_s (g_M g1))(zref g1 a \<mapsto> (zobj g1 a)\<lparr>zs_hmap := hm\<rparr>)\<rparr>"
    have mem: "members ?M (T a) = list_at m key" unfolding xs by (simp add: members_def)
    have "m(key \<mapsto> Zset (list_at m key)) = m" using E a(2) xs by (simp add: fun_upd_idem)
    then have R': "db_rep (g1\<lparr>g_M := ?M\<rparr>) ns (T(a := T a)) m"
      using change_set [OF L(2) a(1) t Q(4,2) Z(2)] unfolding mem a(2) by simp
    note F = find_members [OF zset_repD(9) [OF Z(1)], where name = name]
    have "do_zscore g [op, key, name] out = Inr (case zmember name (list_at m key) of
        None \<Rightarrow> (g1\<lparr>g_M := ?M\<rparr>, RES_NX, out_nil out) | Some q \<Rightarrow> (g1\<lparr>g_M := ?M\<rparr>, RES_OK, out_dbl out (zn_score q)))"
    proof (cases q)
      case None
      then have "zmember name (list_at m key) = None" using Q(3) F(1) xs by simp
      then show ?thesis using L(1) p E entry_of(1) [OF L(2) a(1)] Q(1) None by (simp add: do_zscore_def)
    next
      case (Some b)
      then have b: "b \<in> set_tree (T a)" "zn_name (znode (g_M g1) b) = name" using Q(3) by simp_all
      have "load (o_z ?M) (Some b) = Inr (znode (g_M g1) b)" using zset_repD(6) [OF Z(1) b(1)] by (simp add: load_Some)
      then show ?thesis using L(1) p E entry_of(1) [OF L(2) a(1)] Q(1) Some F(2) [OF b] xs by (simp add: do_zscore_def)
    qed
    then show ?thesis by (rule that) (rule R')
  qed
qed

lemma zquery_value:
  assumes R: "db_rep g ns T m" and score: "stod word = Some score" "\<not> dbl_nan score"
    and num: "stoll off = Some k" "stoll lim = Some l"
  obtains g' where "do_query g [op, key, word, [], off, lim] [] = Inr (g', (if \<exists>xs. m key = Some (Zset xs) then RES_OK else RES_NX),
        concat (map put_pair (zrange score (sint k) (unat (ucast l :: u32)) (list_at m key))))"
    and "db_rep g' ns T m"
proof -
  obtain g1 p where L: "db_lookup g key = Inr (g1, p)" "db_rep g1 ns T m"
      "case p of None \<Rightarrow> m key = None | Some a \<Rightarrow> a \<in># ns \<and> e_key (ent g1 a) = key"
    by (rule lookup_entry [OF R])
  have none: "zrange score (sint k) n [] = []" for n by (simp add: zrange_def)
  show ?thesis
  proof (cases "\<exists>a. p = Some a \<and> e_type (ent g1 a) \<noteq> 0")
    case False
    have "do_query g [op, key, word, [], off, lim] [] = Inr (g1, RES_NX, []) \<and> list_at m key = [] \<and> (\<forall>xs. m key \<noteq> Some (Zset xs))"
    proof (cases p)
      case None
      then show ?thesis using L by (simp add: do_query_def list_at_def)
    next
      case (Some a)
      then have a: "a \<in># ns" "e_key (ent g1 a) = key" "e_type (ent g1 a) = 0" using L(3) False by simp_all
      then show ?thesis using L(1) Some entry_of(1,3) [OF L(2) a(1)] by (simp add: do_query_def list_at_def)
    qed
    then show ?thesis using that [of g1] L(2) none by simp
  next
    case True
    then obtain a where p: "p = Some a" and t: "e_type (ent g1 a) \<noteq> 0" by blast
    then have a: "a \<in># ns" "e_key (ent g1 a) = key" using L(3) by simp_all
    note E = entry_of(4) [OF L(2) a(1) t]
    have xs: "m key = Some (Zset (members (g_M g1) (T a)))" "list_at m key = members (g_M g1) (T a)"
      using E a(2) by (simp_all add: list_at_def)
    have Z: "zset_rep (g_M g1) (zref g1 a) (zobj g1 a) (T a)" "size (T a) \<le> 4"
      using db_repD(6) [OF L(2), of a] a(1) t by (simp_all add: set_ok_def)
    obtain u v where Q: "zset_query (g_M g1) (Some (zref g1 a)) score [] = Inr u" "znode_offset (g_M g1) u (sint k) = Inr v"
        "query_out (unat (ucast l :: u32)) (g_M g1) v [] = Inr ([] @ concat (map put_pair
          (zrange score (sint k) (unat (ucast l :: u32)) (members (g_M g1) (T a)))))"
      by (rule range_set [OF Z(1) score(2) Z(2)])
    have "do_query g [op, key, word, [], off, lim] [] = Inr (g1, RES_OK,
        concat (map put_pair (zrange score (sint k) (unat (ucast l :: u32)) (members (g_M g1) (T a)))))"
      using L(1) p E entry_of(1) [OF L(2) a(1)] score(1) num Q by (simp add: do_query_def)
    then show ?thesis using that [of g1] L(2) xs by simp
  qed
qed

section \<open>Histories\<close>

text \<open>Commands: strings under new keys, reading, deletion, additions to sets, scores, range queries with the empty name.\<close>

datatype dcmd = DSet bytes bytes | DGet bytes | DDel bytes | DZadd bytes bytes bytes | DZscore bytes bytes
  | DZquery bytes bytes bytes bytes

text \<open>A command is served, or a thread finishes the job at a place of the queue; a place after its end has none.\<close>

datatype devent = Call dcmd | Work nat

fun dwords :: "dcmd \<Rightarrow> bytes list" where
  "dwords (DSet key val) = [lit ''set'', key, val]"
| "dwords (DGet key) = [lit ''get'', key]"
| "dwords (DDel key) = [lit ''del'', key]"
| "dwords (DZadd key score name) = [lit ''zadd'', key, score, name]"
| "dwords (DZscore key name) = [lit ''zscore'', key, name]"
| "dwords (DZquery key score offset limit) = [lit ''zquery'', key, score, [], offset, limit]"

fun serve_events :: "gdata \<Rightarrow> devent list \<Rightarrow> (gdata \<times> (u32 \<times> bytes) list) res" where
  "serve_events g [] = Inr (g, [])"
| "serve_events g (Call c # es) =
     bindr (do_request g (dwords c) []) (\<lambda>(g1, r, out). bindr (serve_events g1 es) (\<lambda>(g2, rs). Inr (g2, (r, out) # rs)))"
| "serve_events g (Work i # es) = bindr (finish_job i g) (\<lambda>g1. serve_events g1 es)"

definition score_word :: "bytes \<Rightarrow> bool" where
  "score_word word = (case stod word of None \<Rightarrow> False | Some score \<Rightarrow> \<not> dbl_nan score)"

text \<open>A map with at most \<open>n\<close> keys.\<close>

fun dallowed :: "nat \<Rightarrow> dmap \<Rightarrow> dcmd \<Rightarrow> bool" where
  "dallowed n m (DSet key val) = (m key = None \<and> length val \<le> k_max_msg)"
| "dallowed n m (DGet key) = True"
| "dallowed n m (DDel key) = (n \<le> k_resizing_work)"
| "dallowed n m (DZadd key score name) = (score_word score \<and> (case m key of Some (Str _) \<Rightarrow> False | _ \<Rightarrow> True) \<and>
     length (zput name (the (stod score)) (list_at m key)) \<le> 4)"
| "dallowed n m (DZscore key name) = True"
| "dallowed n m (DZquery key score offset limit) = (score_word score \<and> stoll offset \<noteq> None \<and> stoll limit \<noteq> None)"

fun dnext :: "dcmd \<Rightarrow> dmap \<Rightarrow> dmap" where
  "dnext (DSet key val) m = m(key \<mapsto> Str val)"
| "dnext (DDel key) m = m(key := None)"
| "dnext (DZadd key score name) m = m(key \<mapsto> Zset (zput name (the (stod score)) (list_at m key)))"
| "dnext _ m = m"

fun dkeys :: "dcmd \<Rightarrow> dmap \<Rightarrow> nat \<Rightarrow> nat" where
  "dkeys (DSet key val) m n = Suc n"
| "dkeys (DDel key) m n = n - (if m key = None then 0 else 1)"
| "dkeys (DZadd key score name) m n = n + (if m key = None then 1 else 0)"
| "dkeys _ m n = n"

text \<open>The code and the bytes of the reply.\<close>

fun danswer :: "dmap \<Rightarrow> dcmd \<Rightarrow> u32 \<times> bytes" where
  "danswer m (DSet key val) = (RES_OK, out_int [] 0)"
| "danswer m (DGet key) = (case m key of None \<Rightarrow> (RES_NX, out_int [] (ucast RES_NX))
     | Some (Str val) \<Rightarrow> (RES_OK, out_str [] val) | Some (Zset xs) \<Rightarrow> (RES_OK, out_str [] []))"
| "danswer m (DDel key) = (RES_OK, out_int [] (if m key = None then 0 else 1))"
| "danswer m (DZadd key score name) = (RES_OK, out_int [] (if zmember name (list_at m key) = None then 1 else 0))"
| "danswer m (DZscore key name) = (case zmember name (list_at m key) of None \<Rightarrow> (RES_NX, out_nil [])
     | Some q \<Rightarrow> (RES_OK, out_dbl [] (zn_score q)))"
| "danswer m (DZquery key score offset limit) = (case m key of
       Some (Zset xs) \<Rightarrow> (RES_OK, concat (map put_pair (zrange (the (stod score)) (sint (the (stoll offset)))
         (unat (ucast (the (stoll limit)) :: u32)) xs)))
     | _ \<Rightarrow> (RES_NX, []))"

text \<open>The threads change neither the map nor the replies.\<close>

fun dallowed_all :: "devent list \<Rightarrow> nat \<Rightarrow> dmap \<Rightarrow> bool" where
  "dallowed_all [] n m = True"
| "dallowed_all (Call c # es) n m = (dallowed n m c \<and> dallowed_all es (dkeys c m n) (dnext c m))"
| "dallowed_all (Work i # es) n m = dallowed_all es n m"

fun danswers :: "devent list \<Rightarrow> dmap \<Rightarrow> (u32 \<times> bytes) list" where
  "danswers [] m = []"
| "danswers (Call c # es) m = danswer m c # danswers es (dnext c m)"
| "danswers (Work i # es) m = danswers es m"

lemma zlits_differ:
  "lit ''zadd'' \<noteq> lit ''keys''" "lit ''zadd'' \<noteq> lit ''get''" "lit ''zadd'' \<noteq> lit ''set''" "lit ''zadd'' \<noteq> lit ''del''"
  "lit ''zscore'' \<noteq> lit ''keys''" "lit ''zscore'' \<noteq> lit ''get''" "lit ''zscore'' \<noteq> lit ''set''"
  "lit ''zscore'' \<noteq> lit ''del''" "lit ''zscore'' \<noteq> lit ''zadd''" "lit ''zquery'' \<noteq> lit ''keys''"
  "lit ''zquery'' \<noteq> lit ''get''" "lit ''zquery'' \<noteq> lit ''set''" "lit ''zquery'' \<noteq> lit ''del''"
  "lit ''zquery'' \<noteq> lit ''zadd''" "lit ''zquery'' \<noteq> lit ''zscore''" "lit ''zquery'' \<noteq> lit ''zrem''"
  by code_simp+

lemma dispatch_run:
  "do_request g [lit ''set'', key, val] out = do_set g [lit ''set'', key, val] out"
  "do_request g [lit ''get'', key] out = do_get g [lit ''get'', key] out"
  "do_request g [lit ''del'', key] out = do_del g [lit ''del'', key] out"
  "do_request g [lit ''zadd'', key, score, name] out = do_zadd g [lit ''zadd'', key, score, name] out"
  "do_request g [lit ''zscore'', key, name] out = do_zscore g [lit ''zscore'', key, name] out"
  "do_request g [lit ''zquery'', key, score, [], offset, limit] out = do_query g [lit ''zquery'', key, score, [], offset, limit] out"
  by (simp_all add: dispatch zlits_differ)

lemma score_wordE:
  assumes "score_word word"
  obtains score where "stod word = Some score" and "\<not> dbl_nan score"
  using assms by (auto simp: score_word_def split: option.splits)

lemma command_served:
  assumes R: "db_rep g ns T m" and ok: "dallowed n m c" and size: "size ns + 1 < 2 ^ 64" "size ns \<le> n"
  obtains g' r out ns' T' where "do_request g (dwords c) [] = Inr (g', r, out)" and "(r, out) = danswer m c"
    and "db_rep g' ns' T' (dnext c m)" and "size ns' \<le> dkeys c m n"
proof (cases c)
  case (DSet key val)
  have k: "m key = None" "length val \<le> k_max_msg" using ok DSet by simp_all
  obtain g' a T' where "do_set g [lit ''set'', key, val] [] = Inr (g', RES_OK, out_int [] 0)"
      "db_rep g' (add_mset a ns) T' (m(key \<mapsto> Str val))"
    by (rule set_string [OF R k size(1)])
  then have "do_request g (dwords c) [] = Inr (g', RES_OK, out_int [] 0)" "db_rep g' (add_mset a ns) T' (dnext c m)"
      "(RES_OK, out_int [] 0) = danswer m c" "size (add_mset a ns) \<le> dkeys c m n"
    using DSet dispatch_run(1) [of g key val "[]"] size(2) by simp_all
  then show ?thesis using that by blast
next
  case (DGet key)
  obtain g' where G: "do_get g [lit ''get'', key] [] = Inr (case m key of
        None \<Rightarrow> (g', RES_NX, out_int [] (ucast RES_NX)) | Some (Str v) \<Rightarrow> (g', RES_OK, out_str [] v)
      | Some (Zset xs) \<Rightarrow> (g', RES_OK, out_str [] []))" "db_rep g' ns T m"
    by (rule get_value [OF R])
  then show ?thesis using that [of g' "fst (danswer m c)" "snd (danswer m c)" ns T] DGet
    dispatch_run(2) [of g key] size(2) by (auto split: option.splits dval.splits)
next
  case (DDel key)
  have few: "size ns \<le> k_resizing_work" using ok DDel size(2) by simp
  obtain g' ns' where G: "do_del g [lit ''del'', key] [] = Inr (g', RES_OK, out_int [] (if m key = None then 0 else 1))"
      "db_rep g' ns' T (m(key := None))" "size ns' = size ns - (if m key = None then 0 else 1)"
    by (rule delete_entry [OF R few])
  have "size ns' \<le> dkeys c m n" unfolding G(3) DDel dkeys.simps by (rule diff_le_mono [OF size(2)])
  then show ?thesis using that [OF _ _ _ \<open>size ns' \<le> dkeys c m n\<close>, of g' RES_OK "snd (danswer m c)" T] DDel G(1,2)
    dispatch_run(3) [of g key] by simp
next
  case (DZadd key word name)
  obtain score where S: "stod word = Some score" "\<not> dbl_nan score" using ok DZadd by (auto elim: score_wordE)
  have k: "\<forall>v. m key \<noteq> Some (Str v)" "length (zput name score (list_at m key)) \<le> 4" using ok DZadd S(1) by auto
  obtain g' ns' T' where G: "do_zadd g [lit ''zadd'', key, word, name] []
      = Inr (g', RES_OK, out_int [] (if zmember name (list_at m key) = None then 1 else 0))"
      "db_rep g' ns' T' (m(key \<mapsto> Zset (zput name score (list_at m key))))"
      "size ns' \<le> size ns + (if m key = None then 1 else 0)"
    by (rule zadd_value [OF R k(1) S k(2) size(1)])
  have "size ns' \<le> dkeys c m n" using G(3) size(2) unfolding DZadd dkeys.simps by linarith
  then show ?thesis using that [OF _ _ _ \<open>size ns' \<le> dkeys c m n\<close>, of g' RES_OK "snd (danswer m c)" T'] DZadd S(1) G(1,2)
    dispatch_run(4) [of g key word name] by simp
next
  case (DZscore key name)
  obtain g' T' where "do_zscore g [lit ''zscore'', key, name] [] = Inr (case zmember name (list_at m key) of
        None \<Rightarrow> (g', RES_NX, out_nil []) | Some q \<Rightarrow> (g', RES_OK, out_dbl [] (zn_score q)))" "db_rep g' ns T' m"
    by (rule zscore_value [OF R])
  then show ?thesis using that [of g' "fst (danswer m c)" "snd (danswer m c)" ns T'] DZscore
    dispatch_run(5) [of g key name] size(2) by (simp split: option.splits)
next
  case (DZquery key word off lim)
  obtain score k l where S: "stod word = Some score" "\<not> dbl_nan score" "stoll off = Some k" "stoll lim = Some l"
    using ok DZquery by (auto elim: score_wordE)
  obtain g' where "do_query g [lit ''zquery'', key, word, [], off, lim] [] = Inr (g',
        (if \<exists>xs. m key = Some (Zset xs) then RES_OK else RES_NX),
        concat (map put_pair (zrange score (sint k) (unat (ucast l :: u32)) (list_at m key))))" "db_rep g' ns T m"
    by (rule zquery_value [OF R S])
  then show ?thesis using that [of g' "fst (danswer m c)" "snd (danswer m c)" ns T] DZquery S
    dispatch_run(6) [of g key word off lim] size(2)
    by (auto simp: list_at_def zrange_def split: option.splits dval.splits)
qed

lemma dkeys_le: "dkeys c m n \<le> Suc n"
  by (cases c) auto

lemma serve_from:
  assumes "db_rep g ns T m" and "dallowed_all es n m" and "size ns \<le> n" and "n + length es < 2 ^ 64"
  shows "\<exists>g'. serve_events g es = Inr (g', danswers es m)"
  using assms
proof (induction es arbitrary: g ns T m n)
  case (Cons e es)
  show ?case
  proof (cases e)
    case (Call c)
    obtain g' r out ns' T' where S: "do_request g (dwords c) [] = Inr (g', r, out)" "(r, out) = danswer m c"
        "db_rep g' ns' T' (dnext c m)" "size ns' \<le> dkeys c m n"
      by (rule command_served [OF Cons.prems(1), of n c]) (use Cons.prems(2-4) Call in simp_all)
    have "dkeys c m n + length es < 2 ^ 64" using dkeys_le [of c m n] Cons.prems(4) by simp
    then obtain g2 where "serve_events g' es = Inr (g2, danswers es (dnext c m))"
      using Cons.IH [OF S(3) _ S(4)] Cons.prems(2) Call by auto
    then show ?thesis using S(1,2) Call by simp
  next
    case (Work i)
    obtain g' where S: "finish_job i g = Inr g'" "db_rep g' ns T m" by (rule run_job [OF Cons.prems(1)])
    then show ?thesis using Cons.IH [OF S(2)] Cons.prems(2-4) Work by simp
  qed
qed simp

lemma fresh_rep: "db_rep (g_init clock) {#} (\<lambda>_. Leaf) Map.empty"
proof -
  have "map_holds (o_h (g_M (g_init clock)), empty_map) {#}"
    using empty_map_ok unfolding map_holds_def by (intro exI [of _ "[]"]) simp
  then show ?thesis by (simp add: db_rep_def g_init_def)
qed

section \<open>Property\<close>

text \<open>
  C3.  The commands on strings and sorted sets refine a map from keys to strings and ordered lists of members, whenever
  the threads of the pool destroy deleted sets.  From the start of the server, every history of \<open>SET\<close> of a new key,
  \<open>GET\<close>, \<open>DEL\<close>, \<open>ZADD\<close>, \<open>ZSCORE\<close> and \<open>ZQUERY\<close> with the empty name returns, and the code and the bytes of every
  reply are those of the map, as long as \<open>ZADD\<close> is not used on a string or for a fifth member, \<open>DEL\<close> meets at
  most 128 keys, and every word for a number is one (\<open>dallowed\<close>).  The sets share the heap with each other and with the
  database; the jobs in the queue are finished between commands, in any order, by \<open>threaded_zset_destructor\<close>.
\<close>

theorem set_commands_refine_map:
  assumes "dallowed_all es 0 Map.empty" and "length es < 2 ^ 64"
  shows "\<exists>g'. serve_events (g_init clock) es = Inr (g', danswers es Map.empty)"
  by (rule serve_from [OF fresh_rep assms(1)]) (use assms(2) in simp_all)

text \<open>
  Two sets and a string; the members of the first in the range from 2, after \<open>a\<close> has got the score 3.  Then both sets are
  deleted, the second is destroyed first, and a new set is made under the key of the first before that is destroyed.
\<close>

definition demo_cmds :: "devent list" where
  "demo_cmds = [Call (DZadd (lit ''s'') (lit ''1'') (lit ''a'')), Call (DSet (lit ''k'') (lit ''v'')),
     Call (DZadd (lit ''s'') (lit ''2'') (lit ''b'')), Call (DZadd (lit ''t'') (lit ''7'') (lit ''a'')),
     Call (DZadd (lit ''s'') (lit ''3'') (lit ''a'')), Call (DZscore (lit ''t'') (lit ''a'')),
     Call (DZquery (lit ''s'') (lit ''2'') (lit ''0'') (lit ''5'')), Call (DDel (lit ''s'')), Call (DDel (lit ''t'')), Work 1,
     Call (DGet (lit ''k'')), Call (DZadd (lit ''s'') (lit ''7'') (lit ''b'')), Work 0, Call (DDel (lit ''t'')),
     Call (DZscore (lit ''s'') (lit ''b'')), Call (DZscore (lit ''s'') (lit ''a''))]"

definition demo_replies :: "(u32 \<times> bytes) list" where
  "demo_replies = [(0, out_int [] 1), (0, out_int [] 0), (0, out_int [] 1), (0, out_int [] 1), (0, out_int [] 0),
      (0, out_dbl [] 0x401C000000000000),
      (0, out_dbl (out_str (out_dbl (out_str [] (lit ''b'')) 0x4000000000000000) (lit ''a'')) 0x4008000000000000),
      (0, out_int [] 1), (0, out_int [] 1), (0, out_str [] (lit ''v'')), (0, out_int [] 1), (0, out_int [] 0),
      (0, out_dbl [] 0x401C000000000000), (RES_NX, out_nil [])]"

theorem set_commands_refine_map_witness:
  "\<exists>g'. serve_events (g_init (\<lambda>_. 0)) demo_cmds = Inr (g', demo_replies)"
proof -
  have "dallowed_all demo_cmds 0 Map.empty" by code_simp
  moreover have "danswers demo_cmds Map.empty = demo_replies" by code_simp
  moreover have "length demo_cmds < 2 ^ 64" by (simp add: demo_cmds_def)
  ultimately show ?thesis using set_commands_refine_map [of demo_cmds "\<lambda>_. 0"] by simp
qed

end
