(* ===== verification/Repository_Tests.thy ===== *)
theory Repository_Tests
  imports Commands Event_Loop
begin

text \<open>
  The tests of the repository, \<open>test/test_basic.cpp\<close> and \<open>test_idle_timeout_simple.cpp\<close>, run on the model.  A failed
  \<open>assert\<close> of a test is \<open>AssertFailed\<close>.  What the tests print is left out.
\<close>

unbundle bit_operations_syntax

section \<open>Steps of a test\<close>

text \<open>A command whose code has to be \<open>code\<close>, on the reply \<open>out\<close>.\<close>

definition expect :: "u32 \<Rightarrow> cmd_res \<Rightarrow> (gdata \<times> bytes) res" where
  "expect code res = bindr res (\<lambda>(g, r, out). bindr (checkr AssertFailed (r = code)) (\<lambda>_. Inr (g, out)))"

text \<open>\<open>out.find(s) != npos\<close>.\<close>

definition finds :: "bytes \<Rightarrow> bytes \<Rightarrow> bool" where
  "finds s out = list_ex (\<lambda>i. take (length s) (drop i out) = s) [0..<Suc (length out)]"

text \<open>
  \<open>std::fabs(val - expected) < 1e-9\<close>, which no NaN and no infinity satisfies.  A finite double is a number of
  units of the smallest one, \<open>2 ^ - 1074\<close>.  Doubles this close subtract without rounding.
\<close>

definition dbl_units :: "dbl \<Rightarrow> int" where
  "dbl_units x =
     (let e = unat (drop_bit 52 x AND 0x7FF); f = uint (x AND 0xFFFFFFFFFFFFF);
          v = (if e = 0 then f else (2 ^ 52 + f) * 2 ^ (e - 1))
      in if x AND 0x8000000000000000 = 0 then v else - v)"

definition dbl_near :: "dbl \<Rightarrow> dbl \<Rightarrow> bool" where
  "dbl_near x y \<longleftrightarrow> drop_bit 52 x AND 0x7FF \<noteq> 0x7FF \<and> \<bar>dbl_units x - dbl_units y\<bar> * 10 ^ 9 < 2 ^ 1074"

text \<open>\<open>assert_dbl_response\<close>.\<close>

definition assert_dbl :: "bytes \<Rightarrow> dbl \<Rightarrow> unit res" where
  "assert_dbl out expected =
     bindr (checkr AssertFailed (length out \<ge> 9)) (\<lambda>_.
     bindr (checkr AssertFailed (out ! 0 = 5)) (\<lambda>_.
     checkr AssertFailed (dbl_near (rd_be64 (take 8 (drop 1 out))) expected)))"

text \<open>A call inside \<open>try\<close> that has to throw; \<open>g\<close> is the state in which the exception is caught.\<close>

definition throws :: "cmd_res \<Rightarrow> gdata \<Rightarrow> gdata res" where
  "throws res g = (case res of Inr _ \<Rightarrow> Inl AssertFailed | Inl e \<Rightarrow> if e = Uncaught then Inr g else Inl e)"

section \<open>The basic tests\<close>

definition test_set_get_del_keys :: "gdata \<Rightarrow> gdata res" where
  "test_set_get_del_keys g =
     bindr (expect RES_OK (do_set g [lit ''set'', lit ''foo'', lit ''bar''] [])) (\<lambda>(g1, _).
     bindr (expect RES_OK (do_get g1 [lit ''get'', lit ''foo''] [])) (\<lambda>(g2, out).
     bindr (checkr AssertFailed (finds (lit ''bar'') out)) (\<lambda>_.
     bindr (expect RES_OK (do_del g2 [lit ''del'', lit ''foo''] [])) (\<lambda>(g3, _).
     bindr (expect RES_NX (do_get g3 [lit ''get'', lit ''foo''] [])) (\<lambda>(g4, _).
     bindr (expect RES_OK (do_keys g4 [lit ''keys''] [])) (\<lambda>(g5, _). Inr g5))))))"

text \<open>The loop that reads two pairs of a name and a score from the reply of \<open>ZQUERY\<close>.\<close>

definition check_pair :: "bytes \<Rightarrow> dbl \<Rightarrow> bytes \<Rightarrow> nat \<Rightarrow> nat res" where
  "check_pair name score out pos =
     bindr (checkr AssertFailed (pos < length out \<and> out ! pos = 2)) (\<lambda>_.
     let slen = unat (rd_le32 (take 4 (drop (pos + 1) out))); pos1 = pos + (5 + slen) in
     bindr (checkr AssertFailed (take slen (drop (pos + 5) out) = name)) (\<lambda>_.
     bindr (checkr AssertFailed (pos1 < length out \<and> out ! pos1 = 5)) (\<lambda>_.
     bindr (checkr AssertFailed (dbl_near (rd_be64 (take 8 (drop (pos1 + 1) out))) score)) (\<lambda>_.
     Inr (pos1 + 9)))))"

primrec check_pairs :: "(bytes \<times> dbl) list \<Rightarrow> bytes \<Rightarrow> nat \<Rightarrow> unit res" where
  "check_pairs [] out pos = Inr ()"
| "check_pairs (p # ps) out pos = bindr (check_pair (fst p) (snd p) out pos) (check_pairs ps out)"

text \<open>The bits of 1.5, 2.0 and 3.0.\<close>

definition test_zset :: "gdata \<Rightarrow> gdata res" where
  "test_zset g =
     bindr (expect RES_OK (do_zadd g [lit ''zadd'', lit ''myzset'', lit ''1.5'', lit ''alice''] [])) (\<lambda>(g1, _).
     bindr (expect RES_OK (do_zscore g1 [lit ''zscore'', lit ''myzset'', lit ''alice''] [])) (\<lambda>(g2, out).
     bindr (assert_dbl out 0x3FF8000000000000) (\<lambda>_.
     bindr (expect RES_OK (do_zrem g2 [lit ''zrem'', lit ''myzset'', lit ''alice''] [])) (\<lambda>(g3, _).
     bindr (expect RES_NX (do_zscore g3 [lit ''zscore'', lit ''myzset'', lit ''alice''] [])) (\<lambda>(g4, _).
     bindr (expect RES_OK (do_zadd g4 [lit ''zadd'', lit ''myzset'', lit ''2.0'', lit ''bob''] [])) (\<lambda>(g5, out1).
     bindr (expect RES_OK (do_zadd g5 [lit ''zadd'', lit ''myzset'', lit ''3.0'', lit ''carol''] out1)) (\<lambda>(g6, _).
     bindr (expect RES_OK (do_query g6 [lit ''zquery'', lit ''myzset'', lit ''2.0'', lit ''bob'', lit ''0'', lit ''2''] []))
       (\<lambda>(g7, out2).
     bindr (check_pairs [(lit ''bob'', 0x4000000000000000), (lit ''carol'', 0x4008000000000000)] out2 0) (\<lambda>_.
     Inr g7)))))))))"

definition test_edge_cases :: "gdata \<Rightarrow> gdata res" where
  "test_edge_cases g =
     bindr (expect RES_OK (do_set g [lit ''set'', [], []] [])) (\<lambda>(g1, _).
     bindr (expect RES_OK (do_get g1 [lit ''get'', []] [])) (\<lambda>(g2, _).
     bindr (expect RES_OK (do_del g2 [lit ''del'', []] [])) (\<lambda>(g3, _).
     bindr (throws (do_zadd g3 [lit ''zadd'', lit ''myzset'', lit ''notanumber'', lit ''dave''] []) g3) (\<lambda>g4.
     bindr (db_lookup g4 (lit ''myzset'')) (\<lambda>(g5, _).
     throws (do_query g4 [lit ''zquery'', lit ''myzset'', lit ''2.0'', lit ''bob'', lit ''notanumber'', lit ''notanumber''] [])
       g5)))))"

text \<open>
  \<open>test_timer_basics\<close>.  Nothing in this program initialises \<open>g_data.idle_list\<close>, whose pointers are \<open>NULL\<close>:
  \<open>dList_empty\<close> takes such a list for empty.
\<close>

definition g_data :: "(nat \<Rightarrow> u64) \<Rightarrow> server" where
  "g_data clock =
     \<lparr>sv_g = g_init clock, sv_conns = Map.empty, sv_fd2conn = [],
      sv_idle = [idle_head \<mapsto> \<lparr>d_prev = None, d_next = None\<rparr>],
      sv_socks = (\<lambda>_. \<lparr>sk_in = [], sk_out = [], sk_sent = []\<rparr>), sv_closed = []\<rparr>"

definition test_timer_basics :: "server \<Rightarrow> server res" where
  "test_timer_basics sv =
     (let (start, g) = get_monotonic_usec (sv_g sv) in
      bindr (checkr AssertFailed (start > 0)) (\<lambda>_.
      bindr (next_timer_ms (sv\<lparr>sv_g := g\<rparr>)) (\<lambda>(sv1, timeout).
      bindr (checkr AssertFailed (timeout = 10000)) (\<lambda>_. Inr sv1))))"

definition test_basic :: "(nat \<Rightarrow> u64) \<Rightarrow> server res" where
  "test_basic clock =
     bindr (test_set_get_del_keys (g_init clock)) (\<lambda>g1.
     bindr (test_zset g1) (\<lambda>g2.
     bindr (test_edge_cases g2) (\<lambda>g3.
     test_timer_basics ((g_data clock)\<lparr>sv_g := g3\<rparr>))))"

section \<open>The test of the idle timeout\<close>

text \<open>
  \<open>main\<close> of \<open>test_idle_timeout_simple.cpp\<close>: one connection, at address 7, with descriptor 999 but without a place in
  \<open>fd2conn\<close>.  The value is the exit status; the sleep lies between two readings of the clock.
\<close>

definition test_idle_timeout :: "(nat \<Rightarrow> u64) \<Rightarrow> nat res" where
  "test_idle_timeout clock =
     bindr (dList_init (sv_idle (g_data clock)) (Some idle_head)) (\<lambda>d0.
     let (start, g1) = get_monotonic_usec (g_init clock);
         conn = \<lparr>c_fd = 999, c_state = STATE_REQ, c_rbuf = [], c_wbuf = [], c_sent = 0, c_idle_start = start\<rparr> in
     bindr (idle_open 7 (d0(7 \<mapsto> \<lparr>d_prev = None, d_next = None\<rparr>))) (\<lambda>d1.
     bindr (next_timer_ms ((g_data clock)\<lparr>sv_g := g1, sv_conns := [7 \<mapsto> conn], sv_idle := d1\<rparr>)) (\<lambda>(sv2, timeout).
     let (now_us, g3) = get_monotonic_usec (sv_g sv2) in
     bindr (process_timers (sv2\<lparr>sv_g := g3\<rparr>)) (\<lambda>sv4.
     bindr (dList_empty (sv_idle sv4) (Some idle_head)) (\<lambda>empty.
     if \<not> empty then Inr 1
     else bindr (load (sv_conns sv4) (Some 7)) (\<lambda>_. Inr 0))))))"

section \<open>Results\<close>

text \<open>When five seconds have passed, \<open>process_timers\<close> stores through an index that \<open>fd2conn\<close> does not have.\<close>

lemma idle_test_fails:
  assumes "clock 0 + 5000000 \<le> clock 3"
  shows "test_idle_timeout clock = Inl OutOfBounds"
proof -
  have "\<not> clock 3 < clock 0 + 5000000" using assms by (simp add: not_less)
  then show ?thesis
    by (simp add: test_idle_timeout_def g_data_def dList_init_def idle_open_def list_insert_before_def
        next_timer_ms_def process_timers_def get_monotonic_usec_def g_init_def idle_head_def dList_empty_def load_Some
        update_Some Let_def k_idle_timeout_ms_def aset_def numeral_eq_Suc)
qed

text \<open>The commands of \<open>test_zset\<close> after the first set has been forgotten.\<close>

definition test_zquery :: "gdata \<Rightarrow> gdata res" where
  "test_zquery g =
     bindr (expect RES_OK (do_zadd g [lit ''zadd'', lit ''myzset'', lit ''2.0'', lit ''bob''] [])) (\<lambda>(g1, out1).
     bindr (expect RES_OK (do_zadd g1 [lit ''zadd'', lit ''myzset'', lit ''3.0'', lit ''carol''] out1)) (\<lambda>(g2, _).
     bindr (expect RES_OK (do_query g2 [lit ''zquery'', lit ''myzset'', lit ''2.0'', lit ''bob'', lit ''0'', lit ''2''] []))
       (\<lambda>(g3, out2).
     bindr (check_pairs [(lit ''bob'', 0x4000000000000000), (lit ''carol'', 0x4008000000000000)] out2 0) (\<lambda>_.
     Inr g3))))"

text \<open>Runs to a result, by evaluation.\<close>

definition passes :: "'a res \<Rightarrow> bool" where
  "passes r = (case r of Inl _ \<Rightarrow> False | Inr _ \<Rightarrow> True)"

definition fails :: "fault \<Rightarrow> 'a res \<Rightarrow> bool" where
  "fails e r = (case r of Inl f \<Rightarrow> f = e | Inr _ \<Rightarrow> False)"

text \<open>
  The tests of the repository on the model.  The tests of strings and of the timers pass, and so do those of
  the edge cases when the sorted set they name exists.  But \<open>test_basic\<close> as a whole does not: its \<open>ZREM\<close> reads a
  node of the set as an entry, and without it \<open>ZQUERY\<close> writes the name behind a \<open>ZNode\<close> on the stack.
\<close>

theorem repository_tests:
  "passes (test_set_get_del_keys (g_init (\<lambda>_. 1))) \<and>
   passes (bindr (do_zadd (g_init (\<lambda>_. 1)) [lit ''zadd'', lit ''myzset'', lit ''1.5'', lit ''alice''] [])
     (\<lambda>(g, _). test_edge_cases g)) \<and>
   passes (test_timer_basics (g_data (\<lambda>_. 1))) \<and>
   fails BadAddress (test_basic (\<lambda>_. 1)) \<and> fails OutOfBounds (test_zquery (g_init (\<lambda>_. 1)))"
  by (intro conjI; code_simp)

end
