(* ===== verification/Spec2Isabelle.thy ===== *)
theory Spec2Isabelle
  imports Prelude Bytes Serialisation Protocol Hashtable Hash_Map Timer_Heap Idle_List AVL_Tree Numbers
    Objects ZSets ZSet_Order ZSet_Members Commands Command_Replies Set_Removal Database Sockets Connections Event_Loop
    Expiring_Keys Server_Loop Thread_Pool Startup AVL_Delete Small_Sets Set_Limits Set_Store Set_Commands Repository_Tests
begin

text \<open>
  A key-value server in the manner of Redis, and its client: what the C++ program does, as functions and
  step relations on explicit states, and what can be proved of it.

  The program.  The client (\<open>client.cpp\<close>) sends the words of one command in a frame and prints
  the reply.  The server (\<open>Server.cpp\<close>) polls its connections; \<open>utils.cpp\<close> reads requests from a
  connection into a buffer, hands each to \<open>do_request\<close> (\<open>common.cpp\<close>) and flushes the reply.  The commands work
  on a database: a hash map (\<open>hashtable.cpp\<close>) of entries that are strings or sorted sets (\<open>zset.cpp\<close>,
  on the trees of \<open>AVL.cpp\<close>), and a heap of deadlines (\<open>heap.cpp\<close>).  The timers (\<open>timer.cpp\<close>) close idle
  connections, kept in a list by last activity (\<open>DList.cpp\<close>), and remove expired keys; large
  values are destroyed by a pool of threads (\<open>thread.cpp\<close>).
\<close>

text \<open>
  The theories, with the code each one translates.

  Prelude, Bytes: words, addresses, stores, faults, the result type, and the layouts of integers.  An
  operation returns \<open>Inl\<close> of a fault where the code would dereference \<open>NULL\<close>, touch freed memory or
  another type of object, leave an array, fail an assertion, let an exception escape or never return.

  Serialisation, Protocol: the \<open>out_*\<close> functions and \<open>on_response\<close>, \<open>send_req\<close> and \<open>parse_req\<close>; both
  formats round-trip, and the parsers never read outside their input but where stated.

  Hashtable, Hash_Map: the map with progressive resizing on a store of nodes and bucket arrays, \<open>hm_ok\<close> its
  invariant; each operation is described by its effect on the bag of nodes held (locale \<open>node_bag\<close>), and a
  run of operations refines a finite map.  A resizing ends after a bounded number of insertions and look-ups, and the older
  array is freed then.  The failing case of \<open>hm_delete\<close> is stated too.

  Timer_Heap: \<open>heap_update\<close>, \<open>entry_set_ttl\<close>; the heap order, the back references, and any run of changes
  of deadlines against a map from entries to deadlines.  Idle_List: the ring and its order by time.

  AVL_Tree: rotations, rebalancing and deletion with parent pointers, related to trees of HOL.  Objects,
  ZSets, ZSet_Order, ZSet_Members: sorted sets; the order, insertion, walking by rank, and what the map of names needs.
  AVL_Delete: the deletion of any node, with its successor taking its place.  Small_Sets: up to four members a
  sorted set refines an ordered list (\<open>zset_rep\<close>).  Set_Limits: where it ends, at a member that needs a rotation below the
  root, and at \<open>zset_pop\<close>, which faults on every member.  Set_Store, Set_Commands: the commands on such sets
  and on strings refine a map from keys to strings and lists (\<open>db_rep\<close>), while threads destroy the sets that were
  deleted; the sets and the database share one heap, and \<open>elsewhere\<close> and \<open>apart\<close> say what an operation leaves alone
  and that no two of them overlap.

  Numbers, Commands, Command_Replies, Database: number parsing, every command, the form of replies, and the
  refinement of the commands on strings to a bag of pairs.  Expiring_Keys: strings with deadlines; the
  commands, \<open>EXPIRE\<close> and \<open>TTL\<close> and the removal of expired keys refine a finite map (\<open>stores\<close>), as long as
  clients do what \<open>kallowed\<close> says; a deletion of a key with a deadline leaves its item in the heap, and the timers fault
  on it.  Set_Removal: the
  destruction of a sorted set.

  Sockets, Connections, Event_Loop, Server_Loop: whole transfers and the client, a connection and its
  buffers, the timers, accepting, and one turn of the server's loop, which keeps all of it consistent.
  Thread_Pool: the workers and the thread that queues jobs, as interleaved atomic steps.  Startup: \<open>main\<close> of the
  server and of the client as a whole, with the system calls they make.  A server that returns from its start-up listens on
  a non-blocking socket.  From its start and for any number of turns the server faults only in a command or in the removal
  of expired keys: \<open>turn_calls\<close> lists the calls of \<open>do_request\<close> of a turn, for the requests that \<open>frames\<close> reads off the
  bytes of the clients, and \<open>turn_blames\<close> says that the fault is that of the last of them or of the removal.  With clients
  of strings it faults nowhere.  The exchange between client
  and server is below.  Repository_Tests: the repository's own tests, run on the model.
\<close>

text \<open>
  Choices.  Pointers are optional addresses and objects of one type form a store; the nodes embedded in an
  object share its address, so that \<open>container_of\<close> is the identity.  Integers keep their width where the code
  can wrap around.  Host byte order is little endian.  \<open>strtoll\<close>, \<open>stoll\<close> and \<open>stod\<close> are those of
  the GNU C library; a double is its 64 bits.  The kernel is a script of results for the calls still to come,
  so that a theorem about all scripts holds for all ways in which data is cut up, interrupted or refused.
  The clock is a sequence of readings.  What is printed is returned as a list of items, before \<open>printf\<close>
  cuts a string at a zero byte; debug output is left out.

  Fuel.  A loop along pointers takes fuel and ends in \<open>Hang\<close> without it.  Chains of the map get one turn
  more than addresses have been handed out, which is more than a chain without repetition has nodes; trees and
  sorted sets twice as much, since a deletion goes down to the successor and up again, and walks by rank twice that; \<open>on_response\<close> the length of its input, since an
  array nested deeper has more header bytes; a loop over a socket the number of results the script has in
  store, since every turn uses one up; \<open>request_loop\<close> the length of the buffer, since every request is
  four bytes at least; the closing of idle connections the number of places in \<open>fd2conn\<close>.  The
  theorems that state a result show that the fuel suffices.

  A socket without further results answers \<open>EAGAIN\<close>, as a non-blocking one does.  The code makes only
  the listening socket non-blocking (theory Startup; \<open>accept_new_connection\<close> makes no call for the flags of the socket it
  gets, and its model has none either); on the sockets of clients the last read of \<open>statereq\<close> blocks the
  server instead, until this client sends more.  What is proved of the states holds all the same, not when they
  are reached.  A call that the kernel interrupts answers \<open>EINTR\<close>, but no signal ends the process: in truth a write to a
  socket whose peer has closed raises \<open>SIGPIPE\<close>, which nothing in the program ignores or handles, and kills the server
  unless it was started with the signal ignored; the model answers with the error of \<open>write\<close> that the signal would
  precede.  The theorems that the server does not fault are about its own accesses, assertions and exceptions.

  Not modelled: creating the threads and a failure of \<open>pthread\<close> calls; memory running out, but for the
  connection in \<open>accept_new_connection\<close>; what the kernel does with an address or an option; debug output and
  what the tests print.  These are the library and the system.  Properties not yet shown: the
  database beyond 128 keys when keys are deleted, where \<open>hm_delete\<close> meets its failing case, and a sorted
  set of more than four members, whose tree loses nodes in the rebalancing below the root (theorem
  \<open>last_members_lost\<close>) unless the members come in a fortunate order.
\<close>

section \<open>From the client to the database and back\<close>

text \<open>What the server sends when the command was carried out: its reply, or an error when that is too long.\<close>

definition sent_reply :: "reply \<Rightarrow> reply" where
  "sent_reply rep = (if 4 + length (enc_reply rep) > k_max_msg
     then RErr ERR_2BIG (lit ''response is too big'') else rep)"

lemma sent_reply_bytes:
  "enc_reply (sent_reply rep) = (if 4 + length (enc_reply rep) > k_max_msg
     then out_err [] ERR_2BIG (lit ''response is too big'') else enc_reply rep)"
  by (simp add: sent_reply_def)

lemma sent_reply_short: "length (enc_reply (sent_reply rep)) \<le> k_max_msg"
  by (simp add: sent_reply_bytes out_err_def lit_def k_max_msg_def)

lemma words_few: "length (words c) \<le> unat k_max_args"
  by (cases c) (simp_all add: k_max_args_def)

text \<open>
  C1.  A command of the client on strings, at the front of the read buffer of a connection to a database that holds the bag
  \<open>B\<close> of pairs; the values in \<open>B\<close> and the value of a \<open>SET\<close> are no longer than a message.  The command is run, and the
  result is one that \<open>B\<close> allows.  When its code is \<open>RES_OK\<close>, the request is taken out of the buffer and the server sends
  an answer such that a client that has sent the
  command and receives the answer, both cut up by the network in any way, prints the items of the
  reply, or of the error \<open>response is too big\<close> when the reply does not fit a message (\<open>sent_reply\<close>).  Otherwise the server
  sends nothing, the request stays in the buffer and the connection is to be closed.
\<close>

theorem client_is_answered:
  assumes "holds_db g B" and "short B" and "size B + 1 < 2 ^ 64" and "writes_short c"
    and "send_req (words c) = Some msg" and "\<forall>w \<in> set (words c). length w < 2 ^ 32"
    and "conn_ok cn" and "c_state cn = STATE_REQ" and "c_rbuf cn = msg @ rest"
  shows "\<exists>g' s' cn' again r rep B' answer.
    one_request g s cn = Inr (g', s', cn', again) \<and> answers B c r rep B' \<and> holds_db g' B' \<and>
    sk_sent s' @ pending cn' = sk_sent s @ pending cn @ answer \<and>
    (if r = RES_OK then c_rbuf cn' = rest \<and>
       answer = le32 (of_nat (length (enc_reply (sent_reply rep)))) @ enc_reply (sent_reply rep) \<and>
       (\<forall>k later. accepting (sk_out k) \<and> length msg \<le> room (sk_out k) \<and> flowing (sk_in k) \<and>
            inputs (sk_in k) = answer @ later \<longrightarrow>
          (\<exists>k' st. client_main k (words c) = (k', Inr (st, reply_items (sent_reply rep))) \<and>
             sk_sent k' = sk_sent k @ msg \<and> inputs (sk_in k') = later))
     else answer = [] \<and> s' = s \<and> cn' = cn\<lparr>c_state := STATE_END\<rparr>)"
proof -
  obtain g' r rep B' where A: "do_request g (words c) [] = Inr (g', r, enc_reply rep)"
      "answers B c r rep B'" "holds_db g' B'"
    by (rule answer_one [OF assms(1-4)])
  have idle: "pending cn = []" using assms(7,8) by (simp add: conn_ok_def pending_def)
  show ?thesis
  proof (cases "r = RES_OK")
    case False
    note refuse = one_request_refuses [OF assms(7,5,6) words_few assms(9) A(1) False, of s]
    have "pending (cn\<lparr>c_state := STATE_END\<rparr>) = pending cn" by (simp add: pending_def)
    then show ?thesis using refuse A(2,3) False idle
      by (intro exI [of _ g'] exI [of _ s] exI [of _ "cn\<lparr>c_state := STATE_END\<rparr>"] exI [of _ False]
          exI [of _ r] exI [of _ rep] exI [of _ B'] exI [of _ "[]"]) simp
  next
    case True
    let ?a = "enc_reply (sent_reply rep)"
    let ?answer = "le32 (of_nat (length ?a)) @ ?a"
    obtain s' cn' again where R: "one_request g s cn = Inr (g', s', cn', again)" "c_rbuf cn' = rest"
        "sk_sent s' @ pending cn' = sk_sent s @ ?answer"
      using one_request_run [OF assms(7,8,5,6) words_few assms(9) A(1) [unfolded True], of s]
      unfolding Let_def sent_reply_bytes by blast
    have "\<exists>k' st. client_main k (words c) = (k', Inr (st, reply_items (sent_reply rep))) \<and>
        sk_sent k' = sk_sent k @ msg \<and> inputs (sk_in k') = later"
      if "accepting (sk_out k)" "length msg \<le> room (sk_out k)" "flowing (sk_in k)"
        "inputs (sk_in k) = ?answer @ later" for k later
      using client_run [OF assms(5) that(1-3) _ sent_reply_short, of rep later] that(4) by auto
    then show ?thesis using R A(2,3) True idle
      by (intro exI [of _ g'] exI [of _ s'] exI [of _ cn'] exI [of _ again]
          exI [of _ r] exI [of _ rep] exI [of _ B'] exI [of _ ?answer]) simp
  qed
qed

text \<open>The server sends three bytes of the answer at once; the client gets them one by one.\<close>

definition demo_client :: sock where
  "demo_client = \<lparr>sk_in = RIntr # map (\<lambda>b. RData [b]) [9, 0, 0, 0, 3, 0, 0, 0, 0, 0, 0, 0, 0],
     sk_out = [WOk 20, WIntr, WOk 30], sk_sent = []\<rparr>"

definition demo_set_request :: bytes where
  "demo_set_request = [21, 0, 0, 0, 3, 0, 0, 0, 3, 0, 0, 0, 115, 101, 116, 1, 0, 0, 0, 107, 1, 0, 0, 0, 118]"

theorem client_is_answered_witness:
  "\<exists>g' s' cn' again k' st. one_request (g_init (\<lambda>_. 0)) \<lparr>sk_in = [], sk_out = [WOk 3], sk_sent = []\<rparr>
      (demo_conn\<lparr>c_rbuf := demo_set_request @ [1, 2]\<rparr>) = Inr (g', s', cn', again) \<and>
    holds_db g' {#([107], [118])#} \<and> c_rbuf cn' = [1, 2] \<and> sk_sent s' @ pending cn' = inputs (sk_in demo_client) \<and>
    client_main demo_client (words (Set [107] [118])) = (k', Inr (st, [IInt 0])) \<and> sk_sent k' = demo_set_request"
proof -
  have f: "send_req (words (Set [107] [118])) = Some demo_set_request" by code_simp
  have "le32 (of_nat (length (enc_reply (sent_reply (RInt 0))))) @ enc_reply (sent_reply (RInt 0))
      = [9, 0, 0, 0, 3, 0, 0, 0, 0, 0, 0, 0, 0]"
    by code_simp
  then have a: "le32 (of_nat (length (enc_reply (sent_reply (RInt 0))))) @ enc_reply (sent_reply (RInt 0))
      = inputs (sk_in demo_client)"
    by (simp add: demo_client_def)
  have k: "accepting (sk_out demo_client)" "length demo_set_request \<le> room (sk_out demo_client)" "flowing (sk_in demo_client)"
    by (simp_all add: demo_client_def demo_set_request_def accepting_def flowing_def numeral_eq_Suc)
  have item: "reply_items (sent_reply (RInt 0)) = [IInt 0]" by code_simp
  obtain g' s' cn' again r rep B' answer where T:
      "one_request (g_init (\<lambda>_. 0)) \<lparr>sk_in = [], sk_out = [WOk 3], sk_sent = []\<rparr>
        (demo_conn\<lparr>c_rbuf := demo_set_request @ [1, 2]\<rparr>) = Inr (g', s', cn', again)"
      "answers {#} (Set [107] [118]) r rep B'" "holds_db g' B'" "sk_sent s' @ pending cn' = answer"
      "if r = RES_OK then c_rbuf cn' = [1, 2] \<and>
         answer = le32 (of_nat (length (enc_reply (sent_reply rep)))) @ enc_reply (sent_reply rep) \<and>
         (\<forall>k later. accepting (sk_out k) \<and> length demo_set_request \<le> room (sk_out k) \<and> flowing (sk_in k) \<and>
            inputs (sk_in k) = answer @ later \<longrightarrow>
          (\<exists>k' st. client_main k (words (Set [107] [118])) = (k', Inr (st, reply_items (sent_reply rep))) \<and>
             sk_sent k' = sk_sent k @ demo_set_request \<and> inputs (sk_in k') = later))
       else answer = [] \<and> s' = \<lparr>sk_in = [], sk_out = [WOk 3], sk_sent = []\<rparr> \<and> cn' = demo_conn
         \<lparr>c_rbuf := demo_set_request @ [1, 2], c_state := STATE_END\<rparr>"
    using client_is_answered [OF fresh_db [of "\<lambda>_. 0"] _ _ _ f, of "demo_conn\<lparr>c_rbuf := demo_set_request @ [1, 2]\<rparr>" "[1, 2]"
        "\<lparr>sk_in = [], sk_out = [WOk 3], sk_sent = []\<rparr>"]
    by (fastforce simp: short_def k_max_msg_def lit_def demo_conn_def conn_ok_def buf_size_def pending_def demo_set_request_def)
  have r: "r = RES_OK" "rep = RInt 0" "B' = {#([107], [118])#}" using T(2) by (auto elim: answers.cases)
  have ans: "answer = inputs (sk_in demo_client)" using T(5) r a by simp
  have "\<forall>k later. accepting (sk_out k) \<and> length demo_set_request \<le> room (sk_out k) \<and> flowing (sk_in k) \<and>
      inputs (sk_in k) = answer @ later \<longrightarrow>
    (\<exists>k' st. client_main k (words (Set [107] [118])) = (k', Inr (st, reply_items (sent_reply (RInt 0)))) \<and>
       sk_sent k' = sk_sent k @ demo_set_request \<and> inputs (sk_in k') = later)"
    using T(5) r by simp
  from spec [OF spec [OF this], of demo_client "[]"]
  obtain k' st where "client_main demo_client (words (Set [107] [118])) = (k', Inr (st, [IInt 0]))"
      "sk_sent k' = demo_set_request"
    using k ans item by (auto simp: demo_client_def)
  then show ?thesis using T(1,3,4,5) r ans by auto
qed

end
